(* ===== verification/Eloq_Prelude.thy ===== *)
theory Eloq_Prelude
  imports Main "HOL-Library.Word"
begin

text \<open>
  Shared vocabulary of the development: bytes and byte strings, the byte-wise
  orders that \<open>memcmp\<close> and \<open>std::string::operator<\<close> decide, big- and
  little-endian images of unsigned integers, bounded writes into a buffer, and
  the error type of the engine's fallible operations.
\<close>

named_theorems eloq_simps
  \<open>unfolding rules of the model that evaluate concrete inputs\<close>

type_synonym byte = "8 word"
type_synonym bytes = "byte list"

section \<open>Bytes\<close>

lemma byte_cases_less: "(x :: byte) < y \<or> x = y \<or> y < x"
  by (rule less_linear)

lemma unat_byte_less [simp]: "unat (b :: byte) < 256"
  by (rule order_less_le_trans [OF unsigned_less]) simp

lemma of_nat_byte_unat [simp]: "(of_nat (unat b) :: byte) = b"
  by simp

lemma unat_of_nat_byte: "unat (of_nat n :: byte) = n mod 256"
  by (simp add: unat_of_nat)

lemma byte_eq_of_nat_iff: "m < 256 \<Longrightarrow> n < 256 \<Longrightarrow> (of_nat m :: byte) = of_nat n \<longleftrightarrow> m = n"
  by (metis mod_less unat_of_nat_byte)

lemma byte_less_of_nat_iff: "m < 256 \<Longrightarrow> n < 256 \<Longrightarrow> (of_nat m :: byte) < of_nat n \<longleftrightarrow> m < n"
  by (simp add: word_less_nat_alt unat_of_nat_byte)

section \<open>Byte-wise comparison\<close>

text \<open>
  \<open>memcmp n xs ys\<close> is the sign of C's \<open>memcmp\<close> on the first \<open>n\<close> bytes; the
  source tests the sign only. The callers pass \<open>n\<close> within both buffers.
\<close>

fun memcmp :: "nat \<Rightarrow> bytes \<Rightarrow> bytes \<Rightarrow> int" where
  "memcmp (Suc n) (x # xs) (y # ys) =
     (if x < y then - 1 else if y < x then 1 else memcmp n xs ys)"
| "memcmp _ _ _ = 0"

text \<open>The order of \<open>std::string\<close>: unsigned bytes, a proper prefix first.\<close>

fun lexlt :: "bytes \<Rightarrow> bytes \<Rightarrow> bool" where
  "lexlt _ [] = False"
| "lexlt [] (y # ys) = True"
| "lexlt (x # xs) (y # ys) = (x < y \<or> x = y \<and> lexlt xs ys)"

text \<open>
  \<open>lexlt_in\<close> is the part of that order that is decided at a position both
  strings have. It is stable under appending anything on either side, which is
  what a key part needs when other parts follow it.
\<close>

fun lexlt_in :: "bytes \<Rightarrow> bytes \<Rightarrow> bool" where
  "lexlt_in (x # xs) (y # ys) = (x < y \<or> x = y \<and> lexlt_in xs ys)"
| "lexlt_in _ _ = False"

lemma lexlt_irrefl [simp]: "\<not> lexlt xs xs"
  by (induction xs) auto

lemma lexlt_Nil_left [simp]: "lexlt [] ys \<longleftrightarrow> ys \<noteq> []"
  by (cases ys) auto

lemma lexlt_trans: "lexlt xs ys \<Longrightarrow> lexlt ys zs \<Longrightarrow> lexlt xs zs"
proof (induction xs ys arbitrary: zs rule: lexlt.induct)
  case (3 x xs y ys)
  then show ?case by (cases zs) auto
next
  case (2 y ys)
  then show ?case by (cases zs) auto
qed auto

lemma lexlt_total: "xs \<noteq> ys \<Longrightarrow> lexlt xs ys \<or> lexlt ys xs"
  by (induction xs ys rule: lexlt.induct) (auto simp: neq_Nil_conv)

lemma lexlt_asym: "lexlt xs ys \<Longrightarrow> \<not> lexlt ys xs"
  using lexlt_trans by fastforce

lemma lexlt_append_same [simp]: "lexlt (p @ xs) (p @ ys) \<longleftrightarrow> lexlt xs ys"
  by (induction p) auto

lemma lexlt_prefix: "ys \<noteq> [] \<Longrightarrow> lexlt xs (xs @ ys)"
  by (induction xs) auto

lemma lexlt_in_append: "lexlt_in xs ys \<Longrightarrow> lexlt_in (xs @ s) (ys @ t)"
  by (induction xs ys rule: lexlt_in.induct) auto

lemma lexlt_in_imp_lexlt: "lexlt_in xs ys \<Longrightarrow> lexlt (xs @ s) (ys @ t)"
  by (induction xs ys rule: lexlt_in.induct) auto

lemma lexlt_in_append_same [simp]: "lexlt_in (p @ xs) (p @ ys) \<longleftrightarrow> lexlt_in xs ys"
  by (induction p) auto

lemma lexlt_in_irrefl [simp]: "\<not> lexlt_in xs xs"
  by (induction xs) auto

lemma lexlt_in_asym: "lexlt_in xs ys \<Longrightarrow> \<not> lexlt_in ys xs"
  by (induction xs ys rule: lexlt_in.induct) auto

lemma lexlt_in_eq_lexlt: "length xs = length ys \<Longrightarrow> lexlt_in xs ys \<longleftrightarrow> lexlt xs ys"
  by (induction xs ys rule: list_induct2) auto

lemma lexlt_in_append_eq_length:
  "length xs = length ys \<Longrightarrow>
    lexlt_in (xs @ s) (ys @ t) \<longleftrightarrow> lexlt_in xs ys \<or> xs = ys \<and> lexlt_in s t"
  by (induction xs ys rule: list_induct2) auto

lemma lexlt_append_eq_length:
  "length xs = length ys \<Longrightarrow>
    lexlt (xs @ s) (ys @ t) \<longleftrightarrow> lexlt_in xs ys \<or> xs = ys \<and> lexlt s t"
  by (induction xs ys rule: list_induct2) auto

lemma memcmp_sign: "memcmp n xs ys \<in> {- 1, 0, 1}"
  by (induction n xs ys rule: memcmp.induct) auto

lemma memcmp_zero_iff:
  "n \<le> length xs \<Longrightarrow> n \<le> length ys \<Longrightarrow> memcmp n xs ys = 0 \<longleftrightarrow> take n xs = take n ys"
  by (induction n xs ys rule: memcmp.induct) auto

lemma memcmp_less_iff:
  "n \<le> length xs \<Longrightarrow> n \<le> length ys \<Longrightarrow> memcmp n xs ys < 0 \<longleftrightarrow> lexlt_in (take n xs) (take n ys)"
  by (induction n xs ys rule: memcmp.induct) auto

lemma memcmp_greater_iff:
  "n \<le> length xs \<Longrightarrow> n \<le> length ys \<Longrightarrow> memcmp n xs ys > 0 \<longleftrightarrow> lexlt_in (take n ys) (take n xs)"
  by (induction n xs ys rule: memcmp.induct) auto

section \<open>Endian images of unsigned integers\<close>

fun le_bytes :: "nat \<Rightarrow> nat \<Rightarrow> bytes" where
  "le_bytes 0 v = []"
| "le_bytes (Suc n) v = of_nat v # le_bytes n (v div 256)"

definition be_bytes :: "nat \<Rightarrow> nat \<Rightarrow> bytes" where
  "be_bytes n v = rev (le_bytes n v)"

fun le_val :: "bytes \<Rightarrow> nat" where
  "le_val [] = 0"
| "le_val (b # bs) = unat b + 256 * le_val bs"

definition be_val :: "bytes \<Rightarrow> nat" where
  "be_val bs = le_val (rev bs)"

lemma length_le_bytes [simp]: "length (le_bytes n v) = n"
  by (induction n arbitrary: v) auto

lemma length_be_bytes [simp]: "length (be_bytes n v) = n"
  by (simp add: be_bytes_def)

lemma le_val_le_bytes: "le_val (le_bytes n v) = v mod 256 ^ n"
proof (induction n arbitrary: v)
  case (Suc n)
  have "v mod (256 * 256 ^ n) = 256 * (v div 256 mod 256 ^ n) + v mod 256"
    by (rule mod_mult2_eq)
  with Suc show ?case by (simp add: unat_of_nat_byte)
qed simp

lemma be_val_be_bytes: "be_val (be_bytes n v) = v mod 256 ^ n"
  by (simp add: be_val_def be_bytes_def le_val_le_bytes)

lemma le_val_less: "le_val bs < 256 ^ length bs"
proof (induction bs)
  case (Cons b bs)
  have "unat b + 256 * le_val bs < 256 * Suc (le_val bs)"
    by simp
  also have "\<dots> \<le> 256 * 256 ^ length bs"
    using Cons by (simp add: Suc_leI)
  finally show ?case by simp
qed simp

lemma be_val_less: "be_val bs < 256 ^ length bs"
  using le_val_less [of "rev bs"] by (simp add: be_val_def)

lemma le_bytes_le_val: "le_bytes (length bs) (le_val bs) = bs"
proof (induction bs)
  case (Cons b bs)
  have "(of_nat (unat b + 256 * le_val bs) :: byte) = b"
    by (rule word_unat_eq_iff [THEN iffD2]) (simp add: unat_of_nat_byte del: of_nat_add of_nat_mult)
  with Cons show ?case by simp
qed simp

lemma be_bytes_be_val: "be_bytes (length bs) (be_val bs) = bs"
  using le_bytes_le_val [of "rev bs"] by (simp add: be_bytes_def be_val_def)

lemma le_val_append: "le_val (xs @ ys) = le_val xs + 256 ^ length xs * le_val ys"
  by (induction xs) (auto simp: algebra_simps)

lemma be_val_Cons: "be_val (b # bs) = unat b * 256 ^ length bs + be_val bs"
  by (simp add: be_val_def le_val_append)

text \<open>Big-endian images of one width compare like the numbers.\<close>

lemma be_val_less_iff:
  "length xs = length ys \<Longrightarrow> be_val xs < be_val ys \<longleftrightarrow> lexlt_in xs ys"
proof (induction xs ys rule: list_induct2)
  case (Cons x xs y ys)
  let ?M = "256 ^ length ys :: nat"
  have bx: "be_val xs < ?M" and by': "be_val ys < ?M"
    using be_val_less [of xs] be_val_less [of ys] Cons.hyps by auto
  have less: "unat x * ?M + be_val xs < unat y * ?M + be_val ys"
    if "unat x < unat y" "be_val xs < ?M" for x y :: byte and xs ys
  proof -
    have "unat x * ?M + be_val xs < Suc (unat x) * ?M"
      using that by simp
    also have "\<dots> \<le> unat y * ?M"
      using that by (intro mult_right_mono) auto
    finally show ?thesis by simp
  qed
  consider "x < y" | "x = y" | "y < x"
    using byte_cases_less by blast
  then show ?case
  proof cases
    case 1
    then show ?thesis
      using less [of x y xs ys] bx by' Cons.hyps
      by (auto simp: be_val_Cons word_less_nat_alt)
  next
    case 2
    then show ?thesis
      using Cons by (auto simp: be_val_Cons)
  next
    case 3
    then show ?thesis
      using less [of y x ys xs] bx by' Cons.hyps
      by (auto simp: be_val_Cons word_less_nat_alt)
  qed
qed (simp add: be_val_def)

lemma be_val_inj: "length xs = length ys \<Longrightarrow> be_val xs = be_val ys \<longleftrightarrow> xs = ys"
  by (metis be_bytes_be_val)

section \<open>Buffers\<close>

text \<open>
  A write of \<open>src\<close> at offset \<open>off\<close> of a buffer; a write past the end of the
  buffer is undefined in the source and is \<open>None\<close> here.
\<close>

definition memcpy_at :: "bytes \<Rightarrow> nat \<Rightarrow> bytes \<Rightarrow> bytes option" where
  "memcpy_at buf off src =
     (if off + length src \<le> length buf
      then Some (take off buf @ src @ drop (off + length src) buf)
      else None)"

lemma length_memcpy_at: "memcpy_at buf off src = Some buf' \<Longrightarrow> length buf' = length buf"
  by (auto simp: memcpy_at_def split: if_splits)

lemma memcpy_at_append: "memcpy_at (a @ b @ c) (length a) src = Some (a @ src @ c)"
  if "length src = length b"
  using that by (simp add: memcpy_at_def)

section \<open>Status codes\<close>

text \<open>
  Status codes of the engine. \<open>HA_EXIT_FAILURE\<close> and \<open>UNPACK_FAILURE\<close> are both 1
  in the source and are read as "nonzero" by their callers.
\<close>

datatype ha_error =
    HA_EXIT_FAILURE
  | UNPACK_FAILURE
  | HA_ERR_TABLE_CORRUPT
  | HA_ERR_UNSUPPORTED
  | HA_ERR_KEY_NOT_FOUND
  | HA_ERR_END_OF_FILE
  | HA_ERR_FOUND_DUPP_KEY
  | HA_ERR_OUT_OF_MEM
  | HA_ERR_WRONG_COMMAND

end
