(* ===== verification/Net_Buffer.thy ===== *)
theory Net_Buffer
  imports Eloq_Prelude
begin

text \<open>
  The byte-stream layer of the engine, \<open>storage/eloq/eloq_buff.h\<close>: network-order
  integers, the bounded string reader, the growing string writer, the bit writer
  and bit reader used by the unpack information of simple collations, and the
  fixed-capacity buffer writer.

  A destination pointer into a buffer is a pair of the buffer and an offset; a
  source pointer is the list of the bytes that follow it. An access that the
  source leaves undefined (past the end of the buffer, or behind a \<open>DBUG_ASSERT\<close>)
  is \<open>None\<close>.
\<close>

unbundle bit_operations_syntax

section \<open>Network-order integers\<close>

definition mono_netstr_append_uint64 :: "bytes \<Rightarrow> 64 word \<Rightarrow> bytes" where
  "mono_netstr_append_uint64 out_netstr val = out_netstr @ be_bytes 8 (unat val)"

definition mono_netstr_append_uint32 :: "bytes \<Rightarrow> 32 word \<Rightarrow> bytes" where
  "mono_netstr_append_uint32 out_netstr val = out_netstr @ be_bytes 4 (unat val)"

definition mono_netstr_append_uint16 :: "bytes \<Rightarrow> 16 word \<Rightarrow> bytes" where
  "mono_netstr_append_uint16 out_netstr val = out_netstr @ be_bytes 2 (unat val)"

definition mono_netbuf_store_uint64 :: "bytes \<Rightarrow> nat \<Rightarrow> 64 word \<Rightarrow> bytes option" where
  "mono_netbuf_store_uint64 buf off n = memcpy_at buf off (be_bytes 8 (unat n))"

definition mono_netbuf_store_uint32 :: "bytes \<Rightarrow> nat \<Rightarrow> 32 word \<Rightarrow> bytes option" where
  "mono_netbuf_store_uint32 buf off n = memcpy_at buf off (be_bytes 4 (unat n))"

definition mono_netbuf_store_uint16 :: "bytes \<Rightarrow> nat \<Rightarrow> 16 word \<Rightarrow> bytes option" where
  "mono_netbuf_store_uint16 buf off n = memcpy_at buf off (be_bytes 2 (unat n))"

definition mono_netbuf_store_byte :: "bytes \<Rightarrow> nat \<Rightarrow> byte \<Rightarrow> bytes option" where
  "mono_netbuf_store_byte buf off c = memcpy_at buf off [c]"

definition mono_netbuf_store_index :: "bytes \<Rightarrow> nat \<Rightarrow> 32 word \<Rightarrow> bytes option" where
  "mono_netbuf_store_index buf off number = mono_netbuf_store_uint32 buf off number"

definition mono_netbuf_to_uint64 :: "bytes \<Rightarrow> 64 word option" where
  "mono_netbuf_to_uint64 netbuf =
     (if length netbuf < 8 then None else Some (of_nat (be_val (take 8 netbuf))))"

definition mono_netbuf_to_uint32 :: "bytes \<Rightarrow> 32 word option" where
  "mono_netbuf_to_uint32 netbuf =
     (if length netbuf < 4 then None else Some (of_nat (be_val (take 4 netbuf))))"

definition mono_netbuf_to_uint16 :: "bytes \<Rightarrow> 16 word option" where
  "mono_netbuf_to_uint16 netbuf =
     (if length netbuf < 2 then None else Some (of_nat (be_val (take 2 netbuf))))"

definition mono_netbuf_to_byte :: "bytes \<Rightarrow> byte option" where
  "mono_netbuf_to_byte netbuf = (case netbuf of [] \<Rightarrow> None | b # _ \<Rightarrow> Some b)"

text \<open>The read functions also advance the pointer they are given.\<close>

definition mono_netbuf_read_uint64 :: "bytes \<Rightarrow> (64 word \<times> bytes) option" where
  "mono_netbuf_read_uint64 netbuf =
     (case mono_netbuf_to_uint64 netbuf of None \<Rightarrow> None
      | Some host_val \<Rightarrow> Some (host_val, drop 8 netbuf))"

definition mono_netbuf_read_uint32 :: "bytes \<Rightarrow> (32 word \<times> bytes) option" where
  "mono_netbuf_read_uint32 netbuf =
     (case mono_netbuf_to_uint32 netbuf of None \<Rightarrow> None
      | Some host_val \<Rightarrow> Some (host_val, drop 4 netbuf))"

definition mono_netbuf_read_uint16 :: "bytes \<Rightarrow> (16 word \<times> bytes) option" where
  "mono_netbuf_read_uint16 netbuf =
     (case mono_netbuf_to_uint16 netbuf of None \<Rightarrow> None
      | Some host_val \<Rightarrow> Some (host_val, drop 2 netbuf))"

section \<open>The string reader\<close>

text \<open>
  \<open>m_ptr\<close> is a position in the string that is read, \<open>None\<close> standing for
  \<open>nullptr\<close>; \<open>m_len\<close> is the number of bytes left. It is a 32-bit \<open>uint\<close> that the
  constructors initialise from a \<open>size_t\<close>, hence the reduction.
\<close>

record mono_string_reader =
  rd_data :: bytes
  m_ptr :: "nat option"
  m_len :: nat

definition reader_of_string :: "bytes \<Rightarrow> mono_string_reader" where
  "reader_of_string str =
     (let len = length str mod 2 ^ 32
      in \<lparr>rd_data = str, m_ptr = (if len \<noteq> 0 then Some 0 else None), m_len = len\<rparr>)"

definition reader_of_slice :: "bytes \<Rightarrow> mono_string_reader" where
  "reader_of_slice sl =
     \<lparr>rd_data = sl, m_ptr = Some 0, m_len = length sl mod 2 ^ 32\<rparr>"

definition read_or_empty :: "bytes option \<Rightarrow> mono_string_reader" where
  "read_or_empty sl =
     (case sl of None \<Rightarrow> reader_of_string [] | Some s \<Rightarrow> reader_of_slice s)"

definition rd_read :: "nat \<Rightarrow> mono_string_reader \<Rightarrow> nat option \<times> mono_string_reader" where
  "rd_read sz r =
     (if m_len r < sz then (None, r)
      else (m_ptr r, r\<lparr>m_ptr := map_option (\<lambda>p. p + sz) (m_ptr r), m_len := m_len r - sz\<rparr>))"

text \<open>The \<open>sz\<close> bytes at the pointer that \<open>read(sz)\<close> returned.\<close>

definition read_bytes :: "nat \<Rightarrow> mono_string_reader \<Rightarrow> bytes option \<times> mono_string_reader" where
  "read_bytes sz r =
     (case rd_read sz r of (res, r') \<Rightarrow>
        (map_option (\<lambda>p. take sz (drop p (rd_data r))) res, r'))"

definition read_uint8 :: "mono_string_reader \<Rightarrow> nat option \<times> mono_string_reader" where
  "read_uint8 r =
     (case read_bytes 1 r of (None, r') \<Rightarrow> (None, r')
      | (Some p, r') \<Rightarrow> (map_option unat (mono_netbuf_to_byte p), r'))"

definition read_uint16 :: "mono_string_reader \<Rightarrow> nat option \<times> mono_string_reader" where
  "read_uint16 r =
     (case read_bytes 2 r of (None, r') \<Rightarrow> (None, r')
      | (Some p, r') \<Rightarrow> (map_option unat (mono_netbuf_to_uint16 p), r'))"

definition read_uint64 :: "mono_string_reader \<Rightarrow> 64 word option \<times> mono_string_reader" where
  "read_uint64 r =
     (case read_bytes 8 r of (None, r') \<Rightarrow> (None, r')
      | (Some p, r') \<Rightarrow> (mono_netbuf_to_uint64 p, r'))"

definition remaining_bytes :: "mono_string_reader \<Rightarrow> nat" where
  "remaining_bytes r = m_len r"

definition get_current_ptr :: "mono_string_reader \<Rightarrow> nat option" where
  "get_current_ptr r = m_ptr r"

section \<open>The string writer\<close>

record mono_string_writer =
  wr_data :: bytes

definition empty_writer :: mono_string_writer where
  "empty_writer = \<lparr>wr_data = []\<rparr>"

text \<open>\<open>std::vector::resize\<close>.\<close>

definition vec_resize :: "nat \<Rightarrow> byte \<Rightarrow> bytes \<Rightarrow> bytes" where
  "vec_resize n v xs = take n xs @ replicate (n - length xs) v"

definition wr_clear :: "mono_string_writer \<Rightarrow> mono_string_writer" where
  "wr_clear w = w\<lparr>wr_data := []\<rparr>"

definition write_uint8 :: "nat \<Rightarrow> mono_string_writer \<Rightarrow> mono_string_writer" where
  "write_uint8 val w = w\<lparr>wr_data := wr_data w @ [of_nat val]\<rparr>"

text \<open>
  The vector grows by the width first and the integer is then stored at the old
  end, so the store is always within bounds (\<open>write_uint16_append\<close> below).
\<close>

definition write_uint16 :: "nat \<Rightarrow> mono_string_writer \<Rightarrow> mono_string_writer" where
  "write_uint16 val w =
     (let sz = length (wr_data w); d = vec_resize (sz + 2) 0 (wr_data w)
      in case mono_netbuf_store_uint16 d sz (of_nat val) of
           None \<Rightarrow> w | Some d' \<Rightarrow> w\<lparr>wr_data := d'\<rparr>)"

definition write_uint32 :: "nat \<Rightarrow> mono_string_writer \<Rightarrow> mono_string_writer" where
  "write_uint32 val w =
     (let sz = length (wr_data w); d = vec_resize (sz + 4) 0 (wr_data w)
      in case mono_netbuf_store_uint32 d sz (of_nat val) of
           None \<Rightarrow> w | Some d' \<Rightarrow> w\<lparr>wr_data := d'\<rparr>)"

definition wr_write :: "bytes \<Rightarrow> mono_string_writer \<Rightarrow> mono_string_writer" where
  "wr_write new_data w = w\<lparr>wr_data := wr_data w @ new_data\<rparr>"

definition get_current_pos :: "mono_string_writer \<Rightarrow> nat" where
  "get_current_pos w = length (wr_data w)"

definition write_uint8_at :: "nat \<Rightarrow> nat \<Rightarrow> mono_string_writer \<Rightarrow> mono_string_writer option" where
  "write_uint8_at pos new_val w =
     (if pos < get_current_pos w then Some (w\<lparr>wr_data := (wr_data w)[pos := of_nat new_val]\<rparr>)
      else None)"

definition write_uint16_at :: "nat \<Rightarrow> nat \<Rightarrow> mono_string_writer \<Rightarrow> mono_string_writer option" where
  "write_uint16_at pos new_val w =
     (if pos < get_current_pos w \<and> pos + 1 < get_current_pos w
      then map_option (\<lambda>d. w\<lparr>wr_data := d\<rparr>)
             (mono_netbuf_store_uint16 (wr_data w) pos (of_nat new_val))
      else None)"

definition wr_truncate :: "nat \<Rightarrow> mono_string_writer \<Rightarrow> mono_string_writer option" where
  "wr_truncate pos w =
     (if pos < length (wr_data w) then Some (w\<lparr>wr_data := vec_resize pos 0 (wr_data w)\<rparr>)
      else None)"

definition wr_allocate :: "nat \<Rightarrow> byte \<Rightarrow> mono_string_writer \<Rightarrow> mono_string_writer option" where
  "wr_allocate len val w =
     (if 0 < len
      then Some (w\<lparr>wr_data := vec_resize (length (wr_data w) + len) val (wr_data w)\<rparr>)
      else None)"

definition wr_free :: "mono_string_writer \<Rightarrow> mono_string_writer" where
  "wr_free w = w\<lparr>wr_data := []\<rparr>"

section \<open>The bit writer and the bit reader\<close>

record mono_bit_writer =
  bw_writer :: mono_string_writer
  bw_offset :: nat

definition new_bit_writer :: "mono_string_writer \<Rightarrow> mono_bit_writer" where
  "new_bit_writer w = \<lparr>bw_writer = w, bw_offset = 0\<rparr>"

text \<open>
  The body of the loop of \<open>mono_bit_writer::write\<close>: append a byte when the last
  one is full, then OR the next \<open>bits\<close> bits of the value into it at \<open>m_offset\<close>.
\<close>

definition bit_write_step :: "nat \<Rightarrow> 32 word \<Rightarrow> mono_bit_writer \<Rightarrow> nat \<times> mono_bit_writer" where
  "bit_write_step sz value b =
     (let w = (if bw_offset b = 0 then write_uint8 0 (bw_writer b) else bw_writer b);
          bits = min sz (8 - bw_offset b);
          chunk = (ucast (drop_bit (sz - bits) value AND mask bits) :: byte);
          d = wr_data w; i = length d - 1;
          d' = d[i := d ! i OR push_bit (bw_offset b) chunk]
      in (sz - bits,
          \<lparr>bw_writer = w\<lparr>wr_data := d'\<rparr>, bw_offset = (bw_offset b + bits) mod 8\<rparr>))"

text \<open>
  \<open>m_offset\<close> is at most 7 in every state of the class; the guard states it, so
  that the loop variable decreases.
\<close>

function bit_write :: "nat \<Rightarrow> 32 word \<Rightarrow> mono_bit_writer \<Rightarrow> mono_bit_writer" where
  "bit_write sz value b =
     (if 0 < sz \<and> bw_offset b < 8
      then (case bit_write_step sz value b of (sz', b') \<Rightarrow> bit_write sz' value b')
      else b)"
  by pat_completeness auto
termination
  by (relation "measure (\<lambda>(sz, _, _). sz)") (auto simp: bit_write_step_def Let_def)

declare bit_write.simps [simp del]

record mono_bit_reader =
  br_cur :: byte
  br_offset :: nat
  br_ret :: "32 word"
  br_reader :: mono_string_reader

definition new_bit_reader :: "mono_string_reader \<Rightarrow> mono_bit_reader" where
  "new_bit_reader r = \<lparr>br_cur = 0, br_offset = 0, br_ret = 0, br_reader = r\<rparr>"

definition bit_read_step :: "nat \<Rightarrow> mono_bit_reader \<Rightarrow> (nat \<times> mono_bit_reader) option" where
  "bit_read_step sz b =
     (case (if br_offset b = 0
            then (case read_bytes 1 (br_reader b) of
                    (None, _) \<Rightarrow> None
                  | (Some p, r') \<Rightarrow> Some (b\<lparr>br_cur := hd p, br_reader := r'\<rparr>))
            else Some b) of
       None \<Rightarrow> None
     | Some b1 \<Rightarrow>
         (let bits = min (8 - br_offset b1) sz
          in Some (sz - bits,
               b1\<lparr>br_ret := push_bit bits (br_ret b1)
                            OR (ucast (drop_bit (br_offset b1) (br_cur b1)) AND mask bits),
                  br_offset := (br_offset b1 + bits) mod 8\<rparr>)))"

function bit_read_loop :: "nat \<Rightarrow> mono_bit_reader \<Rightarrow> mono_bit_reader option" where
  "bit_read_loop sz b =
     (if 0 < sz \<and> br_offset b < 8
      then (case bit_read_step sz b of
              None \<Rightarrow> None | Some (sz', b') \<Rightarrow> bit_read_loop sz' b')
      else Some b)"
  by pat_completeness auto
termination
  by (relation "measure (\<lambda>(sz, _). sz)") 
    (auto simp: bit_read_step_def Let_def split: if_splits prod.splits option.splits)

declare bit_read_loop.simps [simp del]

definition bit_read :: "nat \<Rightarrow> mono_bit_reader \<Rightarrow> (32 word \<times> mono_bit_reader) option" where
  "bit_read sz b =
     map_option (\<lambda>b'. (br_ret b', b')) (bit_read_loop sz (b\<lparr>br_ret := 0\<rparr>))"

section \<open>The fixed-capacity writer\<close>

record mono_buf_writer =
  m_buf :: bytes
  buf_pos :: nat

definition new_buf_writer :: "nat \<Rightarrow> mono_buf_writer" where
  "new_buf_writer buf_length = \<lparr>m_buf = replicate buf_length 0, buf_pos = 0\<rparr>"

definition buf_put :: "bytes \<Rightarrow> mono_buf_writer \<Rightarrow> mono_buf_writer option" where
  "buf_put bs w =
     map_option (\<lambda>d. w\<lparr>m_buf := d, buf_pos := buf_pos w + length bs\<rparr>)
       (memcpy_at (m_buf w) (buf_pos w) bs)"

definition buf_write_uint32 :: "32 word \<Rightarrow> mono_buf_writer \<Rightarrow> mono_buf_writer option" where
  "buf_write_uint32 n w =
     map_option (\<lambda>d. w\<lparr>m_buf := d, buf_pos := buf_pos w + 4\<rparr>)
       (mono_netbuf_store_uint32 (m_buf w) (buf_pos w) n)"

definition buf_write_uint64 :: "64 word \<Rightarrow> mono_buf_writer \<Rightarrow> mono_buf_writer option" where
  "buf_write_uint64 n w =
     map_option (\<lambda>d. w\<lparr>m_buf := d, buf_pos := buf_pos w + 8\<rparr>)
       (mono_netbuf_store_uint64 (m_buf w) (buf_pos w) n)"

definition buf_write_uint16 :: "16 word \<Rightarrow> mono_buf_writer \<Rightarrow> mono_buf_writer option" where
  "buf_write_uint16 n w =
     map_option (\<lambda>d. w\<lparr>m_buf := d, buf_pos := buf_pos w + 2\<rparr>)
       (mono_netbuf_store_uint16 (m_buf w) (buf_pos w) n)"

definition buf_write_byte :: "byte \<Rightarrow> mono_buf_writer \<Rightarrow> mono_buf_writer option" where
  "buf_write_byte c w =
     map_option (\<lambda>d. w\<lparr>m_buf := d, buf_pos := buf_pos w + 1\<rparr>)
       (mono_netbuf_store_byte (m_buf w) (buf_pos w) c)"

definition buf_reset :: "mono_buf_writer \<Rightarrow> mono_buf_writer" where
  "buf_reset w = w\<lparr>buf_pos := 0\<rparr>"

definition buf_to_slice :: "mono_buf_writer \<Rightarrow> bytes" where
  "buf_to_slice w = take (buf_pos w) (m_buf w)"

section \<open>Network-order integers: round trips\<close>

lemma netbuf_to_uint16_be:
  "mono_netbuf_to_uint16 (be_bytes 2 n @ rest) = Some (of_nat n)"
  by (simp add: mono_netbuf_to_uint16_def be_val_be_bytes word_of_nat_eq_iff take_bit_nat_def)

lemma netbuf_to_uint64_be:
  "mono_netbuf_to_uint64 (be_bytes 8 (unat (v :: 64 word)) @ rest) = Some v"
proof -
  have "unat v < 256 ^ 8"
    by (rule order_less_le_trans [OF unsigned_less]) simp
  then show ?thesis
    by (simp add: mono_netbuf_to_uint64_def be_val_be_bytes)
qed

lemma netbuf_to_byte_Cons [simp]: "mono_netbuf_to_byte (b # bs) = Some b"
  by (simp add: mono_netbuf_to_byte_def)

lemma memcpy_at_resized:
  "memcpy_at (vec_resize (length xs + length ys) 0 xs) (length xs) ys = Some (xs @ ys)"
  by (simp add: vec_resize_def memcpy_at_def)

lemma write_uint8_data [simp]: "wr_data (write_uint8 v w) = wr_data w @ [of_nat v]"
  by (simp add: write_uint8_def)

lemma write_uint16_append: "wr_data (write_uint16 v w) = wr_data w @ be_bytes 2 (v mod 65536)"
  using memcpy_at_resized [of "wr_data w" "be_bytes 2 (v mod 65536)"]
  by (simp add: write_uint16_def mono_netbuf_store_uint16_def Let_def unsigned_of_nat take_bit_nat_def)

lemma write_uint32_append: "wr_data (write_uint32 v w) = wr_data w @ be_bytes 4 (v mod 2 ^ 32)"
  using memcpy_at_resized [of "wr_data w" "be_bytes 4 (v mod 2 ^ 32)"]
  by (simp add: write_uint32_def mono_netbuf_store_uint32_def Let_def unsigned_of_nat take_bit_nat_def)

section \<open>The reader as a list of remaining bytes\<close>

text \<open>
  \<open>rd_at r bs\<close>: the reader is inside its string and the bytes it has left are
  \<open>bs\<close>. \<open>rd_adv n r\<close> is the reader after \<open>n\<close> more bytes. The decoders of the
  development are proved over these two notions only.
\<close>

definition rd_at :: "mono_string_reader \<Rightarrow> bytes \<Rightarrow> bool" where
  "rd_at r bs \<longleftrightarrow>
     (case m_ptr r of None \<Rightarrow> m_len r = 0 \<and> bs = []
      | Some p \<Rightarrow> p + m_len r \<le> length (rd_data r) \<and> bs = take (m_len r) (drop p (rd_data r)))"

definition rd_adv :: "nat \<Rightarrow> mono_string_reader \<Rightarrow> mono_string_reader" where
  "rd_adv n r = r\<lparr>m_ptr := map_option (\<lambda>p. p + n) (m_ptr r), m_len := m_len r - n\<rparr>"

lemma rd_at_of_slice: "length bs < 2 ^ 32 \<Longrightarrow> rd_at (reader_of_slice bs) bs"
  by (simp add: rd_at_def reader_of_slice_def)

lemma rd_at_of_string: "length bs < 2 ^ 32 \<Longrightarrow> rd_at (reader_of_string bs) bs"
  by (simp add: rd_at_def reader_of_string_def Let_def)

lemma rd_at_len: "rd_at r bs \<Longrightarrow> m_len r = length bs"
  by (auto simp: rd_at_def split: option.splits)

lemma rd_at_len_le: "rd_at r bs \<Longrightarrow> n \<le> length bs \<longleftrightarrow> n \<le> m_len r"
  by (simp add: rd_at_len)

lemma rd_at_remaining: "rd_at r bs \<Longrightarrow> remaining_bytes r = length bs"
  by (simp add: remaining_bytes_def rd_at_len)

lemma rd_adv_0 [simp]: "rd_adv 0 r = r"
  by (cases r; cases "m_ptr r") (simp_all add: rd_adv_def)

lemma rd_adv_adv [simp]: "rd_adv n (rd_adv m r) = rd_adv (m + n) r"
  by (cases "m_ptr r") (simp_all add: rd_adv_def)

lemma rd_at_adv: "rd_at r bs \<Longrightarrow> n \<le> length bs \<Longrightarrow> rd_at (rd_adv n r) (drop n bs)"
  using rd_at_len_le [of r bs n]
  by (auto simp: rd_at_def rd_adv_def drop_take add.commute split: option.splits)

lemma rd_at_adv_append: "rd_at r (xs @ ys) \<Longrightarrow> length xs = n \<Longrightarrow> rd_at (rd_adv n r) ys"
  using rd_at_adv [of r "xs @ ys" n] by simp

lemma rd_at_adv_Cons: "rd_at r (x # ys) \<Longrightarrow> rd_at (rd_adv (Suc 0) r) ys"
  using rd_at_adv_append [of r "[x]" ys 1] by simp

lemma read_bytes_ok:
  assumes "rd_at r bs" "n \<le> length bs" "0 < n"
  shows "read_bytes n r = (Some (take n bs), rd_adv n r)"
  using assms rd_at_len_le [OF assms(1)]
  by (auto simp: rd_at_def read_bytes_def rd_read_def rd_adv_def split: option.splits)

lemma read_bytes_append:
  "rd_at r (xs @ ys) \<Longrightarrow> length xs = n \<Longrightarrow> 0 < n \<Longrightarrow> read_bytes n r = (Some xs, rd_adv n r)"
  using read_bytes_ok [of r "xs @ ys" n] by simp

lemma read_bytes_short: "rd_at r bs \<Longrightarrow> length bs < n \<Longrightarrow> read_bytes n r = (None, r)"
  by (simp add: read_bytes_def rd_read_def rd_at_len)

lemma rd_read_short: "rd_at r bs \<Longrightarrow> length bs < n \<Longrightarrow> rd_read n r = (None, r)"
  by (simp add: rd_read_def rd_at_len)

lemma rd_read_ok:
  assumes "rd_at r bs" "n \<le> length bs" "0 < n"
  obtains p where "rd_read n r = (Some p, rd_adv n r)"
  using assms rd_at_len_le [OF assms(1)]
  by (auto simp: rd_at_def rd_read_def rd_adv_def split: option.splits)

lemma read_uint8_ok: "rd_at r (b # bs) \<Longrightarrow> read_uint8 r = (Some (unat b), rd_adv 1 r)"
  using read_bytes_append [of r "[b]" bs 1] by (simp add: read_uint8_def)

lemma read_uint8_short: "rd_at r [] \<Longrightarrow> read_uint8 r = (None, r)"
  by (simp add: read_uint8_def read_bytes_short)

lemma read_uint16_ok:
  "rd_at r (be_bytes 2 n @ bs) \<Longrightarrow> read_uint16 r = (Some (n mod 65536), rd_adv 2 r)"
  using netbuf_to_uint16_be [of n "[]"]
  by (simp add: read_uint16_def read_bytes_append unsigned_of_nat take_bit_nat_def)

lemma read_uint64_ok:
  "rd_at r (be_bytes 8 (unat v) @ bs) \<Longrightarrow> read_uint64 r = (Some v, rd_adv 8 r)"
  using netbuf_to_uint64_be [of v "[]"]
  by (simp add: read_uint64_def read_bytes_append)

lemmas rd_at_intros = rd_at_of_slice rd_at_of_string rd_at_adv_append rd_at_adv_Cons

section \<open>The bit stream: what is written is read back\<close>

text \<open>
  The byte under construction and the finished bytes before it. A writer at
  offset 0 has no byte under construction: the next step appends a zero byte.
\<close>

definition bw_done :: "bytes \<Rightarrow> nat \<Rightarrow> bytes" where
  "bw_done d off = (if off = 0 then d else butlast d)"

definition bw_cur :: "bytes \<Rightarrow> nat \<Rightarrow> byte" where
  "bw_cur d off = (if off = 0 then 0 else last d)"

definition bw_inv :: "mono_bit_writer \<Rightarrow> bool" where
  "bw_inv b \<longleftrightarrow>
     bw_offset b < 8 \<and> (0 < bw_offset b \<longrightarrow> wr_data (bw_writer b) \<noteq> []) \<and>
     (\<forall>i \<ge> bw_offset b. \<not> bit (bw_cur (wr_data (bw_writer b)) (bw_offset b)) i)"

text \<open>
  \<open>bw_agrees b F\<close>: every bit the writer has emitted so far is final in \<open>F\<close>.
\<close>

definition bw_agrees :: "mono_bit_writer \<Rightarrow> bytes \<Rightarrow> bool" where
  "bw_agrees b F \<longleftrightarrow>
     (let d = wr_data (bw_writer b); off = bw_offset b; p = bw_done d off
      in take (length p) F = p \<and>
         (0 < off \<longrightarrow> length p < length F \<and>
            (\<forall>i < off. bit (last d) i = bit (F ! length p) i)))"

text \<open>The reader stands in \<open>F\<close> where the writer stood.\<close>

definition br_tracks :: "mono_bit_reader \<Rightarrow> mono_bit_writer \<Rightarrow> bytes \<Rightarrow> bool" where
  "br_tracks rb b F \<longleftrightarrow>
     br_offset rb = bw_offset b \<and> rd_at (br_reader rb) (drop (length (wr_data (bw_writer b))) F) \<and>
     (0 < bw_offset b \<longrightarrow> br_cur rb = F ! (length (wr_data (bw_writer b)) - 1))"

lemma bw_inv_new: "bw_inv (new_bit_writer w)"
  by (simp add: bw_inv_def new_bit_writer_def bw_cur_def)

lemma bw_agrees_self: "bw_inv b \<Longrightarrow> bw_agrees b (wr_data (bw_writer b))"
  by (cases "wr_data (bw_writer b)" rule: rev_cases)
     (auto simp: bw_inv_def bw_agrees_def bw_done_def Let_def nth_append)

text \<open>One step in terms of the finished bytes and the byte under construction.\<close>

lemma bit_write_step_data:
  assumes inv: "bw_inv b" and st: "bit_write_step sz v b = (sz', b')"
  shows "sz' = sz - min sz (8 - bw_offset b)"
    and "bw_offset b' = (bw_offset b + min sz (8 - bw_offset b)) mod 8"
    and "wr_data (bw_writer b') =
           bw_done (wr_data (bw_writer b)) (bw_offset b) @
           [bw_cur (wr_data (bw_writer b)) (bw_offset b) OR
             push_bit (bw_offset b)
               (ucast (drop_bit (sz - min sz (8 - bw_offset b)) v AND mask (min sz (8 - bw_offset b))))]"
proof -
  have sz': "sz' = fst (bit_write_step sz v b)" and b': "b' = snd (bit_write_step sz v b)"
    using st by simp_all
  show "sz' = sz - min sz (8 - bw_offset b)"
    and "bw_offset b' = (bw_offset b + min sz (8 - bw_offset b)) mod 8"
    unfolding sz' b' bit_write_step_def Let_def by simp_all
  show "wr_data (bw_writer b') =
           bw_done (wr_data (bw_writer b)) (bw_offset b) @
           [bw_cur (wr_data (bw_writer b)) (bw_offset b) OR
             push_bit (bw_offset b)
               (ucast (drop_bit (sz - min sz (8 - bw_offset b)) v AND mask (min sz (8 - bw_offset b))))]"
    (is "_ = _ @ [_ OR ?c]")
  proof (cases "bw_offset b = 0")
    case True
    then show ?thesis
      unfolding b' bit_write_step_def Let_def bw_done_def bw_cur_def by simp
  next
    case False
    then obtain d x where d: "wr_data (bw_writer b) = d @ [x]"
      using inv by (cases "wr_data (bw_writer b)" rule: rev_cases) (auto simp: bw_inv_def)
    show ?thesis
      using False unfolding b' bit_write_step_def Let_def bw_done_def bw_cur_def by (simp add: d)
  qed
qed

lemma bit_new_byte:
  "bit ((x :: byte) OR push_bit off (ucast (drop_bit k (v :: 32 word) AND mask bits))) i \<longleftrightarrow>
     bit x i \<or> (off \<le> i \<and> i < 8 \<and> i - off < bits \<and> bit v (k + (i - off)))"
  by (auto simp: bit_simps)

definition bw_step_shape ::
  "nat \<Rightarrow> 32 word \<Rightarrow> mono_bit_writer \<Rightarrow> nat \<Rightarrow> mono_bit_writer \<Rightarrow> byte \<Rightarrow> nat \<Rightarrow> bool" where
  "bw_step_shape sz v b sz' b' y n \<longleftrightarrow>
     wr_data (bw_writer b') = bw_done (wr_data (bw_writer b)) (bw_offset b) @ [y] \<and>
     sz' = sz - n \<and> 0 < n \<and> n \<le> sz \<and> bw_offset b + n \<le> 8 \<and>
     bw_offset b' = (if bw_offset b + n = 8 then 0 else bw_offset b + n) \<and>
     (\<forall>i. bit y i \<longleftrightarrow> bit (bw_cur (wr_data (bw_writer b)) (bw_offset b)) i \<or>
            (bw_offset b \<le> i \<and> i < bw_offset b + n \<and> bit v (sz' + (i - bw_offset b)))) \<and>
     n = min (8 - bw_offset b) sz"

lemma bit_write_step_bits:
  assumes "bw_inv b" "bit_write_step sz v b = (sz', b')" "0 < sz"
  obtains y n where "bw_step_shape sz v b sz' b' y n"
proof -
  note st = bit_write_step_data [OF assms(1,2)]
  define n where "n = min sz (8 - bw_offset b)"
  have off: "bw_offset b < 8" using assms(1) by (simp add: bw_inv_def)
  then have n: "0 < n" "n \<le> sz" "bw_offset b + n \<le> 8" "n = min (8 - bw_offset b) sz"
    using assms(3) by (simp_all add: n_def min.commute)
  have off': "bw_offset b' = (if bw_offset b + n = 8 then 0 else bw_offset b + n)"
    using st(2) n(3) unfolding n_def [symmetric] by auto
  have sz': "sz' = sz - n" using st(1) by (simp only: n_def)
  have "bw_step_shape sz v b sz' b'
      (bw_cur (wr_data (bw_writer b)) (bw_offset b) OR
       push_bit (bw_offset b) (ucast (drop_bit sz' v AND mask n))) n"
    unfolding bw_step_shape_def bit_new_byte
  proof (intro conjI allI)
    show "wr_data (bw_writer b') = bw_done (wr_data (bw_writer b)) (bw_offset b) @
      [bw_cur (wr_data (bw_writer b)) (bw_offset b) OR
       push_bit (bw_offset b) (ucast (drop_bit sz' v AND mask n))]"
      using st(1,3) by (simp only: n_def)
    fix i
    have "i - bw_offset b < n \<longleftrightarrow> i < bw_offset b + n" if "bw_offset b \<le> i" using that by arith
    then show "(bit (bw_cur (wr_data (bw_writer b)) (bw_offset b)) i \<or>
        bw_offset b \<le> i \<and> i < 8 \<and> i - bw_offset b < n \<and> bit v (sz' + (i - bw_offset b))) =
      (bit (bw_cur (wr_data (bw_writer b)) (bw_offset b)) i \<or>
        bw_offset b \<le> i \<and> i < bw_offset b + n \<and> bit v (sz' + (i - bw_offset b)))"
      using n(3) by (meson order_less_le_trans)
  qed (fact n sz' off')+
  then show thesis by (rule that)
qed

lemma bit_write_step_inv:
  assumes "bw_inv b" "bit_write_step sz v b = (sz', b')" "0 < sz"
  shows "bw_inv b'"
proof -
  obtain y n where "bw_step_shape sz v b sz' b' y n"
    by (rule bit_write_step_bits [OF assms])
  then show ?thesis
    using assms(1) by (simp add: bw_inv_def bw_step_shape_def bw_cur_def [of "_ @ _"])
qed

lemma take_Suc_snocD:
  assumes "take (Suc (length p)) F = p @ [y]"
  shows "length p < length F \<and> take (length p) F = p \<and> F ! length p = y"
proof -
  have "length p < length F"
    using arg_cong [OF assms, of length] by simp
  with assms show ?thesis by (simp add: take_Suc_conv_app_nth)
qed

lemma bw_agrees_step:
  assumes "bw_step_shape sz v b sz' b' y n" "bw_agrees b' F"
  defines "p \<equiv> bw_done (wr_data (bw_writer b)) (bw_offset b)"
  shows "take (length p) F = p \<and> length p < length F \<and>
         (\<forall>i < bw_offset b + n. bit y i = bit (F ! length p) i)"
  using assms(1,2) take_Suc_snocD [of p F y] unfolding p_def
  by (cases "bw_offset b + n = 8")
     (simp_all add: bw_agrees_def bw_step_shape_def bw_done_def [of "_ @ _"] Let_def)

text \<open>Bits emitted before a step are still final after it.\<close>

lemma bw_agrees_before:
  assumes "bw_inv b" "bit_write_step sz v b = (sz', b')" "0 < sz" "bw_agrees b' F"
  shows "bw_agrees b F"
proof -
  obtain y n where sh: "bw_step_shape sz v b sz' b' y n"
    by (rule bit_write_step_bits [OF assms(1-3)])
  let ?p = "bw_done (wr_data (bw_writer b)) (bw_offset b)"
  note F = bw_agrees_step [OF sh assms(4)]
  have "bit (last (wr_data (bw_writer b))) i = bit (F ! length ?p) i"
    if i: "i < bw_offset b" for i
  proof -
    have "bit y i = bit (bw_cur (wr_data (bw_writer b)) (bw_offset b)) i"
      using sh i unfolding bw_step_shape_def by simp
    moreover have "bit y i = bit (F ! length ?p) i" using F i by simp
    ultimately show ?thesis using i by (simp add: bw_cur_def)
  qed
  then show ?thesis using F by (simp add: bw_agrees_def Let_def)
qed

text \<open>The reader follows a step of the writer and shifts the same bits into \<open>m_ret\<close>.\<close>

lemma bit_read_step_follows:
  assumes inv: "bw_inv b" and wr: "bit_write_step sz v b = (sz', b')" and sz: "0 < sz"
    and ag: "bw_agrees b' F" and tr: "br_tracks rb b F" and ret: "br_ret rb = drop_bit sz v"
  obtains rb' where "bit_read_step sz rb = Some (sz', rb')" "br_tracks rb' b' F"
    "br_ret rb' = drop_bit sz' v"
proof -
  obtain y n where sh: "bw_step_shape sz v b sz' b' y n"
    by (rule bit_write_step_bits [OF inv wr sz])
  let ?d = "wr_data (bw_writer b)" and ?off = "bw_offset b"
  let ?p = "bw_done ?d ?off"
  note F = bw_agrees_step [OF sh ag]
  have d': "wr_data (bw_writer b') = ?p @ [y]" and sz': "sz' = sz - n"
    and n: "0 < n" "n \<le> sz" "?off + n \<le> 8" "n = min (8 - ?off) sz"
    and off': "bw_offset b' = (if ?off + n = 8 then 0 else ?off + n)"
    using sh unfolding bw_step_shape_def by blast+
  have chunk: "ucast (drop_bit ?off (F ! length ?p)) AND mask n = (drop_bit sz' v AND mask n :: 32 word)"
  proof (rule bit_word_eqI)
    fix i :: nat assume "i < LENGTH(32)"
    have "bit (F ! length ?p) (?off + i) = bit v (sz' + i)" if "i < n"
    proof -
      have "bit (F ! length ?p) (?off + i) = bit y (?off + i)" using F that by simp
      also have "\<dots> = bit v (sz' + i)"
        using sh inv that unfolding bw_step_shape_def bw_inv_def by simp
      finally show ?thesis .
    qed
    then show "bit (ucast (drop_bit ?off (F ! length ?p)) AND mask n :: 32 word) i
                 = bit (drop_bit sz' v AND mask n) i"
      using n(3) by (auto simp: bit_simps)
  qed
  have ret': "push_bit n (drop_bit sz v) OR (drop_bit sz' v AND mask n) = drop_bit sz' v"
    using n(2) sz' by (intro bit_word_eqI) (auto simp: bit_simps)
  define rb1 where "rb1 = (if ?off = 0 then rb\<lparr>br_cur := F ! length ?p, br_reader := rd_adv 1 (br_reader rb)\<rparr> else rb)"
  have rb1: "br_cur rb1 = F ! length ?p" "br_offset rb1 = ?off" "br_ret rb1 = drop_bit sz v"
    "rd_at (br_reader rb1) (drop (Suc (length ?p)) F)"
    using tr ret inv F rd_at_adv [of "br_reader rb" "drop (length ?d) F" 1]
    by (auto simp: rb1_def br_tracks_def bw_done_def bw_inv_def)
  have "(if br_offset rb = 0
            then (case read_bytes 1 (br_reader rb) of
                    (None, _) \<Rightarrow> None
                  | (Some p, r') \<Rightarrow> Some (rb\<lparr>br_cur := hd p, br_reader := r'\<rparr>))
            else Some rb) = Some rb1"
    using tr F read_bytes_ok [of "br_reader rb" "drop (length ?d) F" 1]
    by (auto simp: rb1_def br_tracks_def bw_done_def hd_drop_conv_nth)
  then have step: "bit_read_step sz rb = Some (sz', rb1\<lparr>br_ret := drop_bit sz' v, br_offset := bw_offset b'\<rparr>)"
    using rb1(1-3) chunk ret' sz' off' n(3) n(4) [symmetric]
    unfolding bit_read_step_def Let_def by (simp del: min_less_iff_conj)
  show thesis
    by (rule that [OF step]) (use rb1 d' in \<open>auto simp: br_tracks_def\<close>)
qed

lemma bit_write_inv: "bw_inv b \<Longrightarrow> bw_inv (bit_write sz v b)"
proof (induction sz v b rule: bit_write.induct)
  case (1 sz v b)
  then show ?case
    using bit_write_step_inv [of b sz v]
    by (subst bit_write.simps) (auto split: prod.splits)
qed

lemma bw_agrees_before_write:
  "bw_inv b \<Longrightarrow> bw_agrees (bit_write sz v b) F \<Longrightarrow> bw_agrees b F"
proof (induction sz v b rule: bit_write.induct)
  case (1 sz v b)
  show ?case
  proof (cases "0 < sz \<and> bw_offset b < 8")
    case True
    obtain sz' b' where st: "bit_write_step sz v b = (sz', b')" by fastforce
    have "bw_agrees (bit_write sz' v b') F"
      using "1.prems"(2) True st by (simp add: bit_write.simps [of sz v b])
    then have "bw_agrees b' F"
      using "1.IH" [OF True] st bit_write_step_inv [OF "1.prems"(1) st] True by auto
    then show ?thesis
      using bw_agrees_before [OF "1.prems"(1) st] True by blast
  next
    case False
    then show ?thesis using "1.prems"(2) by (subst (asm) bit_write.simps) auto
  qed
qed

lemma bit_read_loop_follows:
  "bw_inv b \<Longrightarrow> bw_agrees (bit_write sz v b) F \<Longrightarrow> br_tracks rb b F \<Longrightarrow> br_ret rb = drop_bit sz v \<Longrightarrow>
   \<exists>rb'. bit_read_loop sz rb = Some rb' \<and> br_tracks rb' (bit_write sz v b) F \<and> br_ret rb' = v"
proof (induction sz v b arbitrary: rb rule: bit_write.induct)
  case (1 sz v b)
  have off: "br_offset rb = bw_offset b" "bw_offset b < 8"
    using "1.prems" by (simp_all add: br_tracks_def bw_inv_def)
  show ?case
  proof (cases "sz = 0")
    case True
    then show ?thesis
      using "1.prems" by (simp add: bit_write.simps [of 0] bit_read_loop.simps [of 0])
  next
    case False
    obtain sz' b' where st: "bit_write_step sz v b = (sz', b')" by fastforce
    have w: "bit_write sz v b = bit_write sz' v b'"
      using False st off by (simp add: bit_write.simps [of sz v b])
    have inv': "bw_inv b'" using bit_write_step_inv [OF "1.prems"(1) st] False by simp
    have ag: "bw_agrees b' F"
      using bw_agrees_before_write [OF inv'] "1.prems"(2) w by simp
    obtain rb1 where rb1: "bit_read_step sz rb = Some (sz', rb1)" "br_tracks rb1 b' F"
      "br_ret rb1 = drop_bit sz' v"
      using bit_read_step_follows [OF "1.prems"(1) st _ ag "1.prems"(3,4)] False by blast
    have "\<exists>rb'. bit_read_loop sz' rb1 = Some rb' \<and> br_tracks rb' (bit_write sz' v b') F \<and> br_ret rb' = v"
      using "1.IH" [of sz' b' rb1] st rb1 inv' "1.prems"(2) w False off by simp
    then show ?thesis
      using rb1(1) False off w by (simp add: bit_read_loop.simps [of sz rb])
  qed
qed

text \<open>A value of at most \<open>sz\<close> bits is read back; the reader ends where the writer ended.\<close>

lemma bit_read_write:
  assumes "bw_inv b" "bw_agrees (bit_write sz v b) F" "br_tracks rb b F" "unat v < 2 ^ sz"
  obtains rb' where "bit_read sz rb = Some (v, rb')" "br_tracks rb' (bit_write sz v b) F"
proof -
  have "drop_bit sz v = 0"
    using assms(4) unat_drop_bit_eq [of sz v]
    by (simp add: word_unat_eq_iff drop_bit_nat_def del: drop_bit_eq_div)
  moreover have "br_tracks (rb\<lparr>br_ret := 0\<rparr>) b F"
    using assms(3) by (simp add: br_tracks_def)
  ultimately obtain rb' where "bit_read_loop sz (rb\<lparr>br_ret := 0\<rparr>) = Some rb'"
      "br_tracks rb' (bit_write sz v b) F" "br_ret rb' = v"
    using bit_read_loop_follows [OF assms(1,2), of "rb\<lparr>br_ret := 0\<rparr>"] by auto
  then show thesis
    using that [of rb'] by (simp add: bit_read_def)
qed

text \<open>Sequences of values, as the collation codecs write and read them.\<close>

fun bit_write_all :: "(nat \<times> 32 word) list \<Rightarrow> mono_bit_writer \<Rightarrow> mono_bit_writer" where
  "bit_write_all [] b = b"
| "bit_write_all ((sz, v) # vs) b = bit_write_all vs (bit_write sz v b)"

fun bit_read_all :: "nat list \<Rightarrow> mono_bit_reader \<Rightarrow> 32 word list option" where
  "bit_read_all [] b = Some []"
| "bit_read_all (sz # szs) b =
     (case bit_read sz b of None \<Rightarrow> None
      | Some (v, b') \<Rightarrow> map_option (Cons v) (bit_read_all szs b'))"

lemma bit_write_all_inv: "bw_inv b \<Longrightarrow> bw_inv (bit_write_all vs b)"
  by (induction vs arbitrary: b) (auto simp: bit_write_inv)

lemma bw_agrees_before_all:
  "bw_inv b \<Longrightarrow> bw_agrees (bit_write_all vs b) F \<Longrightarrow> bw_agrees b F"
proof (induction vs arbitrary: b)
  case (Cons x vs)
  then show ?case
    using bw_agrees_before_write [of b "fst x" "snd x" F] bit_write_inv [of b "fst x" "snd x"]
    by (cases x) simp
qed simp

lemma bit_read_all_write:
  "bw_inv b \<Longrightarrow> bw_agrees (bit_write_all vs b) F \<Longrightarrow> br_tracks rb b F \<Longrightarrow>
   list_all (\<lambda>(sz, v). unat v < 2 ^ sz) vs \<Longrightarrow>
   bit_read_all (map fst vs) rb = Some (map snd vs)"
proof (induction vs arbitrary: b rb)
  case (Cons x vs)
  obtain sz v where x: "x = (sz, v)" by fastforce
  let ?b = "bit_write sz v b"
  have inv: "bw_inv ?b" using Cons.prems(1) by (rule bit_write_inv)
  then have ag: "bw_agrees ?b F"
    using bw_agrees_before_all Cons.prems(2) x by simp
  obtain rb' where rb': "bit_read sz rb = Some (v, rb')" "br_tracks rb' ?b F"
    using bit_read_write [OF Cons.prems(1) ag Cons.prems(3)] Cons.prems(4) x by auto
  then show ?case
    using Cons.IH [OF inv _ rb'(2)] Cons.prems(2,4) x by simp
qed simp



end
