(* ===== verification/Field_Model.thy ===== *)
theory Field_Model
  imports Net_Buffer
begin

text \<open>
  The server-side data that index packing works on: field types, character sets
  (\<open>CHARSET_INFO\<close>, a table of functions), column descriptors (\<open>Field\<close> and the
  subclass members that packing reads), the value of a column inside a record
  buffer, and the descriptor of one packed key part (\<open>mono_field_packing\<close>) with
  its function pointers as constructors of datatypes.
\<close>

section \<open>Types and character sets\<close>

datatype enum_field_types =
    MYSQL_TYPE_DECIMAL | MYSQL_TYPE_TINY | MYSQL_TYPE_SHORT | MYSQL_TYPE_LONG
  | MYSQL_TYPE_FLOAT | MYSQL_TYPE_DOUBLE | MYSQL_TYPE_NULL | MYSQL_TYPE_TIMESTAMP
  | MYSQL_TYPE_LONGLONG | MYSQL_TYPE_INT24 | MYSQL_TYPE_DATE | MYSQL_TYPE_TIME
  | MYSQL_TYPE_DATETIME | MYSQL_TYPE_YEAR | MYSQL_TYPE_NEWDATE | MYSQL_TYPE_VARCHAR
  | MYSQL_TYPE_BIT | MYSQL_TYPE_TIMESTAMP2 | MYSQL_TYPE_DATETIME2 | MYSQL_TYPE_TIME2
  | MYSQL_TYPE_BLOB_COMPRESSED | MYSQL_TYPE_VARCHAR_COMPRESSED | MYSQL_TYPE_NEWDECIMAL
  | MYSQL_TYPE_ENUM | MYSQL_TYPE_SET | MYSQL_TYPE_TINY_BLOB | MYSQL_TYPE_MEDIUM_BLOB
  | MYSQL_TYPE_LONG_BLOB | MYSQL_TYPE_BLOB | MYSQL_TYPE_VAR_STRING | MYSQL_TYPE_STRING
  | MYSQL_TYPE_GEOMETRY

definition COLLATION_UTF8MB4_BIN :: nat where "COLLATION_UTF8MB4_BIN = 46"
definition COLLATION_LATIN1_BIN :: nat where "COLLATION_LATIN1_BIN = 47"
definition COLLATION_BINARY :: nat where "COLLATION_BINARY = 63"
definition COLLATION_UTF8_BIN :: nat where "COLLATION_UTF8_BIN = 83"

lemmas collation_defs =
  COLLATION_UTF8MB4_BIN_def COLLATION_LATIN1_BIN_def COLLATION_BINARY_def COLLATION_UTF8_BIN_def

text \<open>
  The members of \<open>CHARSET_INFO\<close> that packing uses. A collation number identifies
  the character set object, so the source's pointer comparisons with
  \<open>my_charset_bin\<close> and its siblings are comparisons of \<open>cs_number\<close>.
  \<open>cs_strnxfrm dstlen nweights src\<close> is the image written by \<open>strnxfrm\<close> with flags 0,
  \<open>cs_strnxfrm_pad\<close> the one with \<open>MY_STRXFRM_PAD_TO_MAXLEN\<close>. \<open>cs_wc_mb wc avail\<close> is
  the encoding of a code point into at most \<open>avail\<close> bytes, \<open>None\<close> for a negative
  return value; a return value of 0 is \<open>Some []\<close>.
\<close>

record charset_info =
  cs_number :: nat
  cs_binsort :: bool
  cs_nopad :: bool
  cs_strxfrm_multiply :: nat
  cs_mbmaxlen :: nat
  cs_levels_for_order :: nat
  cs_pad_char :: byte
  cs_sort_order :: "byte \<Rightarrow> byte"
  cs_strnxfrm :: "nat \<Rightarrow> nat \<Rightarrow> bytes \<Rightarrow> bytes"
  cs_strnxfrm_pad :: "nat \<Rightarrow> nat \<Rightarrow> bytes \<Rightarrow> bytes"
  cs_strnxfrmlen :: "nat \<Rightarrow> nat"
  cs_lengthsp :: "bytes \<Rightarrow> nat"
  cs_wc_mb :: "nat \<Rightarrow> nat \<Rightarrow> bytes option"

text \<open>
  The one-byte binary collations of the server. With no flags \<open>strnxfrm\<close> copies at
  most \<open>min dstlen nweights\<close> bytes; with either padding flag the rest of the
  destination is filled with the pad character. The code-point encoder of latin1
  is a table lookup and stays an argument.
\<close>

definition my_strnxfrm_8bit_bin :: "nat \<Rightarrow> nat \<Rightarrow> bytes \<Rightarrow> bytes" where
  "my_strnxfrm_8bit_bin dstlen nweights src = take (min dstlen nweights) src"

definition my_strnxfrm_8bit_bin_pad :: "byte \<Rightarrow> nat \<Rightarrow> nat \<Rightarrow> bytes \<Rightarrow> bytes" where
  "my_strnxfrm_8bit_bin_pad pad dstlen nweights src =
     (let s = take (min dstlen nweights) src in s @ replicate (dstlen - length s) pad)"

definition my_strnxfrmlen_simple :: "nat \<Rightarrow> nat \<Rightarrow> nat" where
  "my_strnxfrmlen_simple multiply len = len * (if multiply = 0 then 1 else multiply)"

definition my_lengthsp_binary :: "bytes \<Rightarrow> nat" where
  "my_lengthsp_binary s = length s"

definition my_lengthsp_8bit :: "bytes \<Rightarrow> nat" where
  "my_lengthsp_8bit s = length (dropWhile (\<lambda>b. b = 32) (rev s))"

definition my_wc_mb_bin :: "nat \<Rightarrow> nat \<Rightarrow> bytes option" where
  "my_wc_mb_bin wc avail = (if avail = 0 then None else if wc < 256 then Some [of_nat wc] else Some [])"

definition my_charset_bin :: charset_info where
  "my_charset_bin = \<lparr>cs_number = COLLATION_BINARY, cs_binsort = True, cs_nopad = True,
     cs_strxfrm_multiply = 1, cs_mbmaxlen = 1, cs_levels_for_order = 1, cs_pad_char = 0,
     cs_sort_order = (\<lambda>b. b), cs_strnxfrm = my_strnxfrm_8bit_bin,
     cs_strnxfrm_pad = my_strnxfrm_8bit_bin_pad 0, cs_strnxfrmlen = my_strnxfrmlen_simple 1,
     cs_lengthsp = my_lengthsp_binary, cs_wc_mb = my_wc_mb_bin\<rparr>"

definition my_charset_latin1_bin :: "(nat \<Rightarrow> nat \<Rightarrow> bytes option) \<Rightarrow> charset_info" where
  "my_charset_latin1_bin wc_mb = \<lparr>cs_number = COLLATION_LATIN1_BIN, cs_binsort = True, cs_nopad = False,
     cs_strxfrm_multiply = 1, cs_mbmaxlen = 1, cs_levels_for_order = 1, cs_pad_char = 32,
     cs_sort_order = (\<lambda>b. b), cs_strnxfrm = my_strnxfrm_8bit_bin,
     cs_strnxfrm_pad = my_strnxfrm_8bit_bin_pad 32, cs_strnxfrmlen = my_strnxfrmlen_simple 1,
     cs_lengthsp = my_lengthsp_8bit, cs_wc_mb = wc_mb\<rparr>"

section \<open>Columns and their values\<close>

record field =
  real_type :: enum_field_types
  field_index :: nat
  field_pack_length :: nat
  field_length :: nat
  length_bytes :: nat
  blob_packlength :: nat
  unsigned_flag :: bool
  real_maybe_null :: bool
  bit_len :: nat
  bytes_in_rec :: nat
  field_charset :: charset_info

text \<open>\<open>Field_str::char_length\<close>.\<close>

definition char_length :: "field \<Rightarrow> nat" where
  "char_length f = field_length f div cs_mbmaxlen (field_charset f)"

text \<open>
  The value of a column in a record buffer: the NULL bit, the bytes at \<open>ptr\<close>, the
  bytes a blob's data pointer leads to, and the uneven high bits that a \<open>BIT\<close>
  column keeps at \<open>bit_ptr\<close>. A record buffer maps field indexes to values;
  \<open>Field::move_field\<close> onto a buffer becomes a choice of the buffer.
\<close>

record cell =
  c_null :: bool
  c_img :: bytes
  c_blob :: bytes
  c_bits :: byte

type_synonym rec_buf = "nat \<Rightarrow> cell"

text \<open>The length and the data of a \<open>VARCHAR\<close> value in \<open>Table->record\<close> format.\<close>

definition varchar_len :: "field \<Rightarrow> cell \<Rightarrow> nat" where
  "varchar_len f c = (if length_bytes f = 1 then unat (hd (c_img c)) else le_val (take 2 (c_img c)))"

definition varchar_data :: "field \<Rightarrow> cell \<Rightarrow> nat \<Rightarrow> bytes" where
  "varchar_data f c n = take n (drop (length_bytes f) (c_img c))"

definition store_varchar_len :: "field \<Rightarrow> nat \<Rightarrow> bytes" where
  "store_varchar_len f len = (if length_bytes f = 1 then [of_nat len] else le_bytes 2 len)"

section \<open>Packed key parts\<close>

datatype pack_func = Pack_make_sort_key | Pack_blob | Pack_varchar_encoding | Pack_varchar_space_pad

datatype skip_func = Skip_max_length | Skip_variable_length | Skip_variable_space_pad

datatype unpack_func =
    Unpack_integer | Unpack_unsigned | Unpack_double | Unpack_float | Unpack_binary_str
  | Unpack_newdate | Unpack_bit | Unpack_binary_or_utf8_varchar
  | Unpack_binary_varchar_space_pad | Unpack_utf8_varchar_space_pad | Unpack_utf8mb4_varchar_space_pad
  | Unpack_utf8_str | Unpack_utf8mb4_str | Unpack_unknown | Unpack_unknown_varchar
  | Unpack_simple_varchar_space_pad | Unpack_simple

datatype make_unpack_info_func =
    Make_unpack_dummy | Make_unpack_unknown | Make_unpack_unknown_varchar
  | Make_unpack_simple_varchar | Make_unpack_simple

text \<open>The codec of a simple collation; \<open>m_dec_idx\<close> is indexed by conflict number.\<close>

record mono_collation_codec =
  m_enc_idx :: "byte \<Rightarrow> byte"
  m_enc_size :: "byte \<Rightarrow> byte"
  m_dec_size :: "byte \<Rightarrow> byte"
  m_dec_idx :: "(byte \<Rightarrow> byte) list"

record mono_field_packing =
  m_max_image_len :: nat
  m_unpack_data_len :: nat
  m_unpack_data_offset :: nat
  m_maybe_null :: bool
  m_varchar_charset :: "charset_info option"
  m_segment_size :: nat
  m_unpack_info_uses_two_bytes :: bool
  space_xfrm :: "bytes option"
  space_xfrm_len :: nat
  space_mb_len :: nat
  m_charset_codec :: "mono_collation_codec option"
  m_unpack_info_stores_value :: bool
  m_pack_func :: "pack_func option"
  m_make_unpack_info_func :: "make_unpack_info_func option"
  m_unpack_func :: "unpack_func option"
  m_skip_func :: skip_func
  m_keynr :: nat
  m_key_part :: nat
  m_field_idx :: nat
  m_Key_part_length :: nat

definition uses_unpack_info :: "mono_field_packing \<Rightarrow> bool" where
  "uses_unpack_info fpi = (m_make_unpack_info_func fpi \<noteq> None)"

definition get_key_part_length :: "mono_field_packing \<Rightarrow> nat" where
  "get_key_part_length fpi = m_Key_part_length fpi"

text \<open>
  The result of unpacking a key part: the new column value and the two readers
  after it. A failed or undefined unpack is \<open>None\<close>; the callers then abandon the
  record.
\<close>

type_synonym unpack_result =
  "(cell \<times> mono_string_reader \<times> mono_string_reader option) option"

lemma varchar_len_stored:
  assumes "length_bytes f = 1 \<and> n < 256 \<or> length_bytes f = 2 \<and> n < 65536"
  shows "varchar_len f (c\<lparr>c_img := store_varchar_len f n @ rest\<rparr>) = n"
  using assms
  by (auto simp: varchar_len_def store_varchar_len_def unat_of_nat_byte le_val_le_bytes)

lemma length_store_varchar_len:
  "length_bytes f = 1 \<or> length_bytes f = 2 \<Longrightarrow> length (store_varchar_len f n) = length_bytes f"
  by (auto simp: store_varchar_len_def)

lemma store_varchar_len_len:
  assumes "length_bytes f = 1 \<or> length_bytes f = 2" "length_bytes f \<le> length (c_img c)"
  shows "store_varchar_len f (varchar_len f c) = take (length_bytes f) (c_img c)"
  using assms(1)
proof
  assume "length_bytes f = 1"
  then show ?thesis
    using assms(2) by (cases "c_img c") (auto simp: store_varchar_len_def varchar_len_def)
next
  assume "length_bytes f = 2"
  then show ?thesis
    using assms(2) le_bytes_le_val [of "take 2 (c_img c)"]
    by (simp add: store_varchar_len_def varchar_len_def min_absorb2)
qed

end
