(* ===== verification/Key_Codec.thy ===== *)
theory Key_Codec
  imports Net_Buffer
begin

text \<open>
  The contract between a key-part encoding and the code that composes key parts
  into keys. A codec promises that its images are delimited (the skip function
  stops exactly behind an image, whatever follows), that they compare like the
  values, and that values the order does not separate have one image.
  \<open>key_codec\<close> is the contract of one part, \<open>part_codec\<close> of a family of parts;
  what follows for whole rows of parts is proved here once.
\<close>

text \<open>The image of a row and the order of rows, column by column.\<close>

fun enc_row :: "('p \<Rightarrow> 'v \<Rightarrow> bytes) \<Rightarrow> 'p list \<Rightarrow> 'v list \<Rightarrow> bytes" where
  "enc_row enc (p # ps) (v # vs) = enc p v @ enc_row enc ps vs"
| "enc_row enc _ _ = []"

fun row_lt :: "('p \<Rightarrow> 'v \<Rightarrow> 'v \<Rightarrow> bool) \<Rightarrow> 'p list \<Rightarrow> 'v list \<Rightarrow> 'v list \<Rightarrow> bool" where
  "row_lt lt (p # ps) (a # as) (b # bs) \<longleftrightarrow> lt p a b \<or> \<not> lt p b a \<and> row_lt lt ps as bs"
| "row_lt lt _ _ _ \<longleftrightarrow> False"

locale key_codec =
  fixes wf :: "'v \<Rightarrow> bool"
    and enc :: "'v \<Rightarrow> bytes"
    and skip :: "mono_string_reader \<Rightarrow> mono_string_reader option"
    and lt :: "'v \<Rightarrow> 'v \<Rightarrow> bool"
  assumes skip_enc: "wf v \<Longrightarrow> rd_at r (enc v @ rest) \<Longrightarrow> skip r = Some (rd_adv (length (enc v)) r)"
    and enc_lt: "wf a \<Longrightarrow> wf b \<Longrightarrow> lt a b \<Longrightarrow> lexlt_in (enc a) (enc b)"
    and enc_eq: "wf a \<Longrightarrow> wf b \<Longrightarrow> \<not> lt a b \<Longrightarrow> \<not> lt b a \<Longrightarrow> enc a = enc b"
begin

lemma enc_less_iff: "wf a \<Longrightarrow> wf b \<Longrightarrow> lexlt_in (enc a) (enc b) \<longleftrightarrow> lt a b"
  by (metis enc_lt enc_eq lexlt_in_asym lexlt_in_irrefl)

lemma lt_asym: "wf a \<Longrightarrow> wf b \<Longrightarrow> lt a b \<Longrightarrow> \<not> lt b a"
  by (metis enc_lt lexlt_in_asym)

lemma enc_append_less_iff:
  assumes "wf a" "wf b"
  shows "lexlt_in (enc a @ s) (enc b @ t) \<longleftrightarrow> lt a b \<or> \<not> lt b a \<and> lexlt_in s t"
proof -
  consider "lt a b" | "lt b a" | "\<not> lt a b" "\<not> lt b a" by blast
  then show ?thesis
  proof cases
    case 1
    then show ?thesis using lexlt_in_append enc_lt [OF assms] by blast
  next
    case 2
    then have "lexlt_in (enc b @ t) (enc a @ s)"
      using lexlt_in_append enc_lt [OF assms(2,1)] by blast
    then show ?thesis using 2 lexlt_in_asym lt_asym [OF assms] by blast
  next
    case 3
    then show ?thesis using enc_eq [OF assms] by simp
  qed
qed

lemma enc_prefix_free:
  assumes "wf a" "wf b" "enc a @ s = enc b @ t"
  shows "enc a = enc b \<and> s = t"
proof -
  have "\<not> lt a b" "\<not> lt b a"
    using enc_lt [OF assms(1,2)] enc_lt [OF assms(2,1)] assms(3)
      lexlt_in_append [of "enc a" "enc b" s t] lexlt_in_append [of "enc b" "enc a" t s]
    by (metis lexlt_in_irrefl)+
  then have "enc a = enc b" by (rule enc_eq [OF assms(1,2)])
  with assms(3) show ?thesis by simp
qed

end

locale part_codec =
  fixes wf :: "'p \<Rightarrow> 'v \<Rightarrow> bool"
    and enc :: "'p \<Rightarrow> 'v \<Rightarrow> bytes"
    and skip :: "'p \<Rightarrow> mono_string_reader \<Rightarrow> mono_string_reader option"
    and lt :: "'p \<Rightarrow> 'v \<Rightarrow> 'v \<Rightarrow> bool"
  assumes part: "key_codec (wf p) (enc p) (skip p) (lt p)"
begin

text \<open>Whole rows compare on their images as column by column.\<close>

lemma row_less_iff:
  "list_all2 wf ps as \<Longrightarrow> list_all2 wf ps bs \<Longrightarrow>
   lexlt_in (enc_row enc ps as) (enc_row enc ps bs) \<longleftrightarrow> row_lt lt ps as bs"
proof (induction ps arbitrary: as bs)
  case (Cons p ps)
  then show ?case
    by (auto simp: list_all2_Cons1 key_codec.enc_append_less_iff [OF part])
qed auto

lemma row_lt_prefix_less:
  "list_all2 wf ps as \<Longrightarrow> list_all2 wf ps bs \<Longrightarrow> row_lt lt ps as bs \<Longrightarrow>
   lexlt (enc_row enc ps as @ s) (enc_row enc ps bs @ t)"
  using row_less_iff lexlt_in_imp_lexlt by blast

lemma row_eq_iff:
  "list_all2 wf ps as \<Longrightarrow> list_all2 wf ps bs \<Longrightarrow>
   enc_row enc ps as = enc_row enc ps bs \<longleftrightarrow> map2 enc ps as = map2 enc ps bs"
proof (induction ps arbitrary: as bs)
  case (Cons p ps)
  obtain a as' b bs' where v: "as = a # as'" "bs = b # bs'" "wf p a" "wf p b"
    "list_all2 wf ps as'" "list_all2 wf ps bs'"
    using Cons.prems by (auto simp: list_all2_Cons1)
  show ?case
    using Cons.IH [OF v(5,6)] key_codec.enc_prefix_free [OF part v(3,4)] by (auto simp: v(1,2))
qed auto

lemma row_incomparable:
  "list_all2 wf ps as \<Longrightarrow> list_all2 wf ps bs \<Longrightarrow> \<not> row_lt lt ps as bs \<Longrightarrow> \<not> row_lt lt ps bs as \<Longrightarrow>
   enc_row enc ps as = enc_row enc ps bs"
proof (induction ps arbitrary: as bs)
  case (Cons p ps)
  obtain a as' b bs' where v: "as = a # as'" "bs = b # bs'" "wf p a" "wf p b"
    "list_all2 wf ps as'" "list_all2 wf ps bs'"
    using Cons.prems by (auto simp: list_all2_Cons1)
  have n: "\<not> lt p a b" "\<not> lt p b a"
    using Cons.prems(3,4) by (simp_all add: v(1,2))
  then have "enc_row enc ps as' = enc_row enc ps bs'"
    using Cons.IH [OF v(5,6)] Cons.prems(3,4) by (simp add: v(1,2))
  with key_codec.enc_eq [OF part v(3,4) n] show ?case by (simp add: v(1,2))
qed auto

end

section \<open>Unpacking\<close>

text \<open>
  What an unpack function promises: from the image of a value (and, where the
  part keeps unpack information, from that information) it rebuilds the value in
  any destination of the right shape and leaves both readers behind what it used.
\<close>

definition info_at :: "mono_string_reader option \<Rightarrow> bytes \<Rightarrow> bool" where
  "info_at ur bs = (case ur of None \<Rightarrow> bs = [] | Some u \<Rightarrow> rd_at u bs)"

lemma info_at_None [simp]: "info_at None bs \<longleftrightarrow> bs = []"
  by (simp add: info_at_def)

lemma info_at_Some [simp]: "info_at (Some u) bs \<longleftrightarrow> rd_at u bs"
  by (simp add: info_at_def)

locale unpack_codec =
  fixes wf :: "'v \<Rightarrow> bool"
    and dest :: "'v \<Rightarrow> bool"
    and enc :: "'v \<Rightarrow> bytes"
    and info :: "'v \<Rightarrow> bytes"
    and unpack :: "'v \<Rightarrow> mono_string_reader \<Rightarrow> mono_string_reader option \<Rightarrow>
                   ('v \<times> mono_string_reader \<times> mono_string_reader option) option"
    and same :: "'v \<Rightarrow> 'v \<Rightarrow> bool"
  assumes unpack_enc:
    "wf v \<Longrightarrow> dest c \<Longrightarrow> rd_at r (enc v @ rest) \<Longrightarrow> info_at ur (info v @ urest) \<Longrightarrow>
     \<exists>c' ur'. unpack c r ur = Some (c', rd_adv (length (enc v)) r, ur') \<and> same v c' \<and> info_at ur' urest"

end
