(* ===== verification/Fixed_Codec.thy ===== *)
theory Fixed_Codec
  imports Field_Model Key_Codec
begin

text \<open>
  Key parts with a fixed-length image. Packing calls the server's
  \<open>Field::sort_string\<close> (\<open>sql/field.cc\<close>, \<open>sql/filesort.cc\<close>); unpacking and skipping
  are \<open>unpack_integer\<close> and its siblings and \<open>skip_max_length\<close> of
  \<open>storage/eloq/eloq_key_def.cc\<close>. The functions are those of a little-endian
  machine.
\<close>

unbundle bit_operations_syntax

section \<open>Images made by the server\<close>

definition flip_sign :: "field \<Rightarrow> byte \<Rightarrow> byte" where
  "flip_sign f b = (if unsigned_flag f then b else b XOR 128)"

definition sort_string_tiny :: "field \<Rightarrow> bytes \<Rightarrow> bytes" where
  "sort_string_tiny f ptr = [flip_sign f (ptr ! 0)]"

definition sort_string_short :: "field \<Rightarrow> bytes \<Rightarrow> bytes" where
  "sort_string_short f ptr = [flip_sign f (ptr ! 1), ptr ! 0]"

definition sort_string_medium :: "field \<Rightarrow> bytes \<Rightarrow> bytes" where
  "sort_string_medium f ptr = [flip_sign f (ptr ! 2), ptr ! 1, ptr ! 0]"

definition sort_string_long :: "field \<Rightarrow> bytes \<Rightarrow> bytes" where
  "sort_string_long f ptr = [flip_sign f (ptr ! 3), ptr ! 2, ptr ! 1, ptr ! 0]"

definition sort_string_longlong :: "field \<Rightarrow> bytes \<Rightarrow> bytes" where
  "sort_string_longlong f ptr =
     [flip_sign f (ptr ! 7), ptr ! 6, ptr ! 5, ptr ! 4, ptr ! 3, ptr ! 2, ptr ! 1, ptr ! 0]"

definition sort_string_newdate :: "bytes \<Rightarrow> bytes" where
  "sort_string_newdate ptr = [ptr ! 2, ptr ! 1, ptr ! 0]"

text \<open>
  \<open>nr == 0.0\<close> for the number whose little-endian image is \<open>ptr\<close>: both zeros of
  IEEE 754, whatever the sign bit.
\<close>

definition ieee_is_zero :: "bytes \<Rightarrow> bool" where
  "ieee_is_zero ptr \<longleftrightarrow> butlast ptr = replicate (length ptr - 1) 0 \<and> last ptr AND 127 = 0"

text \<open>
  \<open>change_double_for_sort\<close> and \<open>Field_float::sort_string\<close>, which differ in the
  width and in the number of exponent digits only.
\<close>

definition change_for_sort :: "nat \<Rightarrow> bytes \<Rightarrow> bytes" where
  "change_for_sort exp_dig ptr =
     (if ieee_is_zero ptr then 128 # replicate (length ptr - 1) 0
      else let tmp = rev ptr in
        if tmp ! 0 AND 128 \<noteq> 0 then map (\<lambda>b. b XOR 255) tmp
        else let exp_part = (push_bit 8 (ucast (tmp ! 0)) OR ucast (tmp ! 1) OR 32768 :: 16 word)
                              + push_bit (16 - 1 - exp_dig) 1
             in ucast (drop_bit 8 exp_part) # ucast exp_part # drop 2 tmp)"

definition DBL_EXP_DIG :: nat where "DBL_EXP_DIG = 8 * 8 - 53"
definition FLT_EXP_DIG :: nat where "FLT_EXP_DIG = 4 * 8 - 24"

definition sort_string_double :: "bytes \<Rightarrow> bytes" where
  "sort_string_double ptr = change_for_sort DBL_EXP_DIG (take 8 ptr)"

definition sort_string_float :: "bytes \<Rightarrow> bytes" where
  "sort_string_float ptr = change_for_sort FLT_EXP_DIG (take 4 ptr)"

definition sort_string_enum :: "field \<Rightarrow> bytes \<Rightarrow> bytes" where
  "sort_string_enum f ptr = be_bytes (blob_packlength f) (le_val (take (blob_packlength f) ptr))"

text \<open>\<open>Field_bit::get_key_image\<close>: the uneven bits first, then whole bytes.\<close>

definition sort_string_bit :: "field \<Rightarrow> cell \<Rightarrow> nat \<Rightarrow> bytes" where
  "sort_string_bit f c len =
     (if bit_len f \<noteq> 0 then c_bits c # take (min (len - 1) (bytes_in_rec f)) (c_img c)
      else take (min len (bytes_in_rec f)) (c_img c))"

text \<open>\<open>CHAR(n)\<close>: \<open>strnxfrm\<close> padded with spaces to the image length.\<close>

definition sort_string_string :: "field \<Rightarrow> bytes \<Rightarrow> nat \<Rightarrow> bytes" where
  "sort_string_string f ptr len =
     cs_strnxfrm_pad (field_charset f) len
       (char_length f * cs_strxfrm_multiply (field_charset f)) (take (field_length f) ptr)"

text \<open>The virtual call \<open>field->sort_string(to, length)\<close>.\<close>

definition sort_string :: "field \<Rightarrow> cell \<Rightarrow> nat \<Rightarrow> bytes" where
  "sort_string f c len =
     (case real_type f of
        MYSQL_TYPE_TINY \<Rightarrow> sort_string_tiny f (c_img c)
      | MYSQL_TYPE_YEAR \<Rightarrow> sort_string_tiny f (c_img c)
      | MYSQL_TYPE_SHORT \<Rightarrow> sort_string_short f (c_img c)
      | MYSQL_TYPE_INT24 \<Rightarrow> sort_string_medium f (c_img c)
      | MYSQL_TYPE_LONG \<Rightarrow> sort_string_long f (c_img c)
      | MYSQL_TYPE_LONGLONG \<Rightarrow> sort_string_longlong f (c_img c)
      | MYSQL_TYPE_NEWDATE \<Rightarrow> sort_string_newdate (c_img c)
      | MYSQL_TYPE_DOUBLE \<Rightarrow> sort_string_double (c_img c)
      | MYSQL_TYPE_FLOAT \<Rightarrow> sort_string_float (c_img c)
      | MYSQL_TYPE_ENUM \<Rightarrow> sort_string_enum f (c_img c)
      | MYSQL_TYPE_SET \<Rightarrow> sort_string_enum f (c_img c)
      | MYSQL_TYPE_BIT \<Rightarrow> sort_string_bit f c len
      | MYSQL_TYPE_STRING \<Rightarrow> sort_string_string f (c_img c) len
      | _ \<Rightarrow> take len (c_img c))"

definition pack_with_make_sort_key :: "mono_field_packing \<Rightarrow> field \<Rightarrow> cell \<Rightarrow> bytes" where
  "pack_with_make_sort_key fpi f c = sort_string f c (m_max_image_len fpi)"

section \<open>Skipping and unpacking\<close>

definition skip_max_length :: "mono_field_packing \<Rightarrow> mono_string_reader \<Rightarrow> mono_string_reader option" where
  "skip_max_length fpi r =
     (case rd_read (m_max_image_len fpi) r of (None, _) \<Rightarrow> None | (Some _, r') \<Rightarrow> Some r')"

text \<open>Write \<open>bs\<close> at the column's data pointer.\<close>

definition put_image :: "cell \<Rightarrow> bytes \<Rightarrow> cell option" where
  "put_image c bs = map_option (\<lambda>d. c\<lparr>c_img := d\<rparr>) (memcpy_at (c_img c) 0 bs)"

definition unpack_fixed ::
  "nat \<Rightarrow> (bytes \<Rightarrow> bytes) \<Rightarrow> cell \<Rightarrow> mono_string_reader \<Rightarrow> mono_string_reader option \<Rightarrow> unpack_result" where
  "unpack_fixed len dec c r ur =
     (case read_bytes len r of (None, _) \<Rightarrow> None
      | (Some from, r') \<Rightarrow> map_option (\<lambda>c'. (c', r', ur)) (put_image c (dec from)))"

definition unpack_integer ::
  "mono_field_packing \<Rightarrow> field \<Rightarrow> cell \<Rightarrow> mono_string_reader \<Rightarrow> mono_string_reader option \<Rightarrow> unpack_result" where
  "unpack_integer fpi f =
     unpack_fixed (m_max_image_len fpi)
       (\<lambda>from. map (\<lambda>i. from ! (length from - 1 - i)) [0..<length from - 1] @ [flip_sign f (from ! 0)])"

definition unpack_unsigned ::
  "mono_field_packing \<Rightarrow> field \<Rightarrow> cell \<Rightarrow> mono_string_reader \<Rightarrow> mono_string_reader option \<Rightarrow> unpack_result" where
  "unpack_unsigned fpi f =
     unpack_fixed (m_max_image_len fpi)
       (\<lambda>from. map (\<lambda>i. from ! (length from - 1 - i)) [0..<length from])"

definition mono_swap_double_bytes :: "bytes \<Rightarrow> bytes" where
  "mono_swap_double_bytes s = [s ! 7, s ! 6, s ! 5, s ! 4, s ! 3, s ! 2, s ! 1, s ! 0]"

definition mono_swap_float_bytes :: "bytes \<Rightarrow> bytes" where
  "mono_swap_float_bytes s = [s ! 3, s ! 2, s ! 1, s ! 0]"

definition decode_floating_point :: "nat \<Rightarrow> nat \<Rightarrow> bytes \<Rightarrow> bytes \<Rightarrow> (bytes \<Rightarrow> bytes) \<Rightarrow> bytes \<Rightarrow> bytes" where
  "decode_floating_point sz exp_digit zero_pattern zero_val swap_func from =
     (if memcmp sz from zero_pattern = 0 then zero_val
      else let tmp = from in
        swap_func
         (if tmp ! 0 AND 128 \<noteq> 0
          then let exp_part = ((push_bit 8 (ucast (tmp ! 0)) OR ucast (tmp ! 1)) AND 32767 :: 16 word)
                                - push_bit (16 - 1 - exp_digit) 1
               in ucast (drop_bit 8 exp_part) # ucast exp_part # drop 2 tmp
          else map (\<lambda>b. b XOR 255) tmp))"

definition unpack_floating_point ::
  "nat \<Rightarrow> nat \<Rightarrow> bytes \<Rightarrow> bytes \<Rightarrow> (bytes \<Rightarrow> bytes) \<Rightarrow>
   cell \<Rightarrow> mono_string_reader \<Rightarrow> mono_string_reader option \<Rightarrow> unpack_result" where
  "unpack_floating_point sz exp_digit zero_pattern zero_val swap_func =
     unpack_fixed sz (decode_floating_point sz exp_digit zero_pattern zero_val swap_func)"

definition unpack_double ::
  "mono_field_packing \<Rightarrow> field \<Rightarrow> cell \<Rightarrow> mono_string_reader \<Rightarrow> mono_string_reader option \<Rightarrow> unpack_result" where
  "unpack_double fpi f =
     unpack_floating_point 8 DBL_EXP_DIG [128, 0, 0, 0, 0, 0, 0, 0] (replicate 8 0) mono_swap_double_bytes"

definition unpack_float ::
  "mono_field_packing \<Rightarrow> field \<Rightarrow> cell \<Rightarrow> mono_string_reader \<Rightarrow> mono_string_reader option \<Rightarrow> unpack_result" where
  "unpack_float fpi f =
     unpack_floating_point 4 FLT_EXP_DIG [128, 0, 0, 0] (replicate 4 0) mono_swap_float_bytes"

definition unpack_newdate ::
  "mono_field_packing \<Rightarrow> field \<Rightarrow> cell \<Rightarrow> mono_string_reader \<Rightarrow> mono_string_reader option \<Rightarrow> unpack_result" where
  "unpack_newdate fpi f = unpack_fixed 3 (\<lambda>from. [from ! 2, from ! 1, from ! 0])"

definition unpack_binary_str ::
  "mono_field_packing \<Rightarrow> field \<Rightarrow> cell \<Rightarrow> mono_string_reader \<Rightarrow> mono_string_reader option \<Rightarrow> unpack_result" where
  "unpack_binary_str fpi f = unpack_fixed (m_max_image_len fpi) (\<lambda>from. from)"

text \<open>
  The uneven bits are at most \<open>bit_len\<close> bits wide; \<open>set_rec_bits\<close> keeps those of
  its argument.
\<close>

definition unpack_bit ::
  "mono_field_packing \<Rightarrow> field \<Rightarrow> cell \<Rightarrow> mono_string_reader \<Rightarrow> mono_string_reader option \<Rightarrow> unpack_result" where
  "unpack_bit fpi f c r ur =
     (case read_bytes (m_max_image_len fpi) r of (None, _) \<Rightarrow> None
      | (Some from, r') \<Rightarrow>
          (let c1 = (if 0 < bit_len f then c\<lparr>c_bits := from ! 0 AND mask (bit_len f)\<rparr> else c);
               from' = (if 0 < bit_len f then drop 1 from else from);
               data_length = min (m_max_image_len fpi) (bytes_in_rec f)
           in if data_length \<le> length from'
              then map_option (\<lambda>c'. (c', r', ur)) (put_image c1 (take data_length from'))
              else None))"

section \<open>Well-formed integer columns\<close>

text \<open>The widths of the integer types and the number a column image stands for.\<close>

fun int_width :: "enum_field_types \<Rightarrow> nat" where
  "int_width MYSQL_TYPE_TINY = 1"
| "int_width MYSQL_TYPE_SHORT = 2"
| "int_width MYSQL_TYPE_INT24 = 3"
| "int_width MYSQL_TYPE_LONG = 4"
| "int_width MYSQL_TYPE_LONGLONG = 8"
| "int_width _ = 0"

definition int_image_val :: "field \<Rightarrow> bytes \<Rightarrow> int" where
  "int_image_val f p =
     (if unsigned_flag f \<or> le_val p < 2 ^ (8 * length p - 1) then int (le_val p)
      else int (le_val p) - 2 ^ (8 * length p))"

definition wf_integer :: "mono_field_packing \<Rightarrow> field \<Rightarrow> cell \<Rightarrow> bool" where
  "wf_integer fpi f c \<longleftrightarrow>
     0 < int_width (real_type f) \<and> m_max_image_len fpi = int_width (real_type f) \<and>
     length (c_img c) = int_width (real_type f)"

definition lt_integer :: "field \<Rightarrow> cell \<Rightarrow> cell \<Rightarrow> bool" where
  "lt_integer f a b \<longleftrightarrow> int_image_val f (c_img a) < int_image_val f (c_img b)"

text \<open>All integer images are the sign-flipped top byte followed by the rest, reversed.\<close>

lemma nth_list_expand:
  "length p = 1 \<Longrightarrow> p = [p ! 0]"
  "length p = 2 \<Longrightarrow> p = [p ! 0, p ! 1]"
  "length p = 3 \<Longrightarrow> p = [p ! 0, p ! 1, p ! 2]"
  "length p = 4 \<Longrightarrow> p = [p ! 0, p ! 1, p ! 2, p ! 3]"
  "length p = 8 \<Longrightarrow> p = [p ! 0, p ! 1, p ! 2, p ! 3, p ! 4, p ! 5, p ! 6, p ! 7]"
  by (auto simp: list_eq_iff_nth_eq less_Suc_eq numeral_eq_Suc)

lemma byte_all: "list_all (\<lambda>n. P (of_nat n :: byte)) [0..<256] \<Longrightarrow> P b"
  by (metis atLeastLessThan_iff list_all_iff of_nat_byte_unat set_upt unat_byte_less zero_le)

lemma sort_string_integer:
  assumes "wf_integer fpi f c"
  shows "sort_string f c len = flip_sign f (last (c_img c)) # rev (butlast (c_img c))"
proof -
  consider "real_type f = MYSQL_TYPE_TINY" | "real_type f = MYSQL_TYPE_SHORT"
    | "real_type f = MYSQL_TYPE_INT24" | "real_type f = MYSQL_TYPE_LONG"
    | "real_type f = MYSQL_TYPE_LONGLONG"
    using assms by (cases "real_type f") (auto simp: wf_integer_def)
  then show ?thesis
  proof cases
    case 1
    then obtain a where "c_img c = [a]"
      using assms nth_list_expand(1) [of "c_img c"] by (auto simp: wf_integer_def)
    then show ?thesis using 1 by (simp add: sort_string_def sort_string_tiny_def)
  next
    case 2
    then obtain a b where "c_img c = [a, b]"
      using assms nth_list_expand(2) [of "c_img c"] by (auto simp: wf_integer_def)
    then show ?thesis using 2 by (simp add: sort_string_def sort_string_short_def)
  next
    case 3
    then obtain a b d where "c_img c = [a, b, d]"
      using assms nth_list_expand(3) [of "c_img c"] by (auto simp: wf_integer_def)
    then show ?thesis using 3 by (simp add: sort_string_def sort_string_medium_def)
  next
    case 4
    then obtain a b d e where "c_img c = [a, b, d, e]"
      using assms nth_list_expand(4) [of "c_img c"] by (auto simp: wf_integer_def)
    then show ?thesis using 4 by (simp add: sort_string_def sort_string_long_def)
  next
    case 5
    then obtain a b d e g h i j where "c_img c = [a, b, d, e, g, h, i, j]"
      using assms nth_list_expand(5) [of "c_img c"] by (auto simp: wf_integer_def)
    then show ?thesis using 5 by (simp add: sort_string_def sort_string_longlong_def)
  qed
qed

lemma xor_128: "unat (b XOR 128 :: byte) = (unat b + 128) mod 256"
proof -
  have "b XOR 128 = flip_bit 7 b"
    by (simp add: flip_bit_eq_xor)
  also have "\<dots> = b + 128"
    by (simp add: flip_bit_eq_if set_bit_eq unset_bit_eq)
  finally show ?thesis by (simp add: unat_word_ariths)
qed

lemma xor_128_twice [simp]: "(b XOR 128) XOR 128 = (b :: byte)"
  by (simp add: xor.assoc)

text \<open>The image of an integer, read as a big-endian number, is the value plus a bias.\<close>

lemma pow_bits_bytes:
  "(2 :: 'a :: comm_semiring_1) ^ (8 * Suc n - 1) = 128 * 256 ^ n"
  "(2 :: 'a :: comm_semiring_1) ^ (8 * Suc n) = 256 * 256 ^ n"
proof -
  have "(2 :: 'a) ^ (7 + 8 * n) = 128 * 256 ^ n" by (simp only: power_add power_mult) simp
  moreover have "8 * Suc n - 1 = 7 + 8 * n" by simp
  ultimately show "(2 :: 'a) ^ (8 * Suc n - 1) = 128 * 256 ^ n" by (simp only:)
  show "(2 :: 'a) ^ (8 * Suc n) = 256 * 256 ^ n"
    by (simp only: power_mult) simp
qed

lemma top_byte_less_iff:
  fixes r M u k :: nat
  assumes "r < M"
  shows "r + M * u < M * k \<longleftrightarrow> u < k"
proof
  assume "u < k"
  then have "M * Suc u \<le> M * k" by (intro mult_le_mono2) simp
  with assms show "r + M * u < M * k" unfolding mult_Suc_right by linarith
next
  assume "r + M * u < M * k"
  then have "M * u < M * k" by linarith
  then show "u < k" by simp
qed

lemma add_128_mod: "(x + 128) mod 256 = (if x < 128 then x + 128 else x - 128)" if "x < 256" for x :: nat
  using that by (cases "x < 128") (simp_all add: le_mod_geq)

lemma be_val_int_image:
  assumes "p \<noteq> []"
  shows "int (be_val (flip_sign f (last p) # rev (butlast p))) =
           int_image_val f p + (if unsigned_flag f then 0 else 2 ^ (8 * length p - 1))"
proof -
  obtain q x where p: "p = q @ [x]" using assms by (cases p rule: rev_cases) auto
  define M where "M = (256 :: nat) ^ length q"
  have len: "length p = Suc (length q)" by (simp add: p)
  have le: "le_val p = le_val q + M * unat x" by (simp add: p le_val_append M_def)
  have be: "be_val (flip_sign f (last p) # rev (butlast p)) = unat (flip_sign f x) * M + le_val q"
    by (simp add: p be_val_def le_val_append M_def)
  have M: "(2 :: nat) ^ (8 * length p - 1) = M * 128" "(2 :: int) ^ (8 * length p) = 256 * int M"
    "(2 :: int) ^ (8 * length p - 1) = 128 * int M"
    unfolding len pow_bits_bytes M_def by (simp_all only: mult.commute of_nat_power of_nat_numeral)
  have small: "le_val p < 2 ^ (8 * length p - 1) \<longleftrightarrow> unat x < 128"
    unfolding le M by (rule top_byte_less_iff) (simp add: M_def le_val_less)
  have x: "unat x < 256" by simp
  have flip: "unat (x XOR 128) = (if unat x < 128 then unat x + 128 else unat x - 128)"
    unfolding xor_128 by (rule add_128_mod [OF x])
  consider "unsigned_flag f" | "\<not> unsigned_flag f" "unat x < 128" | "\<not> unsigned_flag f" "128 \<le> unat x"
    by fastforce
  then show ?thesis
  proof cases
    case 1
    then show ?thesis unfolding be int_image_val_def le by (simp add: flip_sign_def)
  next
    case 2
    then show ?thesis unfolding be int_image_val_def small unfolding M le
      by (simp add: flip_sign_def flip algebra_simps)
  next
    case 3
    then have e: "unat (x XOR 128) = unat x - 128" and ns: "\<not> unat x < 128" using flip by simp_all
    have "int (unat (x XOR 128) * M + le_val q) = (int (unat x) - 128) * int M + int (le_val q)"
      unfolding e using 3(2) by (simp only: of_nat_add of_nat_mult of_nat_diff of_nat_numeral)
    with 3(1) ns show ?thesis unfolding be int_image_val_def small unfolding M le flip_sign_def
      by (simp add: left_diff_distrib mult.commute) (auto simp: right_diff_distrib)
  qed
qed

lemma sort_string_integer_val:
  assumes "wf_integer fpi f a"
  shows "int (be_val (sort_string f a len)) =
    int_image_val f (c_img a) + (if unsigned_flag f then 0 else 2 ^ (8 * int_width (real_type f) - 1))"
proof -
  have "c_img a \<noteq> []" and len: "length (c_img a) = int_width (real_type f)"
    using assms by (auto simp: wf_integer_def)
  then show ?thesis
    using be_val_int_image [of "c_img a" f] unfolding sort_string_integer [OF assms] len by simp
qed

lemma length_sort_string_integer:
  "wf_integer fpi f c \<Longrightarrow> length (sort_string f c len) = m_max_image_len fpi"
  by (simp add: sort_string_integer [of fpi] wf_integer_def)

lemma skip_max_length_ok:
  assumes "rd_at r (xs @ rest)" "length xs = m_max_image_len fpi" "0 < m_max_image_len fpi"
  shows "skip_max_length fpi r = Some (rd_adv (length xs) r)"
proof -
  obtain p where "rd_read (length xs) r = (Some p, rd_adv (length xs) r)"
    using rd_read_ok [OF assms(1), of "length xs"] assms(2,3) by auto
  then show ?thesis by (simp add: skip_max_length_def assms(2))
qed

text \<open>Integers of every width: delimited, ordered by value, one image per value.\<close>

interpretation integer_codec: key_codec "wf_integer fpi f" "pack_with_make_sort_key fpi f"
  "skip_max_length fpi" "lt_integer f" for fpi f
proof unfold_locales
  fix v r rest
  assume "wf_integer fpi f v" "rd_at r (pack_with_make_sort_key fpi f v @ rest)"
  then show "skip_max_length fpi r = Some (rd_adv (length (pack_with_make_sort_key fpi f v)) r)"
    by (intro skip_max_length_ok)
       (auto simp: pack_with_make_sort_key_def length_sort_string_integer wf_integer_def
        )
next
  fix a b
  assume "wf_integer fpi f a" "wf_integer fpi f b"
  note wf = this
  have len: "length (sort_string f a len) = length (sort_string f b len)" for len
    using wf by (simp only: length_sort_string_integer)
  have val: "be_val (sort_string f a len) < be_val (sort_string f b len) \<longleftrightarrow> lt_integer f a b"
    and eq: "be_val (sort_string f a len) = be_val (sort_string f b len) \<longleftrightarrow>
               int_image_val f (c_img a) = int_image_val f (c_img b)" for len
    using sort_string_integer_val [OF wf(1), of len] sort_string_integer_val [OF wf(2), of len]
    unfolding lt_integer_def by linarith+
  show "lexlt_in (pack_with_make_sort_key fpi f a) (pack_with_make_sort_key fpi f b)" if "lt_integer f a b"
    unfolding pack_with_make_sort_key_def
    using that val be_val_less_iff [OF len [of "m_max_image_len fpi"]] by blast
  show "pack_with_make_sort_key fpi f a = pack_with_make_sort_key fpi f b"
    if "\<not> lt_integer f a b" "\<not> lt_integer f b a"
  proof -
    have "int_image_val f (c_img a) = int_image_val f (c_img b)"
      using that unfolding lt_integer_def by linarith
    then show ?thesis
      unfolding pack_with_make_sort_key_def
      using eq be_val_inj [OF len [of "m_max_image_len fpi"]] by blast
  qed
qed

text \<open>Unpacking fixed-length images.\<close>

definition same_image :: "cell \<Rightarrow> cell \<Rightarrow> bool" where
  "same_image v c \<longleftrightarrow> c_img c = c_img v"

definition dest_len :: "nat \<Rightarrow> cell \<Rightarrow> bool" where
  "dest_len n c \<longleftrightarrow> length (c_img c) = n"

lemma unpack_fixed_ok:
  assumes "rd_at r (xs @ rest)" "length xs = len" "0 < len" "length (dec xs) = length (c_img c)"
  shows "unpack_fixed len dec c r ur = Some (c\<lparr>c_img := dec xs\<rparr>, rd_adv len r, ur)"
  using read_bytes_append [OF assms(1,2,3)] assms(4)
  by (simp add: unpack_fixed_def put_image_def memcpy_at_def)

lemma map_nth_rev: "map (\<lambda>i. xs ! (length xs - 1 - i)) [0..<length xs] = rev xs"
  by (rule nth_equalityI) (simp_all add: rev_nth)

lemma map_nth_rev_tl: "map (\<lambda>i. (x # xs) ! (length (x # xs) - 1 - i)) [0..<length (x # xs) - 1] = rev xs"
proof (rule nth_equalityI)
  fix i assume "i < length (map (\<lambda>i. (x # xs) ! (length (x # xs) - 1 - i)) [0..<length (x # xs) - 1])"
  then have i: "i < length xs" by simp
  then have "length xs - i = Suc (length xs - Suc i)" by simp
  with i show "map (\<lambda>i. (x # xs) ! (length (x # xs) - 1 - i)) [0..<length (x # xs) - 1] ! i = rev xs ! i"
    by (simp add: rev_nth)
qed simp

interpretation integer_unpack: unpack_codec "wf_integer fpi f"
  "dest_len (m_max_image_len fpi)" "pack_with_make_sort_key fpi f" "\<lambda>_. []"
  "unpack_integer fpi f" same_image for fpi f
proof unfold_locales
  fix v c r rest ur urest
  assume wf: "wf_integer fpi f v" and c: "dest_len (m_max_image_len fpi) c"
    and r: "rd_at r (pack_with_make_sort_key fpi f v @ rest)" and ur: "info_at ur ([] @ urest)"
  obtain q x where v: "c_img v = q @ [x]"
    using wf by (cases "c_img v" rule: rev_cases) (auto simp: wf_integer_def)
  have img: "pack_with_make_sort_key fpi f v = flip_sign f x # rev q"
    by (simp add: pack_with_make_sort_key_def sort_string_integer [OF wf] v)
  have dec: "map (\<lambda>i. (flip_sign f x # rev q) ! (length (flip_sign f x # rev q) - 1 - i))
               [0..<length (flip_sign f x # rev q) - 1] @ [flip_sign f ((flip_sign f x # rev q) ! 0)] = q @ [x]"
    unfolding map_nth_rev_tl by (simp add: flip_sign_def)
  have len: "length (flip_sign f x # rev q) = m_max_image_len fpi"
    using wf v by (simp add: wf_integer_def)
  have "unpack_integer fpi f c r ur = Some (c\<lparr>c_img := q @ [x]\<rparr>, rd_adv (m_max_image_len fpi) r, ur)"
    unfolding unpack_integer_def dec [symmetric]
    by (rule unpack_fixed_ok [OF r [unfolded img] len])
       (use c len in \<open>auto simp: dest_len_def\<close>)
  then show "\<exists>c' ur'. unpack_integer fpi f c r ur =
       Some (c', rd_adv (length (pack_with_make_sort_key fpi f v)) r, ur') \<and>
       same_image v c' \<and> info_at ur' urest"
    using len v ur img by (simp add: same_image_def)
qed

section \<open>Columns whose image is the column itself\<close>

text \<open>
  Decimals, fractional times and \<open>YEAR\<close> are copied; \<open>BINARY(n)\<close> and
  \<open>CHAR(n)\<close> in a one-byte binary collation are too, when \<open>strnxfrm\<close> keeps a full
  value as it is.
\<close>

definition wf_memcpy :: "mono_field_packing \<Rightarrow> field \<Rightarrow> cell \<Rightarrow> bool" where
  "wf_memcpy fpi f c \<longleftrightarrow>
     0 < m_max_image_len fpi \<and> length (c_img c) = m_max_image_len fpi \<and>
     (real_type f \<in> {MYSQL_TYPE_NEWDECIMAL, MYSQL_TYPE_DATETIME2, MYSQL_TYPE_TIMESTAMP2, MYSQL_TYPE_TIME2} \<or>
      real_type f = MYSQL_TYPE_YEAR \<and> unsigned_flag f \<and> m_max_image_len fpi = 1 \<or>
      real_type f = MYSQL_TYPE_STRING \<and> sort_string_string f (c_img c) (m_max_image_len fpi) = c_img c)"

definition lt_image :: "cell \<Rightarrow> cell \<Rightarrow> bool" where
  "lt_image a b \<longleftrightarrow> lexlt_in (c_img a) (c_img b)"

lemma pack_memcpy: "wf_memcpy fpi f c \<Longrightarrow> pack_with_make_sort_key fpi f c = c_img c"
  by (cases "c_img c")
     (auto simp: wf_memcpy_def pack_with_make_sort_key_def sort_string_def sort_string_tiny_def
        flip_sign_def split: enum_field_types.splits)

lemma lexlt_in_total_eq_length: "length xs = length ys \<Longrightarrow> \<not> lexlt_in xs ys \<Longrightarrow> \<not> lexlt_in ys xs \<Longrightarrow> xs = ys"
  using lexlt_total [of xs ys] by (auto simp: lexlt_in_eq_lexlt)

interpretation memcpy_codec: key_codec "wf_memcpy fpi f" "pack_with_make_sort_key fpi f"
  "skip_max_length fpi" lt_image for fpi f
proof unfold_locales
  fix v r rest
  assume "wf_memcpy fpi f v" "rd_at r (pack_with_make_sort_key fpi f v @ rest)"
  then show "skip_max_length fpi r = Some (rd_adv (length (pack_with_make_sort_key fpi f v)) r)"
    by (intro skip_max_length_ok) (auto simp: pack_memcpy, auto simp: wf_memcpy_def)
next
  fix a b assume wf: "wf_memcpy fpi f a" "wf_memcpy fpi f b"
  then have len: "length (c_img a) = length (c_img b)" by (simp add: wf_memcpy_def)
  show "lexlt_in (pack_with_make_sort_key fpi f a) (pack_with_make_sort_key fpi f b)" if "lt_image a b"
    using that wf by (simp add: pack_memcpy lt_image_def)
  show "pack_with_make_sort_key fpi f a = pack_with_make_sort_key fpi f b"
    if "\<not> lt_image a b" "\<not> lt_image b a"
    using that wf lexlt_in_total_eq_length [OF len] by (simp add: pack_memcpy lt_image_def)
qed

interpretation memcpy_unpack: unpack_codec "wf_memcpy fpi f" "dest_len (m_max_image_len fpi)"
  "pack_with_make_sort_key fpi f" "\<lambda>_. []" "unpack_binary_str fpi f" same_image for fpi f
proof unfold_locales
  fix v c r rest ur urest
  assume wf: "wf_memcpy fpi f v" and c: "dest_len (m_max_image_len fpi) c"
    and r: "rd_at r (pack_with_make_sort_key fpi f v @ rest)" and ur: "info_at ur ([] @ urest)"
  have "unpack_binary_str fpi f c r ur = Some (c\<lparr>c_img := c_img v\<rparr>, rd_adv (m_max_image_len fpi) r, ur)"
    unfolding unpack_binary_str_def using r wf c
    by (intro unpack_fixed_ok) (auto simp: pack_memcpy, auto simp: wf_memcpy_def dest_len_def)
  then show "\<exists>c' ur'. unpack_binary_str fpi f c r ur =
       Some (c', rd_adv (length (pack_with_make_sort_key fpi f v)) r, ur') \<and>
       same_image v c' \<and> info_at ur' urest"
    using wf ur by (simp add: pack_memcpy same_image_def) (simp add: wf_memcpy_def)
qed

section \<open>Dates, enumerations and sets: unsigned little-endian images\<close>

definition wf_unsigned :: "mono_field_packing \<Rightarrow> field \<Rightarrow> cell \<Rightarrow> bool" where
  "wf_unsigned fpi f c \<longleftrightarrow>
     0 < m_max_image_len fpi \<and> length (c_img c) = m_max_image_len fpi \<and>
     (real_type f = MYSQL_TYPE_NEWDATE \<and> m_max_image_len fpi = 3 \<or>
      real_type f \<in> {MYSQL_TYPE_ENUM, MYSQL_TYPE_SET} \<and> blob_packlength f = m_max_image_len fpi)"

definition lt_unsigned :: "cell \<Rightarrow> cell \<Rightarrow> bool" where
  "lt_unsigned a b \<longleftrightarrow> le_val (c_img a) < le_val (c_img b)"

lemma be_bytes_of_le_val: "be_bytes (length p) (le_val p) = rev p"
  using le_bytes_le_val [of p] by (simp add: be_bytes_def)

lemma pack_unsigned: "wf_unsigned fpi f c \<Longrightarrow> pack_with_make_sort_key fpi f c = rev (c_img c)"
  using nth_list_expand(3) [of "c_img c"] be_bytes_of_le_val [of "c_img c"]
  by (auto simp: wf_unsigned_def pack_with_make_sort_key_def sort_string_def sort_string_newdate_def
        sort_string_enum_def) (metis rev.simps append.simps)

interpretation unsigned_codec: key_codec "wf_unsigned fpi f" "pack_with_make_sort_key fpi f"
  "skip_max_length fpi" lt_unsigned for fpi f
proof unfold_locales
  fix v r rest
  assume "wf_unsigned fpi f v" "rd_at r (pack_with_make_sort_key fpi f v @ rest)"
  then show "skip_max_length fpi r = Some (rd_adv (length (pack_with_make_sort_key fpi f v)) r)"
    by (intro skip_max_length_ok) (auto simp: pack_unsigned, auto simp: wf_unsigned_def)
next
  fix a b assume wf: "wf_unsigned fpi f a" "wf_unsigned fpi f b"
  then have len: "length (rev (c_img a)) = length (rev (c_img b))" by (simp add: wf_unsigned_def)
  note enc = pack_unsigned [OF wf(1)] pack_unsigned [OF wf(2)]
  have le: "lt_unsigned x y \<longleftrightarrow> be_val (rev (c_img x)) < be_val (rev (c_img y))" for x y
    by (simp add: be_val_def lt_unsigned_def)
  show "lexlt_in (pack_with_make_sort_key fpi f a) (pack_with_make_sort_key fpi f b)" if "lt_unsigned a b"
    using that be_val_less_iff [OF len] unfolding enc le by blast
  show "pack_with_make_sort_key fpi f a = pack_with_make_sort_key fpi f b"
    if "\<not> lt_unsigned a b" "\<not> lt_unsigned b a"
    using that be_val_inj [OF len] unfolding enc le by linarith
qed

interpretation unsigned_unpack: unpack_codec "wf_unsigned fpi f" "dest_len (m_max_image_len fpi)"
  "pack_with_make_sort_key fpi f" "\<lambda>_. []"
  "if real_type f = MYSQL_TYPE_NEWDATE then unpack_newdate fpi f else unpack_unsigned fpi f"
  same_image for fpi f
proof unfold_locales
  fix v c r rest ur urest
  let ?u = "if real_type f = MYSQL_TYPE_NEWDATE then unpack_newdate fpi f else unpack_unsigned fpi f"
  assume wf: "wf_unsigned fpi f v" and c: "dest_len (m_max_image_len fpi) c"
    and r: "rd_at r (pack_with_make_sort_key fpi f v @ rest)" and ur: "info_at ur ([] @ urest)"
  have img: "pack_with_make_sort_key fpi f v = rev (c_img v)" using wf by (rule pack_unsigned)
  have dec: "map (\<lambda>i. rev (c_img v) ! (length (rev (c_img v)) - 1 - i)) [0..<length (rev (c_img v))] = c_img v"
    unfolding map_nth_rev by simp
  have dec3: "[rev p ! 2, rev p ! 1, rev p ! 0] = p" if "length p = 3" for p :: bytes
    using nth_list_expand(3) [OF that] by (metis append_Cons append_Nil nth_Cons_0 nth_Cons_Suc numeral_2_eq_2 One_nat_def rev.simps)
  have "?u c r ur = Some (c\<lparr>c_img := c_img v\<rparr>, rd_adv (m_max_image_len fpi) r, ur)"
  proof (cases "real_type f = MYSQL_TYPE_NEWDATE")
    case True
    then have "m_max_image_len fpi = 3" "length (c_img v) = 3"
      using wf by (auto simp: wf_unsigned_def)
    then show ?thesis
      using unpack_fixed_ok [OF r, of 3 "\<lambda>from. [from ! 2, from ! 1, from ! 0]" c ur] c True dec3
      by (simp add: img unpack_newdate_def dest_len_def)
  next
    case False
    show ?thesis
      using unpack_fixed_ok [OF r, of "m_max_image_len fpi"
          "\<lambda>from. map (\<lambda>i. from ! (length from - 1 - i)) [0..<length from]" c ur] c False wf
      unfolding img dec by (simp add: unpack_unsigned_def dest_len_def wf_unsigned_def)
  qed
  then show "\<exists>c' ur'. ?u c r ur =
       Some (c', rd_adv (length (pack_with_make_sort_key fpi f v)) r, ur') \<and>
       same_image v c' \<and> info_at ur' urest"
    using wf ur by (simp add: img same_image_def wf_unsigned_def)
qed

section \<open>Floating-point columns\<close>

text \<open>
  The number an IEEE 754 image with \<open>mb\<close> explicit mantissa bits stands for,
  scaled by the smallest subnormal so that it is an integer. \<open>ieee_finite\<close> excludes
  the exponent of infinities and NaNs, which the server does not store.
\<close>

definition ieee_mag :: "nat \<Rightarrow> nat \<Rightarrow> nat" where
  "ieee_mag mb w =
     (let m = w mod 2 ^ mb; e = w div 2 ^ mb
      in if e = 0 then m else (2 ^ mb + m) * 2 ^ (e - 1))"

definition ieee_scaled :: "nat \<Rightarrow> bytes \<Rightarrow> int" where
  "ieee_scaled mb p =
     (let n = 8 * length p - 1; v = ieee_mag mb (le_val p mod 2 ^ n)
      in if le_val p < 2 ^ n then int v else - int v)"

definition ieee_finite :: "nat \<Rightarrow> bytes \<Rightarrow> bool" where
  "ieee_finite mb p \<longleftrightarrow> le_val p mod 2 ^ (8 * length p - 1) + 2 ^ mb < 2 ^ (8 * length p - 1)"

lemma ieee_mag_Suc: "ieee_mag mb w < ieee_mag mb (Suc w)"
proof -
  define m e where "m = w mod 2 ^ mb" and "e = w div 2 ^ mb"
  have m: "m < 2 ^ mb" by (simp add: m_def)
  show ?thesis
  proof (cases "Suc m < 2 ^ mb")
    case True
    then have "Suc w mod 2 ^ mb = Suc m" "Suc w div 2 ^ mb = e"
      by (simp_all add: m_def e_def mod_Suc div_Suc)
    then show ?thesis
      by (simp add: ieee_mag_def Let_def flip: m_def e_def)
  next
    case False
    with m have "Suc m = 2 ^ mb" by simp
    then have "Suc w mod 2 ^ mb = 0" "Suc w div 2 ^ mb = Suc e"
      by (simp_all add: m_def e_def mod_Suc div_Suc)
    moreover have "(2 ^ mb + m) * 2 ^ (e - 1) < 2 ^ mb * 2 ^ e" if "0 < e"
    proof -
      have "(2 ^ mb + m) * 2 ^ (e - 1) < (2 * 2 ^ mb) * (2 :: nat) ^ (e - 1)"
        using m by simp
      also have "\<dots> = 2 ^ mb * 2 ^ e" using that by (cases e) simp_all
      finally show ?thesis .
    qed
    ultimately show ?thesis
      using m by (simp add: ieee_mag_def Let_def flip: m_def e_def)
  qed
qed

lemma ieee_mag_less_iff: "ieee_mag mb v < ieee_mag mb w \<longleftrightarrow> v < w"
  using lift_Suc_mono_less [of "ieee_mag mb", OF ieee_mag_Suc] by (metis less_asym linorder_neqE_nat)

lemma ieee_mag_0 [simp]: "ieee_mag mb 0 = 0"
  by (simp add: ieee_mag_def)

lemma ieee_mag_eq_0 [simp]: "ieee_mag mb w = 0 \<longleftrightarrow> w = 0"
  using ieee_mag_less_iff [of mb 0 w] by (cases w) auto

text \<open>Byte-level facts of the two code paths.\<close>

lemma unat_xor_255: "unat (b XOR 255 :: byte) = 255 - unat b"
proof -
  have m: "(255 :: byte) = - 1" by simp
  have "b XOR 255 = 255 - b" unfolding m by (simp add: not_eq_complement)
  moreover have u: "unat (255 :: byte) = 255" by simp
  moreover have "unat b \<le> unat (255 :: byte)" unfolding u using unat_byte_less [of b] by linarith
  ultimately show ?thesis by (simp add: unat_sub word_le_nat_alt)
qed

lemma be_val_complement: "be_val (map (\<lambda>b. b XOR 255) xs) + be_val xs + 1 = 256 ^ length xs"
proof (induction xs)
  case (Cons x xs)
  have "255 - unat x + unat x = 255" using unat_byte_less [of x] by linarith
  then have "(255 - unat x) * 256 ^ length xs + unat x * 256 ^ length xs = 255 * 256 ^ length xs"
    by (simp flip: add_mult_distrib)
  with Cons show ?case by (simp add: be_val_Cons unat_xor_255)
qed (simp add: be_val_def)

lemma bit_7_iff: "bit (b :: byte) 7 \<longleftrightarrow> 128 \<le> unat b"
proof -
  have "bit b 7 \<longleftrightarrow> bit (unat b) 7" by (simp add: bit_unsigned_iff)
  also have "\<dots> \<longleftrightarrow> odd (unat b div 128)" by (simp add: bit_iff_odd)
  also have "\<dots> \<longleftrightarrow> 128 \<le> unat b"
  proof (cases "unat b < 128")
    case False
    then have "unat b div 128 = 1" using unat_byte_less [of b] by (intro div_nat_eqI) simp_all
    then show ?thesis using False by simp
  qed simp
  finally show ?thesis .
qed

lemma and_128_iff: "(b AND 128 :: byte) \<noteq> 0 \<longleftrightarrow> 128 \<le> unat b"
  using and_exp_eq_0_iff_not_bit [of b 7] by (simp add: bit_7_iff)

lemma or_bytes16: "unat (push_bit 8 (ucast a) OR ucast b :: 16 word) = 256 * unat a + unat b"
  for a b :: byte
proof -
  have "push_bit 8 (ucast a :: 16 word) AND ucast b = 0"
    by (rule bit_word_eqI) (auto simp: bit_simps dest: bit_imp_le_length)
  then have "push_bit 8 (ucast a :: 16 word) OR ucast b = push_bit 8 (ucast a) + ucast b"
    by (simp only: disjunctive_add_eq_or)
  moreover have "256 * unat a + unat b < 65536"
    using unat_byte_less [of a] unat_byte_less [of b] by linarith
  ultimately show ?thesis
    by (simp add: push_bit_eq_mult unat_word_ariths unsigned_ucast_eq mult.commute take_bit_nat_eq_self)
qed

lemma join_bytes16: "256 * unat (ucast (drop_bit 8 x) :: byte) + unat (ucast x :: byte) = unat x"
  for x :: "16 word"
proof -
  have "unat (ucast (drop_bit 8 x) :: byte) = unat x div 256"
  proof -
    have "unat x < 65536" by (rule order_less_le_trans [OF unsigned_less]) simp
    then have "unat x div 256 < 256" by (simp add: less_mult_imp_div_less)
    then show ?thesis
      by (simp add: unsigned_ucast_eq take_bit_nat_def unat_drop_bit_eq drop_bit_nat_def
        del: drop_bit_eq_div)
  qed
  moreover have "unat (ucast x :: byte) = unat x mod 256"
    by (simp add: unsigned_ucast_eq take_bit_nat_def)
  ultimately show ?thesis by simp
qed

lemma or_32768: "unat (x OR 32768 :: 16 word) = unat x + 32768" if "unat x < 32768"
proof -
  have "\<not> bit x 15"
  proof -
    have "bit x 15 \<longleftrightarrow> bit (unat x) 15" by (simp add: bit_unsigned_iff)
    then show ?thesis using that by (simp add: bit_iff_odd)
  qed
  then have "x AND 32768 = 0" using and_exp_eq_0_iff_not_bit [of x 15] by simp
  then have "x OR 32768 = x + 32768" by (simp only: disjunctive_add_eq_or)
  then show ?thesis using that by (simp add: unat_word_ariths)
qed

lemma and_32767: "unat (x AND 32767 :: 16 word) = unat x mod 32768"
proof -
  have "x AND 32767 = take_bit 15 x" by (simp add: take_bit_eq_mask mask_eq_exp_minus_1)
  then show ?thesis by (simp add: unsigned_take_bit_eq take_bit_nat_def)
qed

lemma unat_pow16: "unat (push_bit (15 - e) 1 :: 16 word) = 2 ^ (15 - e)"
proof -
  have "2 ^ (15 - e) < (2 :: nat) ^ 16" by (rule power_strict_increasing) simp_all
  then show ?thesis
    by (simp only: unsigned_push_bit_eq) (simp add: take_bit_nat_def)
qed

text \<open>
  The image of a finite number, read big-endian, in terms of the number's bits.
\<close>

lemma pow_16_bytes: "(2 :: nat) ^ (8 * Suc (Suc k) - 1) = 256 ^ k * 32768" "(256 :: nat) ^ Suc (Suc k) = 256 ^ k * 65536"
  using pow_bits_bytes(1) [of "Suc k", where 'a = nat] by simp_all

lemma ieee_pos_image:
  fixes a b :: byte
  assumes "unat a < 128" "ed \<le> 15" "256 * unat a + unat b + 2 ^ (15 - ed) < 32768"
  defines "x \<equiv> (push_bit 8 (ucast a) OR ucast b OR 32768 :: 16 word) + push_bit (16 - 1 - ed) 1"
  shows "unat x = 256 * unat a + unat b + 32768 + 2 ^ (15 - ed)"
    and "be_val (ucast (drop_bit 8 x) # ucast x # t) =
           (256 * unat a + unat b + 32768 + 2 ^ (15 - ed)) * 256 ^ length t + be_val t"
proof -
  have "256 * unat a + unat b < 32768" using assms(1) unat_byte_less [of b] by linarith
  then have "unat (push_bit 8 (ucast a) OR ucast b OR 32768 :: 16 word) = 256 * unat a + unat b + 32768"
    by (simp only: or_32768 or_bytes16 flip: or.assoc)
  moreover have "unat (push_bit (16 - 1 - ed) 1 :: 16 word) = 2 ^ (15 - ed)"
    using unat_pow16 [of ed] by simp
  ultimately show x: "unat x = 256 * unat a + unat b + 32768 + 2 ^ (15 - ed)"
    using assms(3) unfolding x_def by (simp add: unat_word_ariths)
  have "be_val (ucast (drop_bit 8 x) # ucast x # t) =
          (256 * unat (ucast (drop_bit 8 x) :: byte) + unat (ucast x :: byte)) * 256 ^ length t + be_val t"
    by (simp add: be_val_Cons algebra_simps)
  then show "be_val (ucast (drop_bit 8 x) # ucast x # t) =
           (256 * unat a + unat b + 32768 + 2 ^ (15 - ed)) * 256 ^ length t + be_val t"
    by (simp only: join_bytes16 x)
qed

lemma le_val_eq_0: "le_val q = 0 \<longleftrightarrow> q = replicate (length q) 0"
  by (induction q) (auto simp: unat_eq_0)

lemma and_127_eq_0: "(a AND 127 = 0) \<longleftrightarrow> unat a mod 128 = 0" for a :: byte
proof -
  have "a AND 127 = take_bit 7 a" by (simp add: take_bit_eq_mask mask_eq_exp_minus_1)
  moreover have "unat (take_bit 7 a) = unat a mod 128" by (simp add: unsigned_take_bit_eq take_bit_nat_def)
  ultimately show ?thesis by (simp add: unat_eq_0 [symmetric])
qed

lemma le_val_snoc_mod: "le_val (q @ [a]) mod 2 ^ (8 * length (q @ [a]) - 1) = 256 ^ length q * (unat a mod 128) + le_val q"
proof -
  have "(2 :: nat) ^ (8 * length (q @ [a]) - 1) = 256 ^ length q * 128"
    using pow_bits_bytes(1) [of "length q", where 'a = nat] by simp
  then show ?thesis
    using le_val_less [of q] by (simp add: le_val_append mod_mult2_eq)
qed

lemma ieee_is_zero_iff:
  assumes "p \<noteq> []"
  shows "ieee_is_zero p \<longleftrightarrow> le_val p mod 2 ^ (8 * length p - 1) = 0"
proof -
  obtain q a where p: "p = q @ [a]" using assms by (cases p rule: rev_cases) auto
  have "ieee_is_zero p \<longleftrightarrow> le_val q = 0 \<and> unat a mod 128 = 0"
    unfolding le_val_eq_0 by (simp add: ieee_is_zero_def p and_127_eq_0)
  then show ?thesis unfolding p le_val_snoc_mod by auto
qed

lemma ieee_sign_iff:
  assumes "length p = Suc n"
  shows "le_val p < 2 ^ (8 * length p - 1) \<longleftrightarrow> unat (rev p ! 0) < 128"
proof -
  obtain q a where p: "p = q @ [a]" using assms by (cases p rule: rev_cases) auto
  have "(2 :: nat) ^ (8 * length p - 1) = 256 ^ length q * 128"
    using pow_bits_bytes(1) [of "length q", where 'a = nat] by (simp add: p)
  then show ?thesis
    using top_byte_less_iff [OF le_val_less [of q], of "unat a" 128] by (simp add: p le_val_append)
qed

text \<open>The bits of a number with top bytes \<open>a\<close> and \<open>b\<close>.\<close>

lemma ieee_bits:
  assumes "length p = Suc (Suc k)" "rev p = a # b # t"
  shows "length t = k" "be_val t < 256 ^ k"
    and "le_val p = (256 * unat a + unat b) * 256 ^ k + be_val t"
proof -
  show t: "length t = k" using assms by (metis Suc_inject length_Cons length_rev)
  show "be_val t < 256 ^ k" using be_val_less [of t] t by simp
  have "le_val p = be_val (a # b # t)" by (simp add: be_val_def flip: assms(2))
  then show "le_val p = (256 * unat a + unat b) * 256 ^ k + be_val t"
    by (simp add: be_val_Cons t algebra_simps)
qed

lemma ieee_finite_no_overflow:
  assumes len: "length p = Suc (Suc k)" and r: "rev p = a # b # t" and mb: "mb = 15 - ed + 8 * k"
    and fin: "ieee_finite mb p" and a: "unat a < 128"
  shows "256 * unat a + unat b + 2 ^ (15 - ed) < 32768"
proof -
  note bits = ieee_bits [OF len r]
  have n: "(2 :: nat) ^ (8 * length p - 1) = 256 ^ k * 32768"
    using pow_16_bytes(1) [of k] by (simp add: len)
  have pos: "le_val p < 2 ^ (8 * length p - 1)"
    using ieee_sign_iff [of p] len r a by simp
  have mb': "(2 :: nat) ^ mb = 256 ^ k * 2 ^ (15 - ed)"
    unfolding mb by (simp add: power_add power_mult)
  have "le_val p + 2 ^ mb < 256 ^ k * 32768"
    using fin pos unfolding ieee_finite_def n by simp
  then have "be_val t + 256 ^ k * (256 * unat a + unat b + 2 ^ (15 - ed)) < 256 ^ k * 32768"
    unfolding bits(3) mb' by (simp add: algebra_simps)
  then show ?thesis unfolding top_byte_less_iff [OF bits(2)] .
qed

lemma change_for_sort_val:
  assumes len: "length p = Suc (Suc k)" and ed: "ed \<le> 15" and mb: "mb = 15 - ed + 8 * k"
    and fin: "ieee_finite mb p"
  defines "w \<equiv> le_val p" and "n \<equiv> 8 * length p - 1"
  shows "be_val (change_for_sort ed p) =
           (if w mod 2 ^ n = 0 then 2 ^ n
            else if w < 2 ^ n then w + 2 ^ n + 2 ^ mb else 2 * 2 ^ n - 1 - w)"
    and "length (change_for_sort ed p) = length p"
proof -
  obtain a b t where r: "rev p = a # b # t"
    using len by (cases "rev p"; cases "tl (rev p)") (auto dest: arg_cong [of _ _ length])
  note bits = ieee_bits [OF len r]
  have w: "w = (256 * unat a + unat b) * 256 ^ k + be_val t" unfolding w_def by (rule bits(3))
  have n: "(2 :: nat) ^ n = 256 ^ k * 32768" using pow_16_bytes(1) [of k] by (simp add: n_def len)
  have mb': "(2 :: nat) ^ mb = 256 ^ k * 2 ^ (15 - ed)"
    unfolding mb by (simp add: power_add power_mult)
  have sign: "w < 2 ^ n \<longleftrightarrow> unat a < 128"
    using ieee_sign_iff [of p] len r by (simp add: w_def n_def)
  have zero: "ieee_is_zero p \<longleftrightarrow> w mod 2 ^ n = 0"
    unfolding w_def n_def by (rule ieee_is_zero_iff) (use len in auto)
  show "length (change_for_sort ed p) = length p"
    using len by (auto simp: change_for_sort_def Let_def r bits(1))
  consider "w mod 2 ^ n = 0" | "w mod 2 ^ n \<noteq> 0" "w < 2 ^ n" | "w mod 2 ^ n \<noteq> 0" "\<not> w < 2 ^ n" by blast
  then show "be_val (change_for_sort ed p) =
           (if w mod 2 ^ n = 0 then 2 ^ n
            else if w < 2 ^ n then w + 2 ^ n + 2 ^ mb else 2 * 2 ^ n - 1 - w)"
  proof cases
    case 1
    have "be_val (128 # replicate (length p - 1) (0 :: byte)) = 128 * 256 ^ (length p - 1)"
      using le_val_eq_0 [of "replicate (length p - 1) 0"] by (simp add: be_val_def le_val_append)
    also have "\<dots> = 2 ^ n" by (simp add: n len)
    finally show ?thesis using 1 zero by (simp add: change_for_sort_def)
  next
    case 2
    have a: "unat a < 128" using 2(2) sign by simp
    note ov = ieee_finite_no_overflow [OF len r mb fin a]
    then have "\<not> (a AND 128 \<noteq> 0)" using and_128_iff [of a] by linarith
    moreover have "\<not> ieee_is_zero p" using 2(1) zero by simp
    ultimately have "be_val (change_for_sort ed p) = w + 2 ^ n + 2 ^ mb"
      using ieee_pos_image(2) [OF a ed ov, of t, unfolded bits(1)]
      by (simp add: change_for_sort_def Let_def r w n mb' mult.commute) (simp add: add_mult_distrib2 mult.commute)
    then show ?thesis using 2 by simp
  next
    case 3
    have "be_val (map (\<lambda>b. b XOR 255) (rev p)) + w + 1 = 2 * 2 ^ n"
      using be_val_complement [of "rev p"] pow_16_bytes(2) [of k]
      by (simp add: w_def be_val_def n len)
    then show ?thesis
      using 3 zero sign and_128_iff [of a] by (simp add: change_for_sort_def Let_def r)
  qed
qed

text \<open>The images of finite numbers compare like the numbers.\<close>

lemma ieee_mag_sign_less:
  fixes v w N mb c :: nat
  defines "sc \<equiv> \<lambda>x. if x < N then int (ieee_mag mb (x mod N)) else - int (ieee_mag mb (x mod N))"
    and "K \<equiv> \<lambda>x. if x mod N = 0 then N else if x < N then x + N + c else 2 * N - 1 - x"
  assumes "v < 2 * N" "w < 2 * N"
  shows "sc v < sc w \<longleftrightarrow> K v < K w" "sc v = sc w \<longleftrightarrow> K v = K w"
proof -
  have md: "x mod N = (if x < N then x else x - N)" if "x < 2 * N" for x
    using that by (simp add: le_mod_geq)
  note mag = ieee_mag_less_iff [of mb]
  have pos: "0 < ieee_mag mb x \<longleftrightarrow> 0 < x" for x by (metis ieee_mag_eq_0 neq0_conv)
  have lt: "sc v < sc w \<longleftrightarrow> K v < K w" if "v < 2 * N" "w < 2 * N" for v w
    using that mag [of v w] mag [of "w - N" "v - N"] pos [of w] pos [of "v - N"] pos [of v] pos [of "w - N"]
    unfolding sc_def K_def md [OF that(1)] md [OF that(2)]
    by (cases "v < N"; cases "w < N") auto
  show "sc v < sc w \<longleftrightarrow> K v < K w" by (rule lt [OF assms(3,4)])
  show "sc v = sc w \<longleftrightarrow> K v = K w"
    using lt [OF assms(3,4)] lt [OF assms(4,3)] by (metis linorder_neq_iff order_less_irrefl)
qed

lemma change_for_sort_order:
  assumes "length p = Suc (Suc k)" "length q = Suc (Suc k)" "ed \<le> 15" "mb = 15 - ed + 8 * k"
    and "ieee_finite mb p" "ieee_finite mb q"
  shows "lexlt_in (change_for_sort ed p) (change_for_sort ed q) \<longleftrightarrow> ieee_scaled mb p < ieee_scaled mb q"
    and "change_for_sort ed p = change_for_sort ed q \<longleftrightarrow> ieee_scaled mb p = ieee_scaled mb q"
proof -
  let ?N = "2 ^ (8 * Suc (Suc k) - 1) :: nat"
  have len: "length (change_for_sort ed p) = length (change_for_sort ed q)"
    using change_for_sort_val(2) assms by simp
  have bnd: "le_val x < 2 * ?N" if "length x = Suc (Suc k)" for x
    using le_val_less [of x] pow_16_bytes [of k] that by simp
  note ord = ieee_mag_sign_less [OF bnd [OF assms(1)] bnd [OF assms(2)], of mb "2 ^ mb"]
  note val = change_for_sort_val(1) [OF assms(1,3,4,5)] change_for_sort_val(1) [OF assms(2,3,4,6)]
  show "lexlt_in (change_for_sort ed p) (change_for_sort ed q) \<longleftrightarrow> ieee_scaled mb p < ieee_scaled mb q"
    using ord(1) unfolding be_val_less_iff [OF len, symmetric] val ieee_scaled_def Let_def assms(1,2) by blast
  show "change_for_sort ed p = change_for_sort ed q \<longleftrightarrow> ieee_scaled mb p = ieee_scaled mb q"
    using ord(2) unfolding be_val_inj [OF len, symmetric] val ieee_scaled_def Let_def assms(1,2) by blast
qed

definition float_width :: "enum_field_types \<Rightarrow> nat" where
  "float_width t = (if t = MYSQL_TYPE_DOUBLE then 8 else if t = MYSQL_TYPE_FLOAT then 4 else 0)"

definition float_mant :: "enum_field_types \<Rightarrow> nat" where
  "float_mant t = (if t = MYSQL_TYPE_DOUBLE then 52 else 23)"

definition wf_float :: "mono_field_packing \<Rightarrow> field \<Rightarrow> cell \<Rightarrow> bool" where
  "wf_float fpi f c \<longleftrightarrow>
     0 < float_width (real_type f) \<and> m_max_image_len fpi = float_width (real_type f) \<and>
     length (c_img c) = float_width (real_type f) \<and> ieee_finite (float_mant (real_type f)) (c_img c)"

definition lt_float :: "field \<Rightarrow> cell \<Rightarrow> cell \<Rightarrow> bool" where
  "lt_float f a b \<longleftrightarrow>
     ieee_scaled (float_mant (real_type f)) (c_img a) < ieee_scaled (float_mant (real_type f)) (c_img b)"

definition float_exp_dig :: "enum_field_types \<Rightarrow> nat" where
  "float_exp_dig t = (if t = MYSQL_TYPE_DOUBLE then DBL_EXP_DIG else FLT_EXP_DIG)"

lemma wf_float_shape:
  assumes "wf_float fpi f c"
  obtains k where "float_width (real_type f) = Suc (Suc k)" "float_exp_dig (real_type f) \<le> 15"
    "float_mant (real_type f) = 15 - float_exp_dig (real_type f) + 8 * k"
    "pack_with_make_sort_key fpi f c = change_for_sort (float_exp_dig (real_type f)) (c_img c)"
proof (rule that [of "float_width (real_type f) - 2"])
  show "pack_with_make_sort_key fpi f c = change_for_sort (float_exp_dig (real_type f)) (c_img c)"
    using assms
    by (auto simp: wf_float_def float_width_def float_exp_dig_def pack_with_make_sort_key_def
      sort_string_def sort_string_double_def sort_string_float_def split: if_splits)
qed (use assms in \<open>auto simp: wf_float_def float_width_def float_exp_dig_def float_mant_def
       DBL_EXP_DIG_def FLT_EXP_DIG_def split: if_splits\<close>)

interpretation float_codec: key_codec "wf_float fpi f" "pack_with_make_sort_key fpi f"
  "skip_max_length fpi" "lt_float f" for fpi f
proof unfold_locales
  fix v r rest
  assume wf: "wf_float fpi f v" and r: "rd_at r (pack_with_make_sort_key fpi f v @ rest)"
  obtain k where k: "float_width (real_type f) = Suc (Suc k)" "float_exp_dig (real_type f) \<le> 15"
    "float_mant (real_type f) = 15 - float_exp_dig (real_type f) + 8 * k"
    "pack_with_make_sort_key fpi f v = change_for_sort (float_exp_dig (real_type f)) (c_img v)"
    by (rule wf_float_shape [OF wf])
  have "length (pack_with_make_sort_key fpi f v) = m_max_image_len fpi"
    using change_for_sort_val(2) [OF _ k(2,3), of "c_img v"] wf k(1,4) by (simp add: wf_float_def)
  then show "skip_max_length fpi r = Some (rd_adv (length (pack_with_make_sort_key fpi f v)) r)"
    using skip_max_length_ok [OF r] wf by (simp add: wf_float_def)
next
  fix a b
  assume wf: "wf_float fpi f a" "wf_float fpi f b"
  obtain k where k: "float_width (real_type f) = Suc (Suc k)" "float_exp_dig (real_type f) \<le> 15"
    "float_mant (real_type f) = 15 - float_exp_dig (real_type f) + 8 * k"
    "pack_with_make_sort_key fpi f a = change_for_sort (float_exp_dig (real_type f)) (c_img a)"
    by (rule wf_float_shape [OF wf(1)])
  have b: "pack_with_make_sort_key fpi f b = change_for_sort (float_exp_dig (real_type f)) (c_img b)"
    using wf_float_shape [OF wf(2)] by blast
  have "length (c_img a) = Suc (Suc k)" "length (c_img b) = Suc (Suc k)"
    using wf k(1) by (simp_all add: wf_float_def)
  note ord = change_for_sort_order [OF this k(2,3)]
  show "lexlt_in (pack_with_make_sort_key fpi f a) (pack_with_make_sort_key fpi f b)" if "lt_float f a b"
    using that wf ord(1) by (simp add: k(4) b lt_float_def wf_float_def)
  show "pack_with_make_sort_key fpi f a = pack_with_make_sort_key fpi f b"
    if "\<not> lt_float f a b" "\<not> lt_float f b a"
    using that wf ord(2) by (simp add: k(4) b lt_float_def wf_float_def)
qed

text \<open>
  Unpacking restores every finite number except the negative zero, which shares
  the image of the positive one.
\<close>

definition wf_float_exact :: "mono_field_packing \<Rightarrow> field \<Rightarrow> cell \<Rightarrow> bool" where
  "wf_float_exact fpi f c \<longleftrightarrow>
     wf_float fpi f c \<and> (ieee_is_zero (c_img c) \<longrightarrow> c_img c = replicate (length (c_img c)) 0)"

lemma split_bytes16:
  fixes x :: "16 word" and a b :: byte
  assumes "unat x = 256 * unat a + unat b"
  shows "ucast (drop_bit 8 x) = a" "ucast x = b"
proof -
  have "256 * unat (ucast (drop_bit 8 x) :: byte) + unat (ucast x :: byte) = 256 * unat a + unat b"
    unfolding join_bytes16 by (rule assms)
  moreover have "A = a' \<and> B = b'" if "256 * A + B = 256 * a' + b'" "B < 256" "b' < 256" for A B a' b' :: nat
  proof -
    have "(256 * A + B) div 256 = A" "(256 * a' + b') div 256 = a'" using that(2,3) by simp_all
    then have "A = a'" unfolding that(1) by simp
    with that(1) show ?thesis by simp
  qed
  ultimately have "unat (ucast (drop_bit 8 x) :: byte) = unat a \<and> unat (ucast x :: byte) = unat b"
    using unat_byte_less by blast
  then show "ucast (drop_bit 8 x) = a" "ucast x = b" by (simp_all add: word_unat_eq_iff)
qed

lemma change_for_sort_cases:
  assumes "\<not> ieee_is_zero p" "rev p = a # b # t"
  obtains (neg) "128 \<le> unat a" "change_for_sort ed p = map (\<lambda>b. b XOR 255) (rev p)"
  | (pos) x where "unat a < 128"
      "x = (push_bit 8 (ucast a) OR ucast b OR 32768 :: 16 word) + push_bit (16 - 1 - ed) 1"
      "change_for_sort ed p = ucast (drop_bit 8 x) # ucast x # t"
  using assms and_128_iff [of a] that by (cases "128 \<le> unat a") (simp_all add: change_for_sort_def Let_def)

lemma xor_255_twice: "map (\<lambda>b. b XOR 255) (map (\<lambda>b. b XOR 255) xs) = (xs :: bytes)"
  by (simp add: comp_def xor.assoc)

lemma add_mod_32768: "x + c < 32768 \<Longrightarrow> (x + 32768 + c) mod 32768 = x + c" for x c :: nat
  by (metis add.assoc add.commute mod_add_self2 mod_less)

text \<open>The two branches of the decoder behind the test for zero.\<close>

lemma decode_floating_neg:
  assumes "memcmp sz from zp \<noteq> 0" "from ! 0 AND 128 = 0"
  shows "decode_floating_point sz ed zp zv swap from = swap (map (\<lambda>b. b XOR 255) from)"
  using assms by (simp add: decode_floating_point_def)

lemma decode_floating_pos:
  assumes "memcmp sz (hi # lo # t) zp \<noteq> 0" "hi AND 128 \<noteq> 0"
    and "y = ((push_bit 8 (ucast hi) OR ucast lo) AND 32767 :: 16 word) - push_bit (16 - 1 - ed) 1"
  shows "decode_floating_point sz ed zp zv swap (hi # lo # t) = swap (ucast (drop_bit 8 y) # ucast y # t)"
  using assms by (simp add: decode_floating_point_def Let_def)

lemma decode_floating_nonzero:
  assumes len: "length p = Suc (Suc k)" and ed: "ed \<le> 15" and mb: "mb = 15 - ed + 8 * k"
    and fin: "ieee_finite mb p" and nz: "\<not> ieee_is_zero p"
    and swap: "\<And>xs. length xs = length p \<Longrightarrow> swap xs = rev xs"
  shows "decode_floating_point (length p) ed (128 # replicate (length p - 1) 0) zv swap (change_for_sort ed p) = p"
proof -
  obtain a b t where r: "rev p = a # b # t"
    using len by (cases "rev p"; cases "tl (rev p)") (auto dest: arg_cong [of _ _ length])
  let ?z = "128 # replicate (length p - 1) (0 :: byte)"
  have pz: "change_for_sort ed p \<noteq> ?z" "length (change_for_sort ed p) = length ?z"
  proof -
    show l: "length (change_for_sort ed p) = length ?z"
      using change_for_sort_val(2) [OF len ed mb fin] len by simp
    have "be_val ?z = 2 ^ (8 * length p - 1)"
      using le_val_eq_0 [of "replicate (length p - 1) 0"] pow_16_bytes(1) [of k]
      by (simp add: be_val_def le_val_append len)
    moreover have "p \<noteq> []" using len by auto
    then have "le_val p mod 2 ^ (8 * length p - 1) \<noteq> 0"
      using nz ieee_is_zero_iff by blast
    moreover have "(0 :: nat) < 2 ^ (8 * length p - 1)" "(0 :: nat) < 2 ^ mb" by simp_all
    moreover have "(if w mod N = 0 then N else if w < N then w + N + c else 2 * N - 1 - w) \<noteq> N"
      if "w mod N \<noteq> 0" "0 < N" "0 < c" for w N c :: nat
      using that by auto
    ultimately have "be_val (change_for_sort ed p) \<noteq> be_val ?z"
      unfolding change_for_sort_val(1) [OF len ed mb fin] by presburger
    then show "change_for_sort ed p \<noteq> ?z" by auto
  qed
  have mc: "memcmp (length p) (change_for_sort ed p) ?z \<noteq> 0"
    using memcmp_zero_iff [of "length p" "change_for_sort ed p" ?z] pz len by simp
  from nz r show ?thesis
  proof (cases rule: change_for_sort_cases [where ed = ed])
    case neg
    have "unat (a XOR 255) < 128" using neg(1) unat_byte_less [of a] unfolding unat_xor_255 by linarith
    then have "\<not> (a XOR 255) AND 128 \<noteq> 0" using and_128_iff [of "a XOR 255"] by linarith
    then have "change_for_sort ed p ! 0 AND 128 = 0" unfolding neg(2) r by simp
    then show ?thesis
      using decode_floating_neg [OF mc] swap [of "rev p"] unfolding neg(2) xor_255_twice by simp
  next
    case (pos x)
    note ov = ieee_finite_no_overflow [OF len r mb fin pos(1)]
    have x: "unat x = 256 * unat a + unat b + 32768 + 2 ^ (15 - ed)"
      unfolding pos(2) by (rule ieee_pos_image(1) [OF pos(1) ed ov])
    let ?hi = "ucast (drop_bit 8 x) :: byte" and ?lo = "ucast x :: byte"
    have "128 \<le> unat ?hi" using join_bytes16 [of x] unat_byte_less [of ?lo] x by linarith
    then have hi: "?hi AND 128 \<noteq> 0" using and_128_iff [of ?hi] by blast
    define y where "y = ((push_bit 8 (ucast ?hi) OR ucast ?lo) AND 32767 :: 16 word) - push_bit (16 - 1 - ed) 1"
    have "unat ((push_bit 8 (ucast ?hi) OR ucast ?lo) AND 32767 :: 16 word) = 256 * unat a + unat b + 2 ^ (15 - ed)"
      unfolding and_32767 or_bytes16 join_bytes16 x by (rule add_mod_32768 [OF ov])
    then have "unat y = 256 * unat a + unat b"
      unfolding y_def using unat_pow16 [of ed] by (simp add: unat_sub word_le_nat_alt)
    note ab = split_bytes16 [OF this]
    have "swap (a # b # t) = p" using swap [of "rev p"] r by simp
    then show ?thesis
      using decode_floating_pos [OF mc [unfolded pos(3)] hi y_def] unfolding pos(3) ab by simp
  qed
qed

interpretation float_unpack: unpack_codec "wf_float_exact fpi f" "dest_len (m_max_image_len fpi)"
  "pack_with_make_sort_key fpi f" "\<lambda>_. []"
  "if real_type f = MYSQL_TYPE_DOUBLE then unpack_double fpi f else unpack_float fpi f"
  same_image for fpi f
proof unfold_locales
  fix v c r rest ur urest
  let ?u = "if real_type f = MYSQL_TYPE_DOUBLE then unpack_double fpi f else unpack_float fpi f"
  let ?ed = "float_exp_dig (real_type f)" and ?n = "float_width (real_type f)"
  let ?swap = "if real_type f = MYSQL_TYPE_DOUBLE then mono_swap_double_bytes else mono_swap_float_bytes"
  let ?zp = "128 # replicate (?n - 1) 0"
  assume ex: "wf_float_exact fpi f v" and c: "dest_len (m_max_image_len fpi) c"
    and r: "rd_at r (pack_with_make_sort_key fpi f v @ rest)" and ur: "info_at ur ([] @ urest)"
  then have wf: "wf_float fpi f v" by (simp add: wf_float_exact_def)
  obtain k where k: "?n = Suc (Suc k)" "?ed \<le> 15" "float_mant (real_type f) = 15 - ?ed + 8 * k"
    "pack_with_make_sort_key fpi f v = change_for_sort ?ed (c_img v)"
    by (rule wf_float_shape [OF wf])
  have ty: "real_type f = MYSQL_TYPE_DOUBLE \<and> ?n = 8 \<or> real_type f = MYSQL_TYPE_FLOAT \<and> ?n = 4"
    using wf by (auto simp: wf_float_def float_width_def split: if_splits)
  have fin: "ieee_finite (float_mant (real_type f)) (c_img v)" and len: "length (c_img v) = Suc (Suc k)"
    and mx: "m_max_image_len fpi = ?n" and lv: "length (c_img v) = ?n"
    using wf k(1) by (simp_all add: wf_float_def)
  have u: "?u = unpack_fixed ?n (decode_floating_point ?n ?ed ?zp (replicate ?n 0) ?swap)"
    using ty by (auto simp: unpack_double_def unpack_float_def unpack_floating_point_def float_exp_dig_def
      numeral_eq_Suc)
  have swap: "?swap xs = rev xs" if "length xs = length (c_img v)" for xs
  proof -
    have "length xs = 8 \<Longrightarrow> mono_swap_double_bytes xs = rev xs" "length xs = 4 \<Longrightarrow> mono_swap_float_bytes xs = rev xs"
      using nth_list_expand(5,4) [of xs] unfolding mono_swap_double_bytes_def mono_swap_float_bytes_def
      by (metis append_Cons append_Nil rev.simps)+
    then show ?thesis using ty that lv by auto
  qed
  have dec: "decode_floating_point ?n ?ed ?zp (replicate ?n 0) ?swap (pack_with_make_sort_key fpi f v) = c_img v"
  proof (cases "ieee_is_zero (c_img v)")
    case True
    then have "c_img v = replicate ?n 0" using ex lv by (simp add: wf_float_exact_def)
    moreover have "memcmp ?n ?zp ?zp = 0" using memcmp_zero_iff [of ?n ?zp ?zp] k(1) by simp
    ultimately show ?thesis
      using True unfolding k(4) by (simp add: decode_floating_point_def change_for_sort_def)
  next
    case False
    then show ?thesis
      using decode_floating_nonzero [OF len k(2,3) fin False swap] unfolding k(4) lv by blast
  qed
  have lp: "length (pack_with_make_sort_key fpi f v) = ?n"
    unfolding k(4) change_for_sort_val(2) [OF len k(2,3) fin] by (rule lv)
  have "?u c r ur = Some (c\<lparr>c_img := c_img v\<rparr>, rd_adv ?n r, ur)"
    unfolding u using unpack_fixed_ok [OF r lp, of "decode_floating_point ?n ?ed ?zp (replicate ?n 0) ?swap" c ur]
      c k(1) lv mx unfolding dec dest_len_def by simp
  then show "\<exists>c' ur'. ?u c r ur =
       Some (c', rd_adv (length (pack_with_make_sort_key fpi f v)) r, ur') \<and>
       same_image v c' \<and> info_at ur' urest"
    using ur lp by (simp add: same_image_def)
qed

section \<open>Bit columns\<close>

definition wf_bit :: "mono_field_packing \<Rightarrow> field \<Rightarrow> cell \<Rightarrow> bool" where
  "wf_bit fpi f c \<longleftrightarrow>
     real_type f = MYSQL_TYPE_BIT \<and> 0 < m_max_image_len fpi \<and>
     m_max_image_len fpi = bytes_in_rec f + (if 0 < bit_len f then 1 else 0) \<and>
     length (c_img c) = bytes_in_rec f \<and> (0 < bit_len f \<longrightarrow> c_bits c AND mask (bit_len f) = c_bits c)"

text \<open>The number a bit column holds, most significant bits first.\<close>

definition bit_val :: "field \<Rightarrow> cell \<Rightarrow> nat" where
  "bit_val f c = be_val (if 0 < bit_len f then c_bits c # c_img c else c_img c)"

definition lt_bit :: "field \<Rightarrow> cell \<Rightarrow> cell \<Rightarrow> bool" where
  "lt_bit f a b \<longleftrightarrow> bit_val f a < bit_val f b"

definition same_bits :: "field \<Rightarrow> cell \<Rightarrow> cell \<Rightarrow> bool" where
  "same_bits f v c \<longleftrightarrow> c_img c = c_img v \<and> (0 < bit_len f \<longrightarrow> c_bits c = c_bits v)"

lemma pack_bit:
  "wf_bit fpi f c \<Longrightarrow> pack_with_make_sort_key fpi f c = (if 0 < bit_len f then c_bits c # c_img c else c_img c)"
  by (auto simp: wf_bit_def pack_with_make_sort_key_def sort_string_def sort_string_bit_def)

lemma length_pack_bit: "wf_bit fpi f c \<Longrightarrow> length (pack_with_make_sort_key fpi f c) = m_max_image_len fpi"
  by (auto simp: pack_bit) (auto simp: wf_bit_def)

interpretation bit_codec: key_codec "wf_bit fpi f" "pack_with_make_sort_key fpi f"
  "skip_max_length fpi" "lt_bit f" for fpi f
proof unfold_locales
  fix v r rest
  assume wf: "wf_bit fpi f v" and r: "rd_at r (pack_with_make_sort_key fpi f v @ rest)"
  show "skip_max_length fpi r = Some (rd_adv (length (pack_with_make_sort_key fpi f v)) r)"
    by (rule skip_max_length_ok [OF r length_pack_bit [OF wf]]) (use wf in \<open>unfold wf_bit_def, blast\<close>)
next
  fix a b assume wf: "wf_bit fpi f a" "wf_bit fpi f b"
  have len: "length (pack_with_make_sort_key fpi f a) = length (pack_with_make_sort_key fpi f b)"
    using length_pack_bit [OF wf(1)] length_pack_bit [OF wf(2)] by simp
  have val: "bit_val f x = be_val (pack_with_make_sort_key fpi f x)" if "wf_bit fpi f x" for x
    unfolding bit_val_def pack_bit [OF that] by simp
  show "lexlt_in (pack_with_make_sort_key fpi f a) (pack_with_make_sort_key fpi f b)" if "lt_bit f a b"
    using that unfolding lt_bit_def val [OF wf(1)] val [OF wf(2)] be_val_less_iff [OF len] .
  show "pack_with_make_sort_key fpi f a = pack_with_make_sort_key fpi f b"
    if "\<not> lt_bit f a b" "\<not> lt_bit f b a"
    using that be_val_inj [OF len] unfolding lt_bit_def val [OF wf(1)] val [OF wf(2)] by linarith
qed

interpretation bit_unpack: unpack_codec "wf_bit fpi f" "dest_len (bytes_in_rec f)"
  "pack_with_make_sort_key fpi f" "\<lambda>_. []" "unpack_bit fpi f" "same_bits f" for fpi f
proof unfold_locales
  fix v c r rest ur urest
  assume wf: "wf_bit fpi f v" and c: "dest_len (bytes_in_rec f) c"
    and r: "rd_at r (pack_with_make_sort_key fpi f v @ rest)" and ur: "info_at ur ([] @ urest)"
  have rd: "read_bytes (m_max_image_len fpi) r = (Some (pack_with_make_sort_key fpi f v), rd_adv (m_max_image_len fpi) r)"
    by (rule read_bytes_append [OF r length_pack_bit [OF wf]]) (use wf in \<open>unfold wf_bit_def, blast\<close>)
  show "\<exists>c' ur'. unpack_bit fpi f c r ur =
       Some (c', rd_adv (length (pack_with_make_sort_key fpi f v)) r, ur') \<and>
       same_bits f v c' \<and> info_at ur' urest"
    using wf c ur
    unfolding length_pack_bit [OF wf] unpack_bit_def rd prod.case option.case pack_bit [OF wf]
    by (cases "0 < bit_len f")
       (simp_all add: Let_def put_image_def memcpy_at_def dest_len_def same_bits_def wf_bit_def)
qed

section \<open>Properties\<close>

text \<open>
  C21. Integer key images sort like the numbers: for a column of any integer width,
  signed or unsigned, the packed image of one value precedes the image of another
  byte-wise exactly when the first number is smaller, whatever key parts follow.
\<close>

theorem integer_image_order:
  assumes "wf_integer fpi f a" "wf_integer fpi f b" "int_image_val f (c_img a) \<noteq> int_image_val f (c_img b)"
  shows "lexlt (pack_with_make_sort_key fpi f a @ s) (pack_with_make_sort_key fpi f b @ t) \<longleftrightarrow>
         int_image_val f (c_img a) < int_image_val f (c_img b)"
proof -
  have "lt_integer f a b \<or> lt_integer f b a" using assms(3) by (auto simp: lt_integer_def)
  then show ?thesis
    using integer_codec.enc_lt [OF assms(1,2)] integer_codec.enc_lt [OF assms(2,1)]
      lexlt_in_imp_lexlt lexlt_asym integer_codec.lt_asym [OF assms(1,2)]
    unfolding lt_integer_def by blast
qed

text \<open>A signed and an unsigned 32-bit column as concrete inputs.\<close>

definition example_cell :: "bytes \<Rightarrow> cell" where
  "example_cell img = \<lparr>c_null = False, c_img = img, c_blob = [], c_bits = 0\<rparr>"

definition example_field :: "enum_field_types \<Rightarrow> nat \<Rightarrow> bool \<Rightarrow> field" where
  "example_field ty len uns = \<lparr>real_type = ty, field_index = 0, field_pack_length = len,
     field_length = len, length_bytes = 0, blob_packlength = len, unsigned_flag = uns,
     real_maybe_null = False, bit_len = 0, bytes_in_rec = len, field_charset = my_charset_bin\<rparr>"

definition example_packing :: "nat \<Rightarrow> unpack_func \<Rightarrow> mono_field_packing" where
  "example_packing len u = \<lparr>m_max_image_len = len, m_unpack_data_len = 0, m_unpack_data_offset = 0,
     m_maybe_null = False, m_varchar_charset = None, m_segment_size = 0,
     m_unpack_info_uses_two_bytes = False, space_xfrm = None, space_xfrm_len = 0, space_mb_len = 0,
     m_charset_codec = None, m_unpack_info_stores_value = False, m_pack_func = Some Pack_make_sort_key,
     m_make_unpack_info_func = None, m_unpack_func = Some u, m_skip_func = Skip_max_length,
     m_keynr = 0, m_key_part = 0, m_field_idx = 1, m_Key_part_length = len\<rparr>"

lemmas example_defs = example_cell_def example_field_def example_packing_def

theorem integer_image_order_witness:
  "lexlt (pack_with_make_sort_key (example_packing 4 Unpack_integer)
            (example_field MYSQL_TYPE_LONG 4 False) (example_cell [254, 255, 255, 255]) @ [9])
         (pack_with_make_sort_key (example_packing 4 Unpack_integer)
            (example_field MYSQL_TYPE_LONG 4 False) (example_cell [7, 0, 0, 0]) @ [1])"
  using integer_image_order [of "example_packing 4 Unpack_integer" "example_field MYSQL_TYPE_LONG 4 False"
      "example_cell [254, 255, 255, 255]" "example_cell [7, 0, 0, 0]" "[9]" "[1]"]
  by (simp add: example_defs wf_integer_def int_image_val_def)



end
