(* ===== verification/Var_Format.thy ===== *)
theory Var_Format
  imports Fixed_Codec
begin

text \<open>
  The variable-length encoding of \<open>VARCHAR\<close> and \<open>VARBINARY\<close> key parts without
  space padding (\<open>pack_variable_format\<close> and its skip and unpack functions in
  \<open>storage/eloq/eloq_key_def.cc\<close>): the value is cut into segments of eight bytes,
  each followed by a flag byte that tells how much of the segment is used and
  whether another one follows.
\<close>

section \<open>Definitions\<close>

definition MONO_ESCAPE_LENGTH :: nat where "MONO_ESCAPE_LENGTH = 9"

definition MONO_ENCODED_SIZE :: "nat \<Rightarrow> nat" where
  "MONO_ENCODED_SIZE len =
     ((len + (MONO_ESCAPE_LENGTH - 2)) div (MONO_ESCAPE_LENGTH - 1)) * MONO_ESCAPE_LENGTH"

function pack_variable_format :: "bytes \<Rightarrow> bytes" where
  "pack_variable_format src =
     (let copy_len = min (MONO_ESCAPE_LENGTH - 1) (length src);
          out = take copy_len src; src' = drop copy_len src
      in if length src' = 0
         then out @ replicate (MONO_ESCAPE_LENGTH - 1 - copy_len) 0 @ [of_nat copy_len]
         else out @ [of_nat MONO_ESCAPE_LENGTH] @ pack_variable_format src')"
  by pat_completeness auto
termination
  by (relation "measure length") (auto simp: MONO_ESCAPE_LENGTH_def)

declare pack_variable_format.simps [simp del]

text \<open>\<open>buf\<close> holds the image \<open>strnxfrm\<close> makes of the value.\<close>

definition varchar_xfrm :: "mono_field_packing \<Rightarrow> field \<Rightarrow> cell \<Rightarrow> bytes" where
  "varchar_xfrm fpi f c =
     cs_strnxfrm (field_charset f) (m_max_image_len fpi) (char_length f)
       (varchar_data f c (varchar_len f c))"

definition pack_with_varchar_encoding :: "mono_field_packing \<Rightarrow> field \<Rightarrow> cell \<Rightarrow> bytes" where
  "pack_with_varchar_encoding fpi f c = pack_variable_format (varchar_xfrm fpi f c)"

text \<open>
  The number of used bytes, \<open>None\<close> for the value \<open>(uint) -1\<close>, and \<open>*done\<close>, which an
  invalid flag leaves as it was.
\<close>

definition calc_unpack_variable_format :: "byte \<Rightarrow> bool \<Rightarrow> nat option \<times> bool" where
  "calc_unpack_variable_format flag done =
     (if unat flag > MONO_ESCAPE_LENGTH then (None, done)
      else if unat flag < MONO_ESCAPE_LENGTH then (Some (unat flag), True)
      else (Some (MONO_ESCAPE_LENGTH - 1), False))"

function skip_variable_loop :: "nat \<Rightarrow> mono_string_reader \<Rightarrow> mono_string_reader option" where
  "skip_variable_loop dst_len r =
     (case read_bytes MONO_ESCAPE_LENGTH r of
        (None, _) \<Rightarrow> None
      | (Some ptr, r') \<Rightarrow>
          (case calc_unpack_variable_format (ptr ! (MONO_ESCAPE_LENGTH - 1)) False of
             (None, _) \<Rightarrow> None
           | (Some used_bytes, finished) \<Rightarrow>
               if dst_len < used_bytes then None
               else if finished then Some r'
               else skip_variable_loop (dst_len - used_bytes) r'))"
  by pat_completeness auto
termination
  by (relation "measure (\<lambda>(_, r). m_len r)")
     (auto simp: read_bytes_def rd_read_def MONO_ESCAPE_LENGTH_def split: if_splits)

declare skip_variable_loop.simps [simp del]

definition UINT_MAX :: nat where "UINT_MAX = 2 ^ 32 - 1"

definition skip_variable_length :: "field option \<Rightarrow> mono_string_reader \<Rightarrow> mono_string_reader option" where
  "skip_variable_length fo r =
     skip_variable_loop
       (case fo of None \<Rightarrow> UINT_MAX | Some f \<Rightarrow> field_pack_length f - length_bytes f) r"

fun unpack_charset_loop :: "charset_info \<Rightarrow> bytes \<Rightarrow> nat \<Rightarrow> bytes \<Rightarrow> bytes option" where
  "unpack_charset_loop cset (a # b # src) dst_len out =
     (case cs_wc_mb cset (256 * unat a + unat b) (dst_len - length out) of
        None \<Rightarrow> None
      | Some res \<Rightarrow> unpack_charset_loop cset src dst_len (out @ res))"
| "unpack_charset_loop cset _ dst_len out = Some out"

definition unpack_charset :: "charset_info \<Rightarrow> bytes \<Rightarrow> nat \<Rightarrow> bytes option" where
  "unpack_charset cset src dst_len =
     (if odd (length src) then None else unpack_charset_loop cset src dst_len [])"

text \<open>The decoding loop with the bytes produced so far.\<close>

function unpack_variable_loop ::
  "charset_info option \<Rightarrow> nat \<Rightarrow> bytes \<Rightarrow> mono_string_reader \<Rightarrow> (bytes \<times> mono_string_reader) option" where
  "unpack_variable_loop cso dst_len out r =
     (case read_bytes MONO_ESCAPE_LENGTH r of
        (None, _) \<Rightarrow> None
      | (Some ptr, r') \<Rightarrow>
          (case calc_unpack_variable_format (ptr ! (MONO_ESCAPE_LENGTH - 1)) False of
             (None, _) \<Rightarrow> None
           | (Some used_bytes, finished) \<Rightarrow>
               if dst_len < used_bytes then None
               else case (case cso of None \<Rightarrow> None
                          | Some cset \<Rightarrow>
                              if cs_number cset = COLLATION_UTF8_BIN
                              then unpack_charset cset (take used_bytes ptr) dst_len
                              else Some (take used_bytes ptr)) of
                      None \<Rightarrow> None
                    | Some bs \<Rightarrow>
                        if finished then Some (out @ bs, r')
                        else unpack_variable_loop cso (dst_len - length bs) (out @ bs) r'))"
  by pat_completeness auto
termination
  by (relation "measure (\<lambda>(_, _, _, r). m_len r)")
     (auto simp: read_bytes_def rd_read_def MONO_ESCAPE_LENGTH_def split: if_splits)

declare unpack_variable_loop.simps [simp del]

text \<open>Write the data behind the length bytes, then the length.\<close>

definition store_varchar :: "field \<Rightarrow> cell \<Rightarrow> bytes \<Rightarrow> cell option" where
  "store_varchar f c bs =
     (case memcpy_at (c_img c) (length_bytes f) bs of None \<Rightarrow> None
      | Some d \<Rightarrow> map_option (\<lambda>d'. c\<lparr>c_img := d'\<rparr>)
          (memcpy_at d 0 (store_varchar_len f (length bs))))"

definition unpack_binary_or_utf8_varchar ::
  "mono_field_packing \<Rightarrow> field \<Rightarrow> cell \<Rightarrow> mono_string_reader \<Rightarrow> mono_string_reader option \<Rightarrow> unpack_result" where
  "unpack_binary_or_utf8_varchar fpi f c r ur =
     (case unpack_variable_loop (m_varchar_charset fpi) (field_pack_length f - length_bytes f) [] r of
        None \<Rightarrow> None
      | Some (bs, r') \<Rightarrow> map_option (\<lambda>c'. (c', r', ur)) (store_varchar f c bs))"

section \<open>Segments\<close>

definition seg_pad :: "nat \<Rightarrow> bytes \<Rightarrow> bytes" where
  "seg_pad n x = take n x @ replicate (n - length x) 0"

definition seg_flag :: "bytes \<Rightarrow> byte" where
  "seg_flag x = (if length x > 8 then 9 else of_nat (length x))"

lemma length_seg_pad [simp]: "length (seg_pad n x) = n"
  by (simp add: seg_pad_def)

lemma pack_variable_segments:
  "pack_variable_format x =
     seg_pad 8 x @ [seg_flag x] @ (if length x > 8 then pack_variable_format (drop 8 x) else [])"
  by (subst pack_variable_format.simps)
     (simp add: MONO_ESCAPE_LENGTH_def seg_pad_def seg_flag_def Let_def min_def)

lemma seg_flag_calc:
  "calc_unpack_variable_format (seg_flag x) d = (Some (min 8 (length x)), length x \<le> 8)"
  by (auto simp: calc_unpack_variable_format_def seg_flag_def MONO_ESCAPE_LENGTH_def unat_of_nat_byte)

text \<open>
  Segments decide the order of the values, except that two full segments that are
  equal leave it to the rest.
\<close>

lemma seg_pad_less:
  "lexlt x y \<Longrightarrow>
   lexlt_in (seg_pad n x) (seg_pad n y) \<or>
   seg_pad n x = seg_pad n y \<and>
     (if length x \<le> n then length x < length y else n < length y \<and> lexlt (drop n x) (drop n y))"
proof (induction n arbitrary: x y)
  case 0
  then show ?case by (cases x; cases y) (auto simp: seg_pad_def)
next
  case (Suc n)
  show ?case
  proof (cases x)
    case Nil
    obtain b ys where y: "y = b # ys" using Suc.prems Nil by (cases y) auto
    have "ys = [] \<or> lexlt [] ys" by simp
    then show ?thesis
      using Suc.IH [of "[]" ys] word_gt_0 [of b] Nil y by (cases "ys = []") (auto simp: seg_pad_def)
  next
    case (Cons a xs)
    obtain b ys where y: "y = b # ys" using Suc.prems Cons by (cases y) auto
    then show ?thesis
      using Suc.IH [of xs ys] Suc.prems Cons by (auto simp: seg_pad_def split: if_splits)
  qed
qed

lemma pack_variable_less: "lexlt x y \<Longrightarrow> lexlt_in (pack_variable_format x) (pack_variable_format y)"
proof (induction x arbitrary: y rule: pack_variable_format.induct)
  case (1 x)
  consider "lexlt_in (seg_pad 8 x) (seg_pad 8 y)"
    | "seg_pad 8 x = seg_pad 8 y" "length x \<le> 8" "length x < length y"
    | "seg_pad 8 x = seg_pad 8 y" "8 < length x" "8 < length y" "lexlt (drop 8 x) (drop 8 y)"
    using seg_pad_less [OF "1.prems", of 8] by (auto split: if_splits)
  then show ?case
  proof cases
    case 1
    then show ?thesis
      unfolding pack_variable_segments [of x] pack_variable_segments [of y] by (rule lexlt_in_append)
  next
    case 2
    then have "seg_flag x < seg_flag y"
      by (auto simp: seg_flag_def byte_less_of_nat_iff word_less_nat_alt unat_of_nat_byte)
    then show ?thesis
      unfolding pack_variable_segments [of x] pack_variable_segments [of y] 2(1) by simp
  next
    case 3
    have "lexlt_in (pack_variable_format (drop 8 x)) (pack_variable_format (drop 8 y))"
      using "1.IH" [of 8 "take 8 x" "drop 8 x" "drop 8 y"] 3 by (simp add: MONO_ESCAPE_LENGTH_def)
    then show ?thesis
      unfolding pack_variable_segments [of x] pack_variable_segments [of y] 3(1)
      using 3(2,3) by (simp add: seg_flag_def)
  qed
qed

section \<open>Delimiting and decoding\<close>

lemma segment_read:
  assumes "rd_at r (pack_variable_format x @ rest)"
  shows "read_bytes 9 r = (Some (seg_pad 8 x @ [seg_flag x]), rd_adv 9 r)"
    and "rd_at (rd_adv 9 r) ((if length x > 8 then pack_variable_format (drop 8 x) else []) @ rest)"
proof -
  have r: "rd_at r ((seg_pad 8 x @ [seg_flag x]) @
             (if length x > 8 then pack_variable_format (drop 8 x) else []) @ rest)"
    using assms unfolding pack_variable_segments [of x] by simp
  show "read_bytes 9 r = (Some (seg_pad 8 x @ [seg_flag x]), rd_adv 9 r)"
    by (rule read_bytes_append [OF r]) simp_all
  show "rd_at (rd_adv 9 r) ((if length x > 8 then pack_variable_format (drop 8 x) else []) @ rest)"
    by (rule rd_at_adv_append [OF r]) simp
qed

lemma length_pack_variable_rec:
  "length (pack_variable_format x) = 9 + (if length x > 8 then length (pack_variable_format (drop 8 x)) else 0)"
  by (subst pack_variable_segments) simp

lemma skip_variable_pack:
  "rd_at r (pack_variable_format x @ rest) \<Longrightarrow> length x \<le> dst_len \<Longrightarrow>
   skip_variable_loop dst_len r = Some (rd_adv (length (pack_variable_format x)) r)"
proof (induction x arbitrary: dst_len r rule: pack_variable_format.induct)
  case (1 x)
  note rd = segment_read [OF "1.prems"(1)]
  show ?case
  proof (cases "length x \<le> 8")
    case True
    then show ?thesis
      using rd(1) "1.prems"(2)
      by (simp add: skip_variable_loop.simps [of dst_len r] MONO_ESCAPE_LENGTH_def nth_append
        seg_flag_calc length_pack_variable_rec [of x])
  next
    case False
    then have "skip_variable_loop (dst_len - 8) (rd_adv 9 r) =
        Some (rd_adv (length (pack_variable_format (drop 8 x))) (rd_adv 9 r))"
      using "1.IH" [of 8 "take 8 x" "drop 8 x" "rd_adv 9 r" "dst_len - 8"] rd(2) "1.prems"(2)
      by (simp add: MONO_ESCAPE_LENGTH_def)
    then show ?thesis
      using rd(1) "1.prems"(2) False
      by (simp add: skip_variable_loop.simps [of dst_len r] MONO_ESCAPE_LENGTH_def nth_append
        seg_flag_calc length_pack_variable_rec [of x])
  qed
qed

lemma length_pack_variable:
  "length (pack_variable_format x) = (if x = [] then 9 else MONO_ENCODED_SIZE (length x))"
proof (induction x rule: pack_variable_format.induct)
  case (1 x)
  show ?case
  proof (cases "length x \<le> 8")
    case True
    then have "x \<noteq> [] \<Longrightarrow> (length x + 7) div 8 = 1"
      by (intro div_nat_eqI) (auto simp: Suc_le_eq)
    then show ?thesis
      using True by (simp add: length_pack_variable_rec [of x] MONO_ENCODED_SIZE_def MONO_ESCAPE_LENGTH_def)
  next
    case False
    then have "length (pack_variable_format (drop 8 x)) = MONO_ENCODED_SIZE (length x - 8)"
      using "1.IH" [of 8 "take 8 x" "drop 8 x"] by (simp add: MONO_ESCAPE_LENGTH_def)
    moreover obtain m where m: "length x = m + 8"
      using False by (metis le_add_diff_inverse2 nat_le_linear)
    have "(m + 7 + 8) div 8 = (m + 7) div 8 + 1" by (rule div_add_self2) simp
    then have "(length x + 7) div 8 = Suc ((length x - 8 + 7) div 8)" by (simp add: m)
    ultimately show ?thesis
      using False by (simp add: length_pack_variable_rec [of x] MONO_ENCODED_SIZE_def MONO_ESCAPE_LENGTH_def)
  qed
qed

text \<open>Outside utf8 the bytes of the segments are the value.\<close>

lemma unpack_variable_pack:
  "rd_at r (pack_variable_format x @ rest) \<Longrightarrow> length x \<le> dst_len \<Longrightarrow>
   cs_number cs \<noteq> COLLATION_UTF8_BIN \<Longrightarrow>
   unpack_variable_loop (Some cs) dst_len out r = Some (out @ x, rd_adv (length (pack_variable_format x)) r)"
proof (induction x arbitrary: dst_len r out rule: pack_variable_format.induct)
  case (1 x)
  note rd = segment_read [OF "1.prems"(1)]
  show ?case
  proof (cases "length x \<le> 8")
    case True
    then show ?thesis
      using rd(1) "1.prems"(2,3)
      by (simp add: unpack_variable_loop.simps [of "Some cs" dst_len out r] MONO_ESCAPE_LENGTH_def nth_append
        seg_flag_calc length_pack_variable_rec [of x] seg_pad_def)
  next
    case False
    then have "unpack_variable_loop (Some cs) (dst_len - 8) (out @ take 8 x) (rd_adv 9 r) =
        Some ((out @ take 8 x) @ drop 8 x, rd_adv (length (pack_variable_format (drop 8 x))) (rd_adv 9 r))"
      using "1.IH" [of 8 "take 8 x" "drop 8 x" "rd_adv 9 r" "dst_len - 8" "out @ take 8 x"] rd(2) "1.prems"(2,3)
      by (simp add: MONO_ESCAPE_LENGTH_def)
    then show ?thesis
      using rd(1) "1.prems"(2,3) False
      by (simp add: unpack_variable_loop.simps [of "Some cs" dst_len out r] MONO_ESCAPE_LENGTH_def nth_append
        seg_flag_calc length_pack_variable_rec [of x] seg_pad_def)
  qed
qed

section \<open>The codec\<close>

definition varchar_cap :: "field \<Rightarrow> nat" where
  "varchar_cap f = field_pack_length f - length_bytes f"

text \<open>A \<open>VARCHAR\<close> column value in record format: length bytes, data, unused space.\<close>

definition wf_varchar_cell :: "field \<Rightarrow> cell \<Rightarrow> bool" where
  "wf_varchar_cell f c \<longleftrightarrow>
     real_type f = MYSQL_TYPE_VARCHAR \<and> (length_bytes f = 1 \<or> length_bytes f = 2) \<and>
     length_bytes f \<le> field_pack_length f \<and> length (c_img c) = field_pack_length f \<and>
     varchar_len f c \<le> varchar_cap f"

definition wf_varchar :: "mono_field_packing \<Rightarrow> field \<Rightarrow> cell \<Rightarrow> bool" where
  "wf_varchar fpi f c \<longleftrightarrow> wf_varchar_cell f c \<and>
     length (varchar_xfrm fpi f c) \<le> varchar_cap f \<and> varchar_cap f \<le> UINT_MAX"

definition lt_varchar :: "mono_field_packing \<Rightarrow> field \<Rightarrow> cell \<Rightarrow> cell \<Rightarrow> bool" where
  "lt_varchar fpi f a b \<longleftrightarrow> lexlt (varchar_xfrm fpi f a) (varchar_xfrm fpi f b)"

text \<open>Two cells that hold the same value up to the bytes behind it.\<close>

definition same_varchar :: "field \<Rightarrow> cell \<Rightarrow> cell \<Rightarrow> bool" where
  "same_varchar f v c \<longleftrightarrow>
     take (length_bytes f + varchar_len f v) (c_img c) = take (length_bytes f + varchar_len f v) (c_img v)"

lemma skip_varchar_pack:
  assumes "fo = None \<or> fo = Some f" "wf_varchar fpi f v" "rd_at r (pack_with_varchar_encoding fpi f v @ rest)"
  shows "skip_variable_length fo r = Some (rd_adv (length (pack_with_varchar_encoding fpi f v)) r)"
  using assms
  by (auto simp: skip_variable_length_def pack_with_varchar_encoding_def wf_varchar_def varchar_cap_def
    intro: skip_variable_pack)

interpretation varchar_codec: key_codec "\<lambda>c. (fo = None \<or> fo = Some f) \<and> wf_varchar fpi f c"
  "pack_with_varchar_encoding fpi f" "skip_variable_length fo" "lt_varchar fpi f" for fo fpi f
proof unfold_locales
  fix v r rest
  assume "(fo = None \<or> fo = Some f) \<and> wf_varchar fpi f v"
    and "rd_at r (pack_with_varchar_encoding fpi f v @ rest)"
  then show "skip_variable_length fo r = Some (rd_adv (length (pack_with_varchar_encoding fpi f v)) r)"
    using skip_varchar_pack by blast
next
  fix a b
  show "lexlt_in (pack_with_varchar_encoding fpi f a) (pack_with_varchar_encoding fpi f b)"
    if "lt_varchar fpi f a b"
    using that pack_variable_less by (simp add: lt_varchar_def pack_with_varchar_encoding_def)
  show "pack_with_varchar_encoding fpi f a = pack_with_varchar_encoding fpi f b"
    if "\<not> lt_varchar fpi f a b" "\<not> lt_varchar fpi f b a"
    using that lexlt_total [of "varchar_xfrm fpi f a" "varchar_xfrm fpi f b"]
    unfolding lt_varchar_def pack_with_varchar_encoding_def by metis
qed

lemma store_varchar_ok:
  assumes "wf_varchar_cell f v" "dest_len (field_pack_length f) c"
  obtains c' where "store_varchar f c (varchar_data f v (varchar_len f v)) = Some c'" "same_varchar f v c'"
    "dest_len (field_pack_length f) c'"
proof -
  let ?lb = "length_bytes f" and ?n = "varchar_len f v" and ?d = "varchar_data f v (varchar_len f v)"
  have lb: "?lb = 1 \<or> ?lb = 2" and len: "length (c_img v) = field_pack_length f" "length (c_img c) = field_pack_length f"
    and fit: "?lb + ?n \<le> field_pack_length f"
    using assms by (auto simp: wf_varchar_cell_def dest_len_def varchar_cap_def)
  have d: "length ?d = ?n" using fit len by (simp add: varchar_data_def)
  have hd: "store_varchar_len f ?n = take ?lb (c_img v)"
    using store_varchar_len_len [OF lb] fit len by simp
  have "store_varchar f c ?d = Some (c\<lparr>c_img := take ?lb (c_img v) @ ?d @ drop (?lb + ?n) (c_img c)\<rparr>)"
    using fit len d hd by (simp add: store_varchar_def memcpy_at_def)
  moreover have "take ?lb (c_img v) @ ?d = take (?lb + ?n) (c_img v)"
    by (simp add: varchar_data_def take_add)
  ultimately show thesis
    using that fit len d by (simp add: same_varchar_def dest_len_def)
qed

text \<open>
  \<open>VARBINARY\<close>: \<open>strnxfrm\<close> of the binary collation keeps the value, and unpacking
  restores it.
\<close>

definition wf_varbinary :: "mono_field_packing \<Rightarrow> field \<Rightarrow> cell \<Rightarrow> bool" where
  "wf_varbinary fpi f c \<longleftrightarrow> wf_varchar fpi f c \<and>
     varchar_xfrm fpi f c = varchar_data f c (varchar_len f c) \<and>
     (case m_varchar_charset fpi of None \<Rightarrow> False | Some cs \<Rightarrow> cs_number cs \<noteq> COLLATION_UTF8_BIN)"

interpretation varbinary_unpack: unpack_codec "wf_varbinary fpi f" "dest_len (field_pack_length f)"
  "pack_with_varchar_encoding fpi f" "\<lambda>_. []" "unpack_binary_or_utf8_varchar fpi f" "same_varchar f" for fpi f
proof unfold_locales
  fix v c r rest ur urest
  assume wf: "wf_varbinary fpi f v" and c: "dest_len (field_pack_length f) c"
    and r: "rd_at r (pack_with_varchar_encoding fpi f v @ rest)" and ur: "info_at ur ([] @ urest)"
  let ?x = "varchar_data f v (varchar_len f v)"
  obtain cs where cs: "m_varchar_charset fpi = Some cs" "cs_number cs \<noteq> COLLATION_UTF8_BIN"
    using wf by (auto simp: wf_varbinary_def split: option.splits)
  have x: "varchar_xfrm fpi f v = ?x" "length ?x \<le> varchar_cap f" and cell: "wf_varchar_cell f v"
    using wf by (auto simp: wf_varbinary_def wf_varchar_def)
  obtain c' where c': "store_varchar f c ?x = Some c'" "same_varchar f v c'"
    by (rule store_varchar_ok [OF cell c])
  have "unpack_variable_loop (Some cs) (varchar_cap f) [] r = Some (?x, rd_adv (length (pack_variable_format ?x)) r)"
    using unpack_variable_pack [OF _ x(2) cs(2), of r rest "[]"] r x(1)
    by (simp add: pack_with_varchar_encoding_def)
  then show "\<exists>c' ur'. unpack_binary_or_utf8_varchar fpi f c r ur =
       Some (c', rd_adv (length (pack_with_varchar_encoding fpi f v)) r, ur') \<and>
       same_varchar f v c' \<and> info_at ur' urest"
    using c' ur cs(1) x(1)
    by (simp add: unpack_binary_or_utf8_varchar_def varchar_cap_def pack_with_varchar_encoding_def)
qed

text \<open>
  C17. The variable-length encoding preserves order: for any two byte strings and
  whatever bytes follow their encodings, the encodings compare byte-wise as the
  strings do, and the following bytes decide exactly when the strings are equal.
\<close>

theorem variable_format_order:
  "lexlt (pack_variable_format x @ s) (pack_variable_format y @ t) \<longleftrightarrow> lexlt x y \<or> x = y \<and> lexlt s t"
proof -
  consider "lexlt x y" | "lexlt y x" | "x = y" using lexlt_total by blast
  then show ?thesis
  proof cases
    case 1
    then show ?thesis using lexlt_in_imp_lexlt [OF pack_variable_less] by blast
  next
    case 2
    then have "lexlt (pack_variable_format y @ t) (pack_variable_format x @ s)"
      using lexlt_in_imp_lexlt [OF pack_variable_less] by blast
    with 2 show ?thesis using lexlt_asym by blast
  qed simp
qed



end
