(* ===== verification/Space_Pad.thy ===== *)
theory Space_Pad
  imports Var_Format
begin

text \<open>
  The variable-length space-padded encoding of \<open>VARCHAR\<close> key parts
  (\<open>pack_with_varchar_space_pad\<close> and its skip and unpack functions in
  \<open>storage/eloq/eloq_key_def.cc\<close>), used by every collation with the PAD SPACE
  attribute. A segment ends with a byte that tells how the rest of the value
  compares with an endless run of spaces. The order part holds for every
  collation whose images are whole multiples of the image of a space; the round
  trip is proved for the one-byte, two-byte and three-byte code-point images.
\<close>

section \<open>Definitions\<close>

definition VARCHAR_CMP_LESS_THAN_SPACES :: byte where "VARCHAR_CMP_LESS_THAN_SPACES = 1"
definition VARCHAR_CMP_EQUAL_TO_SPACES :: byte where "VARCHAR_CMP_EQUAL_TO_SPACES = 2"
definition VARCHAR_CMP_GREATER_THAN_SPACES :: byte where "VARCHAR_CMP_GREATER_THAN_SPACES = 3"

lemmas varchar_cmp_defs =
  VARCHAR_CMP_LESS_THAN_SPACES_def VARCHAR_CMP_EQUAL_TO_SPACES_def VARCHAR_CMP_GREATER_THAN_SPACES_def

definition mono_TRIMMED_CHARS_OFFSET :: nat where "mono_TRIMMED_CHARS_OFFSET = 8"

text \<open>With an empty sample of spaces the source's loop does not end: \<open>None\<close>.\<close>

function mono_compare_string_with_spaces :: "bytes \<Rightarrow> bytes \<Rightarrow> int option" where
  "mono_compare_string_with_spaces buf spaces =
     (if buf = [] then Some 0
      else if spaces = [] then None
      else let n = min (length buf) (length spaces); cmp = memcmp n buf spaces
           in if cmp \<noteq> 0 then Some cmp
              else mono_compare_string_with_spaces (drop n buf) spaces)"
  by pat_completeness auto
termination
  by (relation "measure (\<lambda>(buf, _). length buf)") auto

declare mono_compare_string_with_spaces.simps [simp del]

text \<open>
  The loop of \<open>pack_with_varchar_space_pad\<close>: the bytes written and the padding of
  the last segment. \<open>None\<close>: the source reads behind its sample of spaces, or its
  loop does not end because a segment has no room for data.
\<close>

function space_pad_loop :: "nat \<Rightarrow> bytes \<Rightarrow> bytes \<Rightarrow> (bytes \<times> nat) option" where
  "space_pad_loop seg_size spaces buf =
     (let copy_len = min (seg_size - 1) (length buf);
          padding_bytes = seg_size - 1 - copy_len;
          out = take copy_len buf; buf' = drop copy_len buf
      in if 0 < padding_bytes
         then (if length spaces < padding_bytes then None
               else Some (out @ take padding_bytes spaces @ [VARCHAR_CMP_EQUAL_TO_SPACES], padding_bytes))
         else (case mono_compare_string_with_spaces buf' spaces of None \<Rightarrow> None
               | Some cmp \<Rightarrow>
                   if cmp = 0 then Some (out @ [VARCHAR_CMP_EQUAL_TO_SPACES], padding_bytes)
                   else if copy_len = 0 then None
                   else map_option (\<lambda>(enc, pad). (out @ [if cmp < 0 then VARCHAR_CMP_LESS_THAN_SPACES
                                                   else VARCHAR_CMP_GREATER_THAN_SPACES] @ enc, pad))
                          (space_pad_loop seg_size spaces buf')))"
  by pat_completeness auto
termination
  by (relation "measure (\<lambda>(_, _, buf). length buf)") auto

declare space_pad_loop.simps [simp del]

definition varchar_trimmed_len :: "field \<Rightarrow> cell \<Rightarrow> nat" where
  "varchar_trimmed_len f c = cs_lengthsp (field_charset f) (varchar_data f c (varchar_len f c))"

definition space_pad_xfrm :: "mono_field_packing \<Rightarrow> field \<Rightarrow> cell \<Rightarrow> bytes" where
  "space_pad_xfrm fpi f c =
     cs_strnxfrm (field_charset f) (m_max_image_len fpi) (char_length f)
       (varchar_data f c (varchar_trimmed_len f c))"

text \<open>\<open>removed_chars\<close> is a \<open>size_t\<close> and is cut to one or two bytes when written.\<close>

definition space_pad_removed :: "mono_field_packing \<Rightarrow> nat \<Rightarrow> nat \<Rightarrow> nat" where
  "space_pad_removed fpi trimmed_bytes padding_bytes =
     (mono_TRIMMED_CHARS_OFFSET + trimmed_bytes div space_mb_len fpi +
       (2 ^ 64 - padding_bytes div space_xfrm_len fpi)) mod 2 ^ 64"

definition pack_with_varchar_space_pad ::
  "mono_field_packing \<Rightarrow> field \<Rightarrow> cell \<Rightarrow> mono_string_writer option \<Rightarrow>
   (bytes \<times> mono_string_writer option) option" where
  "pack_with_varchar_space_pad fpi f c unpack_info =
     (case space_xfrm fpi of None \<Rightarrow> None
      | Some sp \<Rightarrow>
        (case space_pad_loop (m_segment_size fpi) sp (space_pad_xfrm fpi f c) of None \<Rightarrow> None
         | Some (enc, padding_bytes) \<Rightarrow>
             (case unpack_info of
                None \<Rightarrow> Some (enc, None)
              | Some w \<Rightarrow>
                  if m_unpack_info_stores_value fpi then Some (enc, Some w)
                  else if space_mb_len fpi = 0 \<or> space_xfrm_len fpi = 0 then None
                  else let removed_chars =
                             space_pad_removed fpi (varchar_len f c - varchar_trimmed_len f c) padding_bytes
                       in Some (enc, Some (if m_unpack_info_uses_two_bytes fpi
                                           then write_uint16 removed_chars w
                                           else write_uint8 removed_chars w)))))"

text \<open>The skip loop; a segment of no bytes has no last byte.\<close>

function skip_space_pad_loop :: "nat \<Rightarrow> nat \<Rightarrow> mono_string_reader \<Rightarrow> mono_string_reader option" where
  "skip_space_pad_loop seg_size dst_len r =
     (if seg_size = 0 then None
      else case read_bytes seg_size r of
        (None, _) \<Rightarrow> None
      | (Some ptr, r') \<Rightarrow>
          let c = ptr ! (seg_size - 1)
          in if c = VARCHAR_CMP_EQUAL_TO_SPACES then Some r'
             else if c = VARCHAR_CMP_LESS_THAN_SPACES \<or> c = VARCHAR_CMP_GREATER_THAN_SPACES
             then (if dst_len < seg_size - 1 then None
                   else skip_space_pad_loop seg_size (dst_len - (seg_size - 1)) r')
             else None)"
  by pat_completeness auto
termination
  by (relation "measure (\<lambda>(_, _, r). m_len r)")
     (auto simp: read_bytes_def rd_read_def split: if_splits)

declare skip_space_pad_loop.simps [simp del]

definition skip_variable_space_pad ::
  "mono_field_packing \<Rightarrow> field option \<Rightarrow> mono_string_reader \<Rightarrow> mono_string_reader option" where
  "skip_variable_space_pad fpi fo r =
     skip_space_pad_loop (m_segment_size fpi)
       (case fo of None \<Rightarrow> UINT_MAX | Some f \<Rightarrow> field_pack_length f - length_bytes f) r"

text \<open>
  Unpacking. The template argument \<open>bytes\<close> is 1 for one-byte collations, 2 for
  utf8 and 3 for utf8mb4.
\<close>

definition check_src_len :: "nat \<Rightarrow> nat \<Rightarrow> bool" where
  "check_src_len bytes src_len =
     (if bytes = 2 then even src_len else if bytes = 3 then src_len mod 3 = 0 else True)"

definition src_wc :: "nat \<Rightarrow> bytes \<Rightarrow> nat" where
  "src_wc bytes src =
     (if bytes = 3 then 65536 * unat (src ! 0) + 256 * unat (src ! 1) + unat (src ! 2)
      else 256 * unat (src ! 0) + unat (src ! 1))"

text \<open>
  Decode code points behind the bytes \<open>out\<close> of a destination of \<open>cap\<close> bytes. A
  code point that encodes to more than \<open>bytes + 1\<close> bytes aborts the server.
\<close>

function unpack_wc_loop :: "nat \<Rightarrow> charset_info \<Rightarrow> nat \<Rightarrow> bytes \<Rightarrow> bytes \<Rightarrow> bytes option" where
  "unpack_wc_loop bytes cset cap src out =
     (if src = [] \<or> bytes = 0 then Some out
      else case cs_wc_mb cset (src_wc bytes src) (cap - length out) of
        None \<Rightarrow> None
      | Some res \<Rightarrow>
          if res = [] \<or> bytes + 1 < length res then None
          else unpack_wc_loop bytes cset cap (drop bytes src) (out @ res))"
  by pat_completeness auto
termination
  by (relation "measure (\<lambda>(_, _, _, src, _). length src)") auto

declare unpack_wc_loop.simps [simp del]

definition unpack_segment ::
  "nat \<Rightarrow> charset_info option \<Rightarrow> nat \<Rightarrow> bytes \<Rightarrow> bytes \<Rightarrow> bytes option" where
  "unpack_segment bytes cso cap src out =
     (if 1 < bytes
      then (if \<not> check_src_len bytes (length src) then None
            else case cso of None \<Rightarrow> None | Some cset \<Rightarrow> unpack_wc_loop bytes cset cap src out)
      else if cap < length out + length src then None else Some (out @ src))"

function unpack_space_pad_loop ::
  "nat \<Rightarrow> nat \<Rightarrow> charset_info option \<Rightarrow> nat \<Rightarrow> nat \<Rightarrow> bytes \<Rightarrow> mono_string_reader \<Rightarrow>
   (bytes \<times> mono_string_reader) option" where
  "unpack_space_pad_loop bytes seg_size cso cap space_padding_bytes out r =
     (if seg_size = 0 then None
      else case read_bytes seg_size r of
        (None, _) \<Rightarrow> None
      | (Some ptr, r') \<Rightarrow>
          let last_byte = ptr ! (seg_size - 1)
          in if last_byte = VARCHAR_CMP_EQUAL_TO_SPACES
             then (if seg_size - 1 < space_padding_bytes then None
                   else map_option (\<lambda>out'. (out', r'))
                     (unpack_segment bytes cso cap (take (seg_size - 1 - space_padding_bytes) ptr) out))
             else if last_byte \<noteq> VARCHAR_CMP_LESS_THAN_SPACES \<and> last_byte \<noteq> VARCHAR_CMP_GREATER_THAN_SPACES
             then None
             else (case unpack_segment bytes cso cap (take (seg_size - 1) ptr) out of
                     None \<Rightarrow> None
                   | Some out' \<Rightarrow> unpack_space_pad_loop bytes seg_size cso cap space_padding_bytes out' r'))"
  by pat_completeness auto
termination
  by (relation "measure (\<lambda>(_, _, _, _, _, _, r). m_len r)")
     (auto simp: read_bytes_def rd_read_def split: if_splits)

declare unpack_space_pad_loop.simps [simp del]

text \<open>The stored number as the padding to cut, in bytes, and the spaces to add.\<close>

definition space_counts :: "mono_field_packing \<Rightarrow> nat \<Rightarrow> nat \<times> nat" where
  "space_counts fpi extra_spaces =
     (if extra_spaces \<le> mono_TRIMMED_CHARS_OFFSET
      then ((mono_TRIMMED_CHARS_OFFSET - extra_spaces) * space_xfrm_len fpi, 0)
      else (0, extra_spaces - mono_TRIMMED_CHARS_OFFSET))"

definition read_extra_spaces ::
  "mono_field_packing \<Rightarrow> mono_string_reader \<Rightarrow> nat option \<times> mono_string_reader" where
  "read_extra_spaces fpi u = (if m_unpack_info_uses_two_bytes fpi then read_uint16 u else read_uint8 u)"

text \<open>Append the extra spaces to the decoded bytes and store the value.\<close>

definition store_spaces :: "mono_field_packing \<Rightarrow> field \<Rightarrow> cell \<Rightarrow> nat \<Rightarrow> bytes \<Rightarrow> cell option" where
  "store_spaces fpi f c extra_spaces out =
     (if extra_spaces = 0 then store_varchar f c out
      else if field_pack_length f - length_bytes f < length out + extra_spaces then None
      else case m_varchar_charset fpi of None \<Rightarrow> None
           | Some cs \<Rightarrow> store_varchar f c (out @ replicate extra_spaces (cs_pad_char cs)))"

definition unpack_binary_or_utf8_varchar_space_pad ::
  "nat \<Rightarrow> mono_field_packing \<Rightarrow> field \<Rightarrow> cell \<Rightarrow> mono_string_reader \<Rightarrow> mono_string_reader option \<Rightarrow>
   unpack_result" where
  "unpack_binary_or_utf8_varchar_space_pad bytes fpi f c r ur =
     (case ur of None \<Rightarrow> None
      | Some u \<Rightarrow>
        (case read_extra_spaces fpi u of (None, _) \<Rightarrow> None
         | (Some e, u') \<Rightarrow>
           (case space_counts fpi e of (space_padding_bytes, extra_spaces) \<Rightarrow>
             (case unpack_space_pad_loop bytes (m_segment_size fpi) (m_varchar_charset fpi)
                     (field_pack_length f - length_bytes f) space_padding_bytes [] r of
                None \<Rightarrow> None
              | Some (out, r') \<Rightarrow>
                  map_option (\<lambda>c'. (c', r', Some u')) (store_spaces fpi f c extra_spaces out)))))"

section \<open>Endless padding\<close>

text \<open>
  \<open>pads u x\<close> is \<open>x\<close> followed by an endless run of the image \<open>u\<close> of a space, and
  \<open>seq_lt\<close> compares two such sequences. \<open>pad_lt\<close> is the PAD SPACE comparison: the
  shorter image is extended with spaces to the length of the longer one.
\<close>

definition pads :: "bytes \<Rightarrow> bytes \<Rightarrow> nat \<Rightarrow> byte" where
  "pads u x i = (if i < length x then x ! i else u ! (i mod length u))"

definition seq_lt :: "(nat \<Rightarrow> byte) \<Rightarrow> (nat \<Rightarrow> byte) \<Rightarrow> bool" where
  "seq_lt f g \<longleftrightarrow> (\<exists>i. f i < g i \<and> (\<forall>j<i. f j = g j))"

definition pad_lt :: "bytes \<Rightarrow> bytes \<Rightarrow> bytes \<Rightarrow> bool" where
  "pad_lt u x y =
     (let n = max (length x) (length y) in lexlt_in (map (pads u x) [0..<n]) (map (pads u y) [0..<n]))"

lemma seq_lt_irrefl [simp]: "\<not> seq_lt f f"
  by (simp add: seq_lt_def)

lemma seq_lt_asym: "seq_lt f g \<Longrightarrow> \<not> seq_lt g f"
  unfolding seq_lt_def by (metis less_asym linorder_neqE_nat)

lemma seq_lt_total:
  assumes "f \<noteq> g"
  shows "seq_lt f g \<or> seq_lt g f"
proof -
  obtain i where "f i \<noteq> g i" "\<forall>j<i. f j = g j"
    using assms exists_least_iff [of "\<lambda>i. f i \<noteq> g i"] by (auto simp: fun_eq_iff)
  then show ?thesis
    unfolding seq_lt_def using less_linear [of "f i" "g i"] by metis
qed

lemma seq_lt_trans: "seq_lt f g \<Longrightarrow> seq_lt g h \<Longrightarrow> seq_lt f h"
proof -
  assume "seq_lt f g" "seq_lt g h"
  then obtain i k where i: "f i < g i" "\<And>j. j < i \<Longrightarrow> f j = g j" and k: "g k < h k" "\<And>j. j < k \<Longrightarrow> g j = h j"
    unfolding seq_lt_def by blast
  consider "i < k" | "i = k" | "k < i" by linarith
  then show ?thesis
  proof cases
    case 1
    then have "f i < h i \<and> (\<forall>j<i. f j = h j)" using i k by (metis less_trans)
    then show ?thesis unfolding seq_lt_def by blast
  next
    case 2
    then have "f i < h i \<and> (\<forall>j<i. f j = h j)" using i k by (metis less_trans)
    then show ?thesis unfolding seq_lt_def by blast
  next
    case 3
    then have "f k < h k \<and> (\<forall>j<k. f j = h j)" using i k by (metis less_trans)
    then show ?thesis unfolding seq_lt_def by blast
  qed
qed

lemma lexlt_in_map_iff:
  "lexlt_in (map f [0..<n]) (map g [0..<n]) \<longleftrightarrow> (\<exists>i<n. f i < g i \<and> (\<forall>j<i. f j = g j))"
proof (induction n)
  case (Suc n)
  have eq: "map f [0..<n] = map g [0..<n] \<longleftrightarrow> (\<forall>j<n. f j = g j)" by auto
  show ?case
    using Suc eq lexlt_in_append_eq_length [of "map f [0..<n]" "map g [0..<n]" "[f n]" "[g n]"]
    by (auto simp: less_Suc_eq)
qed simp

text \<open>The first \<open>n\<close> bytes decide, or the rest does.\<close>

lemma seq_lt_split:
  "seq_lt f g \<longleftrightarrow>
   lexlt_in (map f [0..<n]) (map g [0..<n]) \<or>
   map f [0..<n] = map g [0..<n] \<and> seq_lt (\<lambda>i. f (n + i)) (\<lambda>i. g (n + i))"
  (is "?L \<longleftrightarrow> ?A \<or> ?B")
proof
  assume ?L
  then obtain i where i: "f i < g i" "\<forall>j<i. f j = g j" unfolding seq_lt_def by blast
  show "?A \<or> ?B"
  proof (cases "i < n")
    case True
    then show ?thesis using i lexlt_in_map_iff by blast
  next
    case False
    then have "f (n + (i - n)) < g (n + (i - n)) \<and> (\<forall>j<i - n. f (n + j) = g (n + j))" using i by auto
    then have "seq_lt (\<lambda>i. f (n + i)) (\<lambda>i. g (n + i))" unfolding seq_lt_def by blast
    then show ?thesis using i(2) False by auto
  qed
next
  assume "?A \<or> ?B"
  then show ?L
  proof
    assume ?A
    then show ?L unfolding seq_lt_def lexlt_in_map_iff by blast
  next
    assume B: ?B
    then have eq: "\<forall>j<n. f j = g j" by auto
    from B obtain i where i: "f (n + i) < g (n + i)" "\<forall>j<i. f (n + j) = g (n + j)"
      unfolding seq_lt_def by blast
    have "\<forall>j<n + i. f j = g j"
    proof (intro allI impI)
      fix j assume "j < n + i"
      then show "f j = g j" using eq i(2) by (cases "j < n") (auto dest: spec [of _ "j - n"])
    qed
    then show ?L using i(1) unfolding seq_lt_def by blast
  qed
qed

lemma pad_lt_iff: "pad_lt u x y \<longleftrightarrow> seq_lt (pads u x) (pads u y)"
proof -
  let ?n = "max (length x) (length y)"
  have "(\<lambda>i. pads u x (?n + i)) = (\<lambda>i. pads u y (?n + i))" by (auto simp: pads_def fun_eq_iff)
  then show ?thesis
    unfolding pad_lt_def Let_def using seq_lt_split [of "pads u x" "pads u y" ?n] by simp
qed

lemma pads_shift:
  assumes "length u dvd n"
  shows "(\<lambda>i. pads u x (n + i)) = pads u (drop n x)"
proof
  fix i
  have "(n + i) mod length u = i mod length u" using assms by (auto simp: dvd_def)
  then show "pads u x (n + i) = pads u (drop n x) i" by (auto simp: pads_def)
qed

text \<open>The first segment decides, or the rest of the values does.\<close>

lemma pad_lt_segment:
  assumes "length u dvd n"
  shows "pad_lt u x y \<longleftrightarrow>
     lexlt_in (map (pads u x) [0..<n]) (map (pads u y) [0..<n]) \<or>
     map (pads u x) [0..<n] = map (pads u y) [0..<n] \<and> pad_lt u (drop n x) (drop n y)"
  unfolding pad_lt_iff using seq_lt_split [of "pads u x" "pads u y" n] pads_shift [OF assms] by simp

lemma pad_lt_Nil_Nil [simp]: "\<not> pad_lt u [] []"
  by (simp add: pad_lt_iff)

section \<open>Segments and their order\<close>

text \<open>A sample \<open>sp\<close> of at least \<open>p\<close> bytes of spaces with image \<open>u\<close>, \<open>p\<close> bytes of data in a segment.\<close>

definition ok_spaces :: "nat \<Rightarrow> bytes \<Rightarrow> bytes \<Rightarrow> bool" where
  "ok_spaces p u sp \<longleftrightarrow> 0 < p \<and> u \<noteq> [] \<and> length u dvd p \<and> p \<le> length sp \<and>
     length u dvd length sp \<and> (\<forall>i<length sp. sp ! i = u ! (i mod length u))"

lemma spaces_prefix:
  assumes "ok_spaces p u sp" "n \<le> length sp"
  shows "take n sp = map (pads u []) [0..<n]"
proof (rule nth_equalityI)
  fix i assume "i < length (take n sp)"
  then have "i < n" "i < length sp" using assms(2) by simp_all
  moreover have "sp ! i = u ! (i mod length u)" if "i < length sp"
    using assms(1) that by (simp only: ok_spaces_def)
  ultimately show "take n sp ! i = map (pads u []) [0..<n] ! i" by (simp add: pads_def)
qed (use assms(2) in simp)

lemma seq_shift_end: "(\<lambda>i. pads u x (length x + i)) = (\<lambda>i. pads u [] (length x + i))"
  by (simp add: pads_def)

lemma compare_with_spaces:
  assumes "ok_spaces p u sp"
  shows "\<exists>cmp. mono_compare_string_with_spaces x sp = Some cmp \<and>
           (cmp < 0 \<longleftrightarrow> pad_lt u x []) \<and> (0 < cmp \<longleftrightarrow> pad_lt u [] x)"
proof (induction x rule: length_induct)
  case (1 x)
  show ?case
  proof (cases "x = []")
    case True
    then show ?thesis by (simp add: mono_compare_string_with_spaces.simps [of "[]"])
  next
    case False
    define n where "n = min (length x) (length sp)"
    have sp: "sp \<noteq> []" "length u dvd length sp" using assms by (auto simp: ok_spaces_def)
    have n: "0 < n" "n \<le> length x" "n \<le> length sp" using False sp(1) by (auto simp: n_def)
    have tx: "take n x = map (pads u x) [0..<n]"
      using n by (auto simp: pads_def list_eq_iff_nth_eq)
    have ts: "take n sp = map (pads u []) [0..<n]" using spaces_prefix [OF assms n(3)] .
    have lt: "memcmp n x sp < 0 \<longleftrightarrow> lexlt_in (map (pads u x) [0..<n]) (map (pads u []) [0..<n])"
      and gt: "memcmp n x sp > 0 \<longleftrightarrow> lexlt_in (map (pads u []) [0..<n]) (map (pads u x) [0..<n])"
      and eq: "memcmp n x sp = 0 \<longleftrightarrow> map (pads u x) [0..<n] = map (pads u []) [0..<n]"
      using memcmp_less_iff [OF n(2,3)] memcmp_greater_iff [OF n(2,3)] memcmp_zero_iff [OF n(2,3)] tx ts by simp_all
    consider "n = length sp" | "n = length x" unfolding n_def by linarith
    then have rest: "(seq_lt (\<lambda>i. pads u x (n + i)) (\<lambda>i. pads u [] (n + i)) \<longleftrightarrow> pad_lt u (drop n x) []) \<and>
      (seq_lt (\<lambda>i. pads u [] (n + i)) (\<lambda>i. pads u x (n + i)) \<longleftrightarrow> pad_lt u [] (drop n x))"
    proof cases
      case 1
      then have "length u dvd n" using sp(2) by (simp only:)
      from pads_shift [OF this, of x] pads_shift [OF this, of "[]"] show ?thesis
        by (simp only: pad_lt_iff drop_Nil simp_thms)
    next
      case 2
      then have "drop n x = []" by (simp only: drop_all order_refl)
      then show ?thesis
        by (simp only: 2 seq_shift_end seq_lt_irrefl pad_lt_Nil_Nil simp_thms)
    qed
    obtain cmp where ih: "mono_compare_string_with_spaces (drop n x) sp = Some cmp"
      "cmp < 0 \<longleftrightarrow> pad_lt u (drop n x) []" "0 < cmp \<longleftrightarrow> pad_lt u [] (drop n x)"
      using 1 n(1) False by (metis diff_less length_drop length_greater_0_conv)
    have step: "mono_compare_string_with_spaces x sp =
        (if memcmp n x sp \<noteq> 0 then Some (memcmp n x sp) else mono_compare_string_with_spaces (drop n x) sp)"
      using False sp(1) by (simp add: mono_compare_string_with_spaces.simps [of x] n_def Let_def)
    have l: "pad_lt u x [] \<longleftrightarrow> memcmp n x sp < 0 \<or> memcmp n x sp = 0 \<and> pad_lt u (drop n x) []"
      using seq_lt_split [of "pads u x" "pads u []" n] by (simp only: lt eq rest pad_lt_iff [of u x])
    have g: "pad_lt u [] x \<longleftrightarrow> memcmp n x sp > 0 \<or> memcmp n x sp = 0 \<and> pad_lt u [] (drop n x)"
      using seq_lt_split [of "pads u []" "pads u x" n]
      by (simp only: gt eq rest pad_lt_iff [of u "[]" x] eq_commute [of "map (pads u x) [0..<n]"])
    show ?thesis
    proof (cases "memcmp n x sp = 0")
      case True
      then show ?thesis using ih unfolding step l g by simp
    next
      case False
      then show ?thesis unfolding step l g by simp
    qed
  qed
qed

definition space_flag :: "bytes \<Rightarrow> bytes \<Rightarrow> byte" where
  "space_flag u x =
     (if pad_lt u x [] then VARCHAR_CMP_LESS_THAN_SPACES
      else if pad_lt u [] x then VARCHAR_CMP_GREATER_THAN_SPACES
      else VARCHAR_CMP_EQUAL_TO_SPACES)"

lemma space_flag_Nil [simp]: "space_flag u [] = VARCHAR_CMP_EQUAL_TO_SPACES"
  by (simp add: space_flag_def)

lemma space_flag_eq_iff:
  "space_flag u x = VARCHAR_CMP_EQUAL_TO_SPACES \<longleftrightarrow> pads u x = pads u []"
  using seq_lt_total [of "pads u x" "pads u []"]
  by (auto simp: space_flag_def varchar_cmp_defs pad_lt_iff)

text \<open>Flags are monotone, and equal flags other than the middle one leave the order open.\<close>

lemma space_flag_mono:
  assumes "pad_lt u x y"
  shows "space_flag u x < space_flag u y \<or>
         space_flag u x = space_flag u y \<and> space_flag u x \<noteq> VARCHAR_CMP_EQUAL_TO_SPACES"
proof -
  have "pads u x \<noteq> pads u y" using assms by (auto simp: pad_lt_iff)
  then show ?thesis
    using assms seq_lt_total [of "pads u x" "pads u []"] seq_lt_total [of "pads u y" "pads u []"]
      seq_lt_trans [of "pads u x" "pads u y" "pads u []"] seq_lt_trans [of "pads u []" "pads u x" "pads u y"]
      seq_lt_asym [of "pads u x" "pads u []"] seq_lt_asym [of "pads u y" "pads u []"]
    by (cases "pads u x = pads u []"; cases "pads u y = pads u []")
       (auto simp: space_flag_def varchar_cmp_defs pad_lt_iff)
qed

lemma segment_eq:
  assumes "length u dvd length x"
  shows "map (pads u x) [0..<p] = take p x @ map (pads u []) [0..<p - length x]"
proof (rule nth_equalityI)
  fix i assume "i < length (map (pads u x) [0..<p])"
  then have "i < p" by simp
  moreover have "length x \<le> i \<Longrightarrow> (i - length x) mod length u = i mod length u"
    using assms by (metis dvd_imp_mod_0 le_add_diff_inverse2 mod_add_right_eq add_0_right)
  ultimately show "map (pads u x) [0..<p] ! i = (take p x @ map (pads u []) [0..<p - length x]) ! i"
    by (auto simp: nth_append pads_def)
qed simp

text \<open>One segment and the rest.\<close>

lemma space_pad_loop_segment:
  assumes "ok_spaces p u sp" "length u dvd length x"
  shows "space_pad_loop (Suc p) sp x =
     (if space_flag u (drop p x) = VARCHAR_CMP_EQUAL_TO_SPACES
      then Some (map (pads u x) [0..<p] @ [VARCHAR_CMP_EQUAL_TO_SPACES], p - length x)
      else map_option (\<lambda>(enc, pad). (map (pads u x) [0..<p] @ [space_flag u (drop p x)] @ enc, pad))
             (space_pad_loop (Suc p) sp (drop p x)))"
proof (cases "length x < p")
  case True
  have "p - length x \<le> length sp" using assms(1) by (auto simp: ok_spaces_def)
  then have t: "take (p - length x) sp = map (pads u []) [0..<p - length x]" "\<not> length sp < p - length x"
    using spaces_prefix [OF assms(1)] by simp_all
  have "map (pads u x) [0..<p] = x @ map (pads u []) [0..<p - length x]"
    using segment_eq [OF assms(2), of p] True by simp
  with True t show ?thesis by (simp add: space_pad_loop.simps [of "Suc p" sp x] Let_def min_absorb2)
next
  case False
  obtain cmp where cmp: "mono_compare_string_with_spaces (drop p x) sp = Some cmp"
    "cmp < 0 \<longleftrightarrow> pad_lt u (drop p x) []" "0 < cmp \<longleftrightarrow> pad_lt u [] (drop p x)"
    using compare_with_spaces [OF assms(1)] by blast
  have z: "cmp = 0 \<longleftrightarrow> space_flag u (drop p x) = VARCHAR_CMP_EQUAL_TO_SPACES"
    and fl: "cmp \<noteq> 0 \<Longrightarrow> (if cmp < 0 then VARCHAR_CMP_LESS_THAN_SPACES else VARCHAR_CMP_GREATER_THAN_SPACES) = space_flag u (drop p x)"
    using cmp(2,3) by (auto simp: space_flag_def varchar_cmp_defs)
  have "take p x = map (pads u x) [0..<p]"
    using False by (auto simp: pads_def list_eq_iff_nth_eq)
  moreover have "p \<noteq> 0" using assms(1) by (simp add: ok_spaces_def)
  ultimately show ?thesis
    using False cmp(1) z fl by (cases "cmp = 0") (simp_all add: space_pad_loop.simps [of "Suc p" sp x] Let_def min_absorb1)
qed

text \<open>Values whose images are whole spaces long; what the loop leaves is such a value.\<close>

definition ok_image :: "nat \<Rightarrow> bytes \<Rightarrow> bytes \<Rightarrow> bytes \<Rightarrow> bool" where
  "ok_image p u sp x \<longleftrightarrow> ok_spaces p u sp \<and> length u dvd length x"

lemma ok_image_drop: "ok_image p u sp x \<Longrightarrow> ok_image p u sp (drop p x)"
  by (auto simp: ok_image_def ok_spaces_def intro: dvd_diff_nat)

lemma flag_nonempty: "space_flag u (drop p x) \<noteq> VARCHAR_CMP_EQUAL_TO_SPACES \<Longrightarrow> p < length x"
  by (cases "drop p x = []") auto

lemma space_pad_cases:
  assumes "ok_image p u sp x" "space_pad_loop (Suc p) sp x = Some (e, n)"
  obtains (last) "space_flag u (drop p x) = VARCHAR_CMP_EQUAL_TO_SPACES"
      "e = map (pads u x) [0..<p] @ [space_flag u (drop p x)]" "n = p - length x"
  | (more) e' where "space_flag u (drop p x) \<noteq> VARCHAR_CMP_EQUAL_TO_SPACES" "p < length x"
      "space_pad_loop (Suc p) sp (drop p x) = Some (e', n)"
      "e = map (pads u x) [0..<p] @ [space_flag u (drop p x)] @ e'"
proof -
  have ok: "ok_spaces p u sp" "length u dvd length x" using assms(1) by (simp_all add: ok_image_def)
  show thesis
    using assms(2) last more flag_nonempty [of u p x]
    unfolding space_pad_loop_segment [OF ok] by (auto split: if_splits)
qed

lemma space_pad_loop_total: "ok_image p u sp x \<Longrightarrow> \<exists>e n. space_pad_loop (Suc p) sp x = Some (e, n)"
proof (induction x rule: length_induct)
  case (1 x)
  have ok: "ok_spaces p u sp" "length u dvd length x" "0 < p"
    using 1(2) by (simp_all add: ok_image_def ok_spaces_def)
  show ?case
  proof (cases "space_flag u (drop p x) = VARCHAR_CMP_EQUAL_TO_SPACES")
    case True
    then show ?thesis by (simp add: space_pad_loop_segment [OF ok(1,2)])
  next
    case False
    then have "length (drop p x) < length x" using flag_nonempty [OF False] ok(3) by simp
    then obtain e n where "space_pad_loop (Suc p) sp (drop p x) = Some (e, n)"
      using 1(1) ok_image_drop [OF 1(2)] by blast
    then show ?thesis using False by (simp add: space_pad_loop_segment [OF ok(1,2)])
  qed
qed

lemma length_segment [simp]: "length (map (pads u x) [0..<p]) = p"
  by simp

lemma space_pad_less:
  "ok_image p u sp x \<Longrightarrow> ok_image p u sp y \<Longrightarrow> pad_lt u x y \<Longrightarrow>
   space_pad_loop (Suc p) sp x = Some (ex, nx) \<Longrightarrow> space_pad_loop (Suc p) sp y = Some (ey, ny) \<Longrightarrow>
   lexlt_in ex ey"
proof (induction x arbitrary: y ex ey rule: length_induct)
  case (1 x)
  have dvd: "length u dvd p" "0 < p" using 1(2) by (simp_all add: ok_image_def ok_spaces_def)
  obtain rx where rx: "ex = map (pads u x) [0..<p] @ space_flag u (drop p x) # rx"
    by (rule space_pad_cases [OF 1(2,5)]) auto
  obtain ry where ry: "ey = map (pads u y) [0..<p] @ space_flag u (drop p y) # ry"
    by (rule space_pad_cases [OF 1(3,6)]) auto
  consider "lexlt_in (map (pads u x) [0..<p]) (map (pads u y) [0..<p])"
    | "map (pads u x) [0..<p] = map (pads u y) [0..<p]" "pad_lt u (drop p x) (drop p y)"
    using pad_lt_segment [OF dvd(1)] 1(4) by blast
  then show ?case
  proof cases
    case 1
    then show ?thesis unfolding rx ry by (rule lexlt_in_append)
  next
    case 2
    note fl = space_flag_mono [OF 2(2)]
    show ?thesis
    proof (cases "space_flag u (drop p x) < space_flag u (drop p y)")
      case True
      then show ?thesis unfolding rx ry 2(1) by simp
    next
      case False
      with fl have eq: "space_flag u (drop p x) = space_flag u (drop p y)"
        "space_flag u (drop p x) \<noteq> VARCHAR_CMP_EQUAL_TO_SPACES" by auto
      obtain ex' where ex': "p < length x" "space_pad_loop (Suc p) sp (drop p x) = Some (ex', nx)"
        "ex = map (pads u x) [0..<p] @ [space_flag u (drop p x)] @ ex'"
        by (rule space_pad_cases [OF 1(2,5)]) (use eq in auto)
      obtain ey' where ey': "space_pad_loop (Suc p) sp (drop p y) = Some (ey', ny)"
        "ey = map (pads u y) [0..<p] @ [space_flag u (drop p y)] @ ey'"
        by (rule space_pad_cases [OF 1(3,6)]) (use eq in auto)
      have "length (drop p x) < length x" using ex'(1) dvd(2) by simp
      then have "lexlt_in ex' ey'"
        using 1(1) ok_image_drop [OF 1(2)] ok_image_drop [OF 1(3)] 2(2) ex'(2) ey'(1) by blast
      then show ?thesis unfolding ex'(3) ey'(2) 2(1) eq(1) by simp
    qed
  qed
qed

lemma space_pad_equal:
  "ok_image p u sp x \<Longrightarrow> ok_image p u sp y \<Longrightarrow> pads u x = pads u y \<Longrightarrow>
   space_pad_loop (Suc p) sp x = Some (ex, nx) \<Longrightarrow> space_pad_loop (Suc p) sp y = Some (ey, ny) \<Longrightarrow>
   ex = ey"
proof (induction x arbitrary: y ex ey rule: length_induct)
  case (1 x)
  have dvd: "length u dvd p" "0 < p" using 1(2) by (simp_all add: ok_image_def ok_spaces_def)
  have rest: "pads u (drop p x) = pads u (drop p y)"
    using pads_shift [OF dvd(1), of x] pads_shift [OF dvd(1), of y] 1(4) by simp
  then have fl: "space_flag u (drop p x) = space_flag u (drop p y)"
    by (simp add: space_flag_def pad_lt_iff)
  show ?case
  proof (rule space_pad_cases [OF 1(2,5)])
    assume "space_flag u (drop p x) = VARCHAR_CMP_EQUAL_TO_SPACES"
      "ex = map (pads u x) [0..<p] @ [space_flag u (drop p x)]"
    then show ?thesis by (rule_tac space_pad_cases [OF 1(3,6)]) (use fl 1(4) in auto)
  next
    fix ex' assume x: "space_flag u (drop p x) \<noteq> VARCHAR_CMP_EQUAL_TO_SPACES" "p < length x"
      "space_pad_loop (Suc p) sp (drop p x) = Some (ex', nx)"
      "ex = map (pads u x) [0..<p] @ [space_flag u (drop p x)] @ ex'"
    obtain ey' where y: "space_pad_loop (Suc p) sp (drop p y) = Some (ey', ny)"
      "ey = map (pads u y) [0..<p] @ [space_flag u (drop p y)] @ ey'"
      by (rule space_pad_cases [OF 1(3,6)]) (use fl x(1) in auto)
    have "length (drop p x) < length x" using x(2) dvd(2) by simp
    then have "ex' = ey'"
      using 1(1) ok_image_drop [OF 1(2)] ok_image_drop [OF 1(3)] rest x(3) y(1) by blast
    then show ?thesis unfolding x(4) y(2) 1(4) fl by simp
  qed
qed

section \<open>Delimiting\<close>

lemma space_flag_cases:
  "space_flag u x = VARCHAR_CMP_LESS_THAN_SPACES \<or> space_flag u x = VARCHAR_CMP_GREATER_THAN_SPACES \<or>
   space_flag u x = VARCHAR_CMP_EQUAL_TO_SPACES"
  by (simp add: space_flag_def)

lemma space_segment_read:
  assumes "rd_at r ((map (pads u x) [0..<p] @ [fl]) @ rest)"
  shows "read_bytes (Suc p) r = (Some (map (pads u x) [0..<p] @ [fl]), rd_adv (Suc p) r)"
    and "rd_at (rd_adv (Suc p) r) rest"
  using read_bytes_append [OF assms, of "Suc p"] rd_at_adv_append [OF assms, of "Suc p"] by simp_all

lemma skip_space_pad_pack:
  "ok_image p u sp x \<Longrightarrow> space_pad_loop (Suc p) sp x = Some (e, n) \<Longrightarrow> rd_at r (e @ rest) \<Longrightarrow>
   length x \<le> dst_len \<Longrightarrow> skip_space_pad_loop (Suc p) dst_len r = Some (rd_adv (length e) r)"
proof (induction x arbitrary: e r dst_len rule: length_induct)
  case (1 x)
  show ?case
  proof (rule space_pad_cases [OF 1(2,3)])
    assume fl: "space_flag u (drop p x) = VARCHAR_CMP_EQUAL_TO_SPACES"
      and e: "e = map (pads u x) [0..<p] @ [space_flag u (drop p x)]"
    show ?thesis
      using space_segment_read(1) [of r u x p "space_flag u (drop p x)" rest] 1(4)
      unfolding e fl by (simp add: skip_space_pad_loop.simps [of "Suc p" dst_len r] nth_append)
  next
    fix e' assume x: "space_flag u (drop p x) \<noteq> VARCHAR_CMP_EQUAL_TO_SPACES" "p < length x"
      "space_pad_loop (Suc p) sp (drop p x) = Some (e', n)"
      "e = map (pads u x) [0..<p] @ [space_flag u (drop p x)] @ e'"
    have "rd_at r ((map (pads u x) [0..<p] @ [space_flag u (drop p x)]) @ e' @ rest)"
      using 1(4) unfolding x(4) by simp
    note rd = space_segment_read [OF this]
    have "0 < p" using 1(2) by (simp add: ok_image_def ok_spaces_def)
    then have "length (drop p x) < length x" "length (drop p x) \<le> dst_len - p"
      using x(2) 1(5) by simp_all
    then have "skip_space_pad_loop (Suc p) (dst_len - p) (rd_adv (Suc p) r) =
        Some (rd_adv (length e') (rd_adv (Suc p) r))"
      using 1(1) ok_image_drop [OF 1(2)] x(3) rd(2) by blast
    then show ?thesis
      using rd(1) x(1,2) 1(5) space_flag_cases [of u "drop p x"] unfolding x(4)
      by (simp add: skip_space_pad_loop.simps [of "Suc p" dst_len r] nth_append)
  qed
qed

section \<open>The codec\<close>

text \<open>The image of a space and the data bytes of a segment, as the descriptor holds them.\<close>

definition space_unit :: "mono_field_packing \<Rightarrow> bytes" where
  "space_unit fpi = (case space_xfrm fpi of None \<Rightarrow> [] | Some sp \<Rightarrow> take (space_xfrm_len fpi) sp)"

definition wf_spaces :: "mono_field_packing \<Rightarrow> bool" where
  "wf_spaces fpi \<longleftrightarrow>
     (case space_xfrm fpi of None \<Rightarrow> False
      | Some sp \<Rightarrow> ok_spaces (m_segment_size fpi - 1) (space_unit fpi) sp)"

definition space_pad_image :: "mono_field_packing \<Rightarrow> field \<Rightarrow> cell \<Rightarrow> bytes" where
  "space_pad_image fpi f c =
     (case pack_with_varchar_space_pad fpi f c None of None \<Rightarrow> [] | Some (enc, _) \<Rightarrow> enc)"

definition wf_space_pad :: "mono_field_packing \<Rightarrow> field \<Rightarrow> cell \<Rightarrow> bool" where
  "wf_space_pad fpi f c \<longleftrightarrow> wf_varchar_cell f c \<and> wf_spaces fpi \<and>
     length (space_unit fpi) dvd length (space_pad_xfrm fpi f c) \<and>
     length (space_pad_xfrm fpi f c) \<le> varchar_cap f \<and> varchar_cap f \<le> UINT_MAX"

definition lt_space_pad :: "mono_field_packing \<Rightarrow> field \<Rightarrow> cell \<Rightarrow> cell \<Rightarrow> bool" where
  "lt_space_pad fpi f a b \<longleftrightarrow>
     pad_lt (space_unit fpi) (space_pad_xfrm fpi f a) (space_pad_xfrm fpi f b)"

lemma space_pad_image_loop:
  assumes "wf_space_pad fpi f c"
  obtains p sp n where "m_segment_size fpi = Suc p" "space_xfrm fpi = Some sp"
    "ok_image p (space_unit fpi) sp (space_pad_xfrm fpi f c)"
    "space_pad_loop (Suc p) sp (space_pad_xfrm fpi f c) = Some (space_pad_image fpi f c, n)"
proof -
  obtain sp where sp: "space_xfrm fpi = Some sp" "ok_spaces (m_segment_size fpi - 1) (space_unit fpi) sp"
    using assms by (auto simp: wf_space_pad_def wf_spaces_def split: option.splits)
  define p where "p = m_segment_size fpi - 1"
  have seg: "m_segment_size fpi = Suc p" using sp(2) by (simp add: ok_spaces_def p_def)
  have ok: "ok_image p (space_unit fpi) sp (space_pad_xfrm fpi f c)"
    using sp(2) assms by (simp add: ok_image_def p_def wf_space_pad_def)
  obtain e n where e: "space_pad_loop (Suc p) sp (space_pad_xfrm fpi f c) = Some (e, n)"
    using space_pad_loop_total [OF ok] by blast
  then have "space_pad_image fpi f c = e"
    using sp(1) seg by (simp add: space_pad_image_def pack_with_varchar_space_pad_def)
  with that seg sp(1) ok e show thesis by blast
qed

interpretation space_pad_codec: key_codec "\<lambda>c. (fo = None \<or> fo = Some f) \<and> wf_space_pad fpi f c"
  "space_pad_image fpi f" "skip_variable_space_pad fpi fo" "lt_space_pad fpi f" for fo fpi f
proof unfold_locales
  fix v r rest
  assume wf: "(fo = None \<or> fo = Some f) \<and> wf_space_pad fpi f v" and r: "rd_at r (space_pad_image fpi f v @ rest)"
  obtain p sp n where p: "m_segment_size fpi = Suc p" "ok_image p (space_unit fpi) sp (space_pad_xfrm fpi f v)"
    "space_pad_loop (Suc p) sp (space_pad_xfrm fpi f v) = Some (space_pad_image fpi f v, n)"
    using space_pad_image_loop wf by metis
  show "skip_variable_space_pad fpi fo r = Some (rd_adv (length (space_pad_image fpi f v)) r)"
    using skip_space_pad_pack [OF p(2,3) r] wf p(1)
    by (auto simp: skip_variable_space_pad_def wf_space_pad_def varchar_cap_def)
next
  fix a b
  assume a: "(fo = None \<or> fo = Some f) \<and> wf_space_pad fpi f a"
    and b: "(fo = None \<or> fo = Some f) \<and> wf_space_pad fpi f b"
  obtain p sp n where p: "m_segment_size fpi = Suc p" "space_xfrm fpi = Some sp"
    "ok_image p (space_unit fpi) sp (space_pad_xfrm fpi f a)"
    "space_pad_loop (Suc p) sp (space_pad_xfrm fpi f a) = Some (space_pad_image fpi f a, n)"
    using space_pad_image_loop a by metis
  obtain m where q: "ok_image p (space_unit fpi) sp (space_pad_xfrm fpi f b)"
    "space_pad_loop (Suc p) sp (space_pad_xfrm fpi f b) = Some (space_pad_image fpi f b, m)"
    using space_pad_image_loop [of fpi f b] b p(1,2) by (metis option.inject Suc_inject)
  show "lexlt_in (space_pad_image fpi f a) (space_pad_image fpi f b)" if "lt_space_pad fpi f a b"
    using space_pad_less [OF p(3) q(1) _ p(4) q(2)] that by (simp add: lt_space_pad_def)
  show "space_pad_image fpi f a = space_pad_image fpi f b"
    if "\<not> lt_space_pad fpi f a b" "\<not> lt_space_pad fpi f b a"
    using space_pad_equal [OF p(3) q(1) _ p(4) q(2)] that seq_lt_total
    unfolding lt_space_pad_def pad_lt_iff by blast
qed

section \<open>Unpacking\<close>

text \<open>
  Images made of code points of \<open>b\<close> bytes: \<open>units b wcs\<close> is the image and
  \<open>chars b cs wcs\<close> the text. For \<open>b = 1\<close> the image is the text; otherwise the
  character set's encoder gives the text of a code point.
\<close>

definition mb_of :: "nat \<Rightarrow> charset_info \<Rightarrow> nat \<Rightarrow> bytes" where
  "mb_of b cs wc = (if b = 1 then [of_nat wc] else the (cs_wc_mb cs wc (b + 1)))"

definition units :: "nat \<Rightarrow> nat list \<Rightarrow> bytes" where
  "units b wcs = concat (map (be_bytes b) wcs)"

definition chars :: "nat \<Rightarrow> charset_info \<Rightarrow> nat list \<Rightarrow> bytes" where
  "chars b cs wcs = concat (map (mb_of b cs) wcs)"

definition wc_ok :: "nat \<Rightarrow> charset_info \<Rightarrow> nat \<Rightarrow> bool" where
  "wc_ok b cs wc \<longleftrightarrow> wc < 256 ^ b \<and>
     (b = 1 \<or> mb_of b cs wc \<noteq> [] \<and> length (mb_of b cs wc) \<le> b + 1 \<and>
       (\<forall>n\<ge>length (mb_of b cs wc). cs_wc_mb cs wc n = Some (mb_of b cs wc)))"

lemma units_simps [simp]:
  "units b [] = []" "units b (w # ws) = be_bytes b w @ units b ws" "units b (vs @ ws) = units b vs @ units b ws"
  by (simp_all add: units_def)

lemma chars_simps [simp]:
  "chars b cs [] = []" "chars b cs (w # ws) = mb_of b cs w @ chars b cs ws"
  "chars b cs (vs @ ws) = chars b cs vs @ chars b cs ws"
  by (simp_all add: chars_def)

lemma length_units [simp]: "length (units b ws) = b * length ws"
  by (induction ws) simp_all

lemma take_units: "take (b * n) (units b ws) = units b (take n ws)"
proof (induction ws arbitrary: n)
  case (Cons w ws)
  show ?case
  proof (cases n)
    case (Suc m)
    then show ?thesis using Cons [of m] by simp
  qed simp
qed simp

lemma drop_units: "drop (b * n) (units b ws) = units b (drop n ws)"
proof (induction ws arbitrary: n)
  case (Cons w ws)
  show ?case
  proof (cases n)
    case (Suc m)
    then show ?thesis using Cons [of m] by simp
  qed simp
qed simp

lemma src_wc_be_val: "length xs = b \<Longrightarrow> b = 2 \<or> b = 3 \<Longrightarrow> src_wc b (xs @ rest) = be_val xs"
  by (auto simp: src_wc_def be_val_def numeral_2_eq_2 numeral_3_eq_3 length_Suc_conv)

lemma src_wc_units: "b = 2 \<or> b = 3 \<Longrightarrow> wc < 256 ^ b \<Longrightarrow> src_wc b (be_bytes b wc @ rest) = wc"
  by (simp add: src_wc_be_val be_val_be_bytes)

lemma unpack_wc_loop_units:
  "b = 2 \<or> b = 3 \<Longrightarrow> \<forall>w\<in>set ws. wc_ok b cs w \<Longrightarrow> length out + length (chars b cs ws) \<le> cap \<Longrightarrow>
   unpack_wc_loop b cs cap (units b ws) out = Some (out @ chars b cs ws)"
proof (induction ws arbitrary: out)
  case Nil
  then show ?case by (simp add: unpack_wc_loop.simps [of b cs cap "[]"])
next
  case (Cons w ws)
  have "length (units b (w # ws)) \<noteq> 0" using Cons.prems(1) by auto
  then have ne: "units b (w # ws) \<noteq> []" by (metis list.size(3))
  have ok: "wc_ok b cs w" "b \<noteq> 1" "length (mb_of b cs w) \<le> cap - length out"
    using Cons.prems by auto
  then have w: "mb_of b cs w \<noteq> []" "length (mb_of b cs w) \<le> b + 1" "w < 256 ^ b"
    "cs_wc_mb cs w (cap - length out) = Some (mb_of b cs w)"
    unfolding wc_ok_def by blast+
  have src: "src_wc b (units b (w # ws)) = w"
    using src_wc_units [OF Cons.prems(1) w(3)] by simp
  have "unpack_wc_loop b cs cap (units b (w # ws)) out =
      unpack_wc_loop b cs cap (units b ws) (out @ mb_of b cs w)"
    using ne w(1,2,4) Cons.prems(1) unfolding unpack_wc_loop.simps [of b cs cap "units b (w # ws)"] src by auto
  then show ?case using Cons.IH [of "out @ mb_of b cs w"] Cons.prems by simp
qed

lemma units_1: "units 1 ws = chars 1 cs ws"
  by (induction ws) (simp_all add: mb_of_def be_bytes_def)

lemma unpack_segment_units:
  assumes "b = 1 \<or> b = 2 \<or> b = 3" "\<forall>w\<in>set ws. wc_ok b cs w" "length out + length (chars b cs ws) \<le> cap"
  shows "unpack_segment b (Some cs) cap (units b ws) out = Some (out @ chars b cs ws)"
proof (cases "b = 1")
  case True
  then show ?thesis using assms(3) units_1 [of ws cs] by (simp add: unpack_segment_def)
next
  case False
  then show ?thesis
    using assms unpack_wc_loop_units [of b ws cs out cap] by (auto simp: unpack_segment_def check_src_len_def)
qed

lemma spaces_units: "map (pads (be_bytes b spc) []) [0..<b * m] = units b (replicate m spc)"
proof (induction m)
  case (Suc m)
  have "map (pads (be_bytes b spc) []) [b * m..<b * m + b] = be_bytes b spc"
    by (rule nth_equalityI) (auto simp: pads_def)
  moreover have "[0..<b * Suc m] = [0..<b * m] @ [b * m..<b * m + b]"
    using upt_add_eq_append [of 0 "b * m" b] by (simp add: add.commute)
  ultimately have "map (pads (be_bytes b spc) []) [0..<b * Suc m] = units b (replicate m spc @ [spc])"
    using Suc by simp
  then show ?case by (simp add: replicate_append_same)
qed simp

lemma segment_units:
  "map (pads (be_bytes b spc) (units b ws)) [0..<b * q] = units b (take q ws @ replicate (q - length ws) spc)"
  using segment_eq [of "be_bytes b spc" "units b ws" "b * q"] spaces_units [of b spc "q - length ws"]
  by (simp add: take_units flip: diff_mult_distrib2)

text \<open>A text that does not end in a space is not made of spaces.\<close>

lemma trimmed_not_spaces:
  assumes "pads (be_bytes b spc) (units b ws) = pads (be_bytes b spc) []" "0 < b"
    and "\<forall>w\<in>set ws. w < 256 ^ b" "spc < 256 ^ b" "ws = [] \<or> last ws \<noteq> spc"
  shows "ws = []"
proof (rule ccontr)
  assume "ws \<noteq> []"
  then obtain vs w where ws: "ws = vs @ [w]" by (metis append_butlast_last_id)
  have "be_bytes b w = be_bytes b spc"
  proof (rule nth_equalityI)
    fix j assume "j < length (be_bytes b w)"
    then have j: "j < b" by simp
    have "pads (be_bytes b spc) (units b ws) (b * length vs + j) = be_bytes b w ! j"
      using j by (simp add: pads_def ws nth_append)
    moreover have "pads (be_bytes b spc) [] (b * length vs + j) = be_bytes b spc ! j"
      using j by (simp add: pads_def)
    ultimately show "be_bytes b w ! j = be_bytes b spc ! j" by (metis assms(1))
  qed simp
  moreover have "w < 256 ^ b" using assms(3) ws by simp
  ultimately have "w = spc" using be_val_be_bytes [of b] assms(4) by (metis mod_less)
  then show False using assms(5) ws by simp
qed

text \<open>A column of \<open>b\<close>-byte code points, \<open>q\<close> of them in a segment.\<close>

definition ok_wcs :: "nat \<Rightarrow> charset_info \<Rightarrow> nat \<Rightarrow> nat list \<Rightarrow> bool" where
  "ok_wcs b cs spc ws \<longleftrightarrow> (b = 1 \<or> b = 2 \<or> b = 3) \<and> wc_ok b cs spc \<and> (\<forall>w\<in>set ws. wc_ok b cs w) \<and>
     (ws = [] \<or> last ws \<noteq> spc)"

lemma ok_wcs_flag:
  assumes "ok_wcs b cs spc ws" "space_flag (be_bytes b spc) (units b ws) = VARCHAR_CMP_EQUAL_TO_SPACES"
  shows "ws = []"
proof (rule trimmed_not_spaces [of b spc ws])
  show "pads (be_bytes b spc) (units b ws) = pads (be_bytes b spc) []"
    using assms(2) by (simp only: space_flag_eq_iff)
  show "0 < b" "\<forall>w\<in>set ws. w < 256 ^ b" "spc < 256 ^ b" "ws = [] \<or> last ws \<noteq> spc"
    using assms(1) unfolding ok_wcs_def wc_ok_def by (force, blast, blast, blast)
qed

lemma ok_wcs_drop: "ok_wcs b cs spc ws \<Longrightarrow> ok_wcs b cs spc (drop n ws)"
  by (auto simp: ok_wcs_def dest: in_set_dropD)

lemma unpack_space_pad_units:
  assumes "ok_spaces (b * q) (be_bytes b spc) sp"
  shows "ok_wcs b cs spc ws \<Longrightarrow> space_pad_loop (Suc (b * q)) sp (units b ws) = Some (e, b * n) \<Longrightarrow> k \<le> n \<Longrightarrow>
    rd_at r (e @ rest) \<Longrightarrow>
    length out + length (chars b cs ws) + length (chars b cs (replicate (n - k) spc)) \<le> cap \<Longrightarrow>
    unpack_space_pad_loop b (Suc (b * q)) (Some cs) cap (b * k) out r =
      Some (out @ chars b cs ws @ chars b cs (replicate (n - k) spc), rd_adv (length e) r)"
proof (induction ws arbitrary: e r out rule: length_induct)
  case (1 ws)
  let ?u = "be_bytes b spc" and ?p = "b * q"
  have img: "ok_image ?p ?u sp (units b ws)" using assms by (simp add: ok_image_def)
  have b: "b = 1 \<or> b = 2 \<or> b = 3" "0 < b" and ok: "wc_ok b cs spc" "\<forall>w\<in>set ws. wc_ok b cs w"
    using 1(2) by (auto simp: ok_wcs_def)
  have drp: "drop ?p (units b ws) = units b (drop q ws)" by (rule drop_units)
  let ?fl = "space_flag ?u (units b (drop q ws))"
  let ?ws = "take q ws @ replicate (q - length ws) spc"
  show ?case
  proof (rule space_pad_cases [OF img 1(3)], unfold drp segment_units)
    assume fl: "?fl = VARCHAR_CMP_EQUAL_TO_SPACES" and e: "e = units b ?ws @ [?fl]"
      and n: "b * n = ?p - length (units b ws)"
    have "drop q ws = []" using ok_wcs_flag [OF ok_wcs_drop [OF 1(2)] fl] .
    then have q: "length ws \<le> q" by simp
    then have n': "n = q - length ws" using n b(2) by (simp flip: diff_mult_distrib2)
    have "rd_at r ((units b ?ws @ [?fl]) @ rest)" using 1(5) unfolding e .
    then have rd: "read_bytes (Suc ?p) r = (Some (units b ?ws @ [?fl]), rd_adv (Suc ?p) r)"
      using space_segment_read(1) [of r ?u "units b ws" ?p] unfolding segment_units by blast
    have "take (?p - b * k) (units b ?ws) = units b (take (q - k) ?ws)"
      by (simp only: take_units flip: diff_mult_distrib2)
    also have "take (q - k) ?ws = ws @ replicate (n - k) spc"
      using q n' 1(4) by (simp add: min_absorb1 add.commute)
    finally have "take (?p - b * k) (units b ?ws) = units b (ws @ replicate (n - k) spc)" .
    moreover have len: "length (units b ?ws) = ?p" using q by (simp flip: add_mult_distrib2)
    ultimately have src: "take (?p - b * k) (units b ?ws @ [?fl]) = units b (ws @ replicate (n - k) spc)"
      by (simp only: take_append) simp
    have "unpack_segment b (Some cs) cap (units b (ws @ replicate (n - k) spc)) out =
        Some (out @ chars b cs (ws @ replicate (n - k) spc))"
      by (rule unpack_segment_units) (use b ok 1(6) in auto)
    moreover have "k \<le> q" using 1(4) n' q by linarith
    then have "\<not> ?p < b * k" by (simp add: not_less)
    moreover have "(units b ?ws @ [?fl]) ! ?p = VARCHAR_CMP_EQUAL_TO_SPACES" "length e = Suc ?p"
      using nth_append_length [of "units b ?ws" ?fl "[]"] len fl e by (simp_all only:) simp
    ultimately show ?thesis
      using rd src by (simp add: unpack_space_pad_loop.simps [of b "Suc ?p" "Some cs" cap "b * k" out r])
  next
    fix e' assume fl: "?fl \<noteq> VARCHAR_CMP_EQUAL_TO_SPACES" and lt: "?p < length (units b ws)"
      and e': "space_pad_loop (Suc ?p) sp (units b (drop q ws)) = Some (e', b * n)"
      and e: "e = units b ?ws @ [?fl] @ e'"
    have q: "q < length ws" "0 < q" using lt assms by (auto simp: ok_spaces_def)
    have ws: "?ws = take q ws" "length (take q ws) = q" using q by simp_all
    have "rd_at r ((units b ?ws @ [?fl]) @ e' @ rest)" using 1(5) unfolding e by simp
    then have rd: "read_bytes (Suc ?p) r = (Some (units b ?ws @ [?fl]), rd_adv (Suc ?p) r)"
      "rd_at (rd_adv (Suc ?p) r) (e' @ rest)"
      using space_segment_read [of r ?u "units b ws" ?p] unfolding segment_units by blast+
    have cat: "chars b cs ws = chars b cs (take q ws) @ chars b cs (drop q ws)"
      by (simp flip: chars_simps)
    have seg: "unpack_segment b (Some cs) cap (units b (take q ws)) out = Some (out @ chars b cs (take q ws))"
      by (rule unpack_segment_units) (use b ok 1(6) cat in \<open>auto dest: in_set_takeD\<close>)
    have room: "length (out @ chars b cs (take q ws)) + length (chars b cs (drop q ws)) +
        length (chars b cs (replicate (n - k) spc)) \<le> cap"
      using 1(6) unfolding cat by simp
    have "length (drop q ws) < length ws" using q by simp
    then have "unpack_space_pad_loop b (Suc ?p) (Some cs) cap (b * k) (out @ chars b cs (take q ws)) (rd_adv (Suc ?p) r) =
        Some ((out @ chars b cs (take q ws)) @ chars b cs (drop q ws) @ chars b cs (replicate (n - k) spc),
          rd_adv (length e') (rd_adv (Suc ?p) r))"
      using 1(1) ok_wcs_drop [OF 1(2)] e' 1(4) rd(2) room by blast
    moreover have "?fl = VARCHAR_CMP_LESS_THAN_SPACES \<or> ?fl = VARCHAR_CMP_GREATER_THAN_SPACES"
      using space_flag_cases fl by blast
    ultimately show ?thesis
      using rd(1) seg fl cat ws e
      by (elim disjE) (simp_all add: unpack_space_pad_loop.simps [of b "Suc ?p" "Some cs" cap "b * k" out r]
        nth_append Let_def)
  qed
qed

lemma space_pad_units_padding:
  "ok_spaces (b * q) (be_bytes b spc) sp \<Longrightarrow> space_pad_loop (Suc (b * q)) sp (units b ws) = Some (e, nb) \<Longrightarrow>
   \<exists>n\<le>q. nb = b * n"
proof (induction ws arbitrary: e rule: length_induct)
  case (1 ws)
  have img: "ok_image (b * q) (be_bytes b spc) sp (units b ws)" using 1(2) by (simp add: ok_image_def)
  show ?case
  proof (rule space_pad_cases [OF img 1(3)])
    assume "nb = b * q - length (units b ws)"
    then have "nb = b * (q - length ws)" by (simp add: diff_mult_distrib2)
    then show ?thesis by (intro exI [of _ "q - length ws"]) simp
  next
    fix e' assume lt: "b * q < length (units b ws)"
      and e': "space_pad_loop (Suc (b * q)) sp (drop (b * q) (units b ws)) = Some (e', nb)"
    have "length (drop q ws) < length ws" using lt 1(2) by (auto simp: ok_spaces_def)
    then show ?thesis using 1(1,2) e' unfolding drop_units by blast
  qed
qed

lemma chars_spaces: "mb_of b cs spc = [pad] \<Longrightarrow> chars b cs (replicate m spc) = replicate m pad"
  by (induction m) simp_all

text \<open>
  What a value of such a column is: the code points \<open>ws\<close>, not ending in a space,
  and \<open>t\<close> trailing spaces; and what the collation's functions do with it.
\<close>

definition space_pad_text :: "nat \<Rightarrow> mono_field_packing \<Rightarrow> field \<Rightarrow> cell \<Rightarrow> nat list \<Rightarrow> nat \<Rightarrow> bool" where
  "space_pad_text b fpi f c ws t \<longleftrightarrow>
     (case m_varchar_charset fpi of None \<Rightarrow> False
      | Some cs \<Rightarrow>
          ok_wcs b cs (unat (cs_pad_char cs)) ws \<and> mb_of b cs (unat (cs_pad_char cs)) = [cs_pad_char cs] \<and>
          space_unit fpi = be_bytes b (unat (cs_pad_char cs)) \<and> space_xfrm_len fpi = b \<and> space_mb_len fpi = 1 \<and>
          m_segment_size fpi - 1 \<le> b * mono_TRIMMED_CHARS_OFFSET \<and> \<not> m_unpack_info_stores_value fpi \<and>
          varchar_data f c (varchar_len f c) = chars b cs ws @ replicate t (cs_pad_char cs) \<and>
          varchar_trimmed_len f c = length (chars b cs ws) \<and> space_pad_xfrm fpi f c = units b ws \<and>
          mono_TRIMMED_CHARS_OFFSET + t < (if m_unpack_info_uses_two_bytes fpi then 65536 else 256))"

definition wf_space_pad_text :: "nat \<Rightarrow> mono_field_packing \<Rightarrow> field \<Rightarrow> cell \<Rightarrow> bool" where
  "wf_space_pad_text b fpi f c \<longleftrightarrow> wf_space_pad fpi f c \<and> (\<exists>ws t. space_pad_text b fpi f c ws t)"

definition space_pad_info :: "mono_field_packing \<Rightarrow> field \<Rightarrow> cell \<Rightarrow> bytes" where
  "space_pad_info fpi f c =
     (case pack_with_varchar_space_pad fpi f c (Some empty_writer) of
        Some (_, Some w) \<Rightarrow> wr_data w | _ \<Rightarrow> [])"

lemma space_pad_removed_eq:
  assumes "space_mb_len fpi = 1" "space_xfrm_len fpi = b" "0 < b" "n \<le> 8" "t < 65536"
  shows "space_pad_removed fpi t (b * n) = 8 + t - n"
proof -
  have "8 + t + (2 ^ 64 - n) = (8 + t - n) + 2 ^ 64" using assms(4) by simp
  then have "(8 + t + (2 ^ 64 - n)) mod 2 ^ 64 = (8 + t - n) mod 2 ^ 64" by (simp only: mod_add_self2)
  also have "\<dots> = 8 + t - n" using assms(5) by (intro mod_less) simp
  finally show ?thesis
    using assms(3) unfolding space_pad_removed_def mono_TRIMMED_CHARS_OFFSET_def assms(1,2) by simp
qed

text \<open>The unpack information is the number of spaces, and reading it gives the two counts back.\<close>

lemma space_info_read:
  assumes "info_at ur ((if m_unpack_info_uses_two_bytes fpi then be_bytes 2 k else [of_nat k]) @ urest)"
    "k < (if m_unpack_info_uses_two_bytes fpi then 65536 else 256)"
  obtains u u' where "ur = Some u" "read_extra_spaces fpi u = (Some k, u')" "rd_at u' urest"
proof (cases ur)
  case None
  then have False using assms(1) by (auto simp: be_bytes_def numeral_2_eq_2 split: if_splits)
  then show thesis ..
next
  case (Some u)
  show thesis
  proof (cases "m_unpack_info_uses_two_bytes fpi")
    case True
    then have r: "rd_at u (be_bytes 2 k @ urest)" "k < 65536" using assms Some by simp_all
    have "rd_at (rd_adv 2 u) urest" by (rule rd_at_adv_append [OF r(1)]) simp
    then show thesis
      using that [OF Some] read_uint16_ok [OF r(1)] r(2) True by (simp add: read_extra_spaces_def)
  next
    case False
    then have r: "rd_at u (of_nat k # urest)" "k < 256" using assms Some by simp_all
    then show thesis
      using that [OF Some] read_uint8_ok [OF r(1)] rd_at_adv_Cons [OF r(1)] False
      by (simp add: read_extra_spaces_def unat_of_nat_byte)
  qed
qed

lemma space_pad_info_gen:
  assumes "m_segment_size fpi = Suc p" "space_xfrm fpi = Some sp"
    "space_pad_loop (Suc p) sp (space_pad_xfrm fpi f v) = Some (e, b * n)" "n \<le> 8"
    and "space_mb_len fpi = 1" "space_xfrm_len fpi = b" "0 < b" "\<not> m_unpack_info_stores_value fpi"
    and "varchar_len f v - varchar_trimmed_len f v = t" "8 + t < 65536"
  shows "space_pad_info fpi f v =
    (if m_unpack_info_uses_two_bytes fpi then be_bytes 2 (8 + t - n) else [of_nat (8 + t - n)])"
proof -
  have "(8 + t - n) mod 65536 = 8 + t - n" using assms(10) by (intro mod_less) linarith
  moreover have "space_pad_removed fpi t (b * n) = 8 + t - n"
    by (rule space_pad_removed_eq [OF assms(5-7,4)]) (use assms(10) in linarith)
  ultimately show ?thesis
    using assms
    by (simp add: space_pad_info_def pack_with_varchar_space_pad_def write_uint16_append write_uint8_def empty_writer_def)
qed

lemma space_pad_info_eq:
  assumes "wf_space_pad fpi f v" "space_pad_text b fpi f v ws t" "m_segment_size fpi = Suc p" "space_xfrm fpi = Some sp"
    "space_pad_loop (Suc p) sp (space_pad_xfrm fpi f v) = Some (e, b * n)" "n \<le> 8"
  shows "space_pad_info fpi f v =
    (if m_unpack_info_uses_two_bytes fpi then be_bytes 2 (8 + t - n) else [of_nat (8 + t - n)])"
proof -
  have tx: "space_mb_len fpi = 1" "space_xfrm_len fpi = b" "0 < b" "\<not> m_unpack_info_stores_value fpi" "8 + t < 65536"
    using assms(2) by (auto simp: space_pad_text_def ok_wcs_def mono_TRIMMED_CHARS_OFFSET_def
      split: option.splits if_splits)
  obtain cs where d: "varchar_data f v (varchar_len f v) = chars b cs ws @ replicate t (cs_pad_char cs)"
    "varchar_trimmed_len f v = length (chars b cs ws)"
    using assms(2) by (auto simp: space_pad_text_def split: option.splits)
  have "length (varchar_data f v (varchar_len f v)) = varchar_len f v"
    using assms(1) by (auto simp: wf_space_pad_def wf_varchar_cell_def varchar_cap_def varchar_data_def)
  then have "varchar_len f v - varchar_trimmed_len f v = t" unfolding d by simp
  then show ?thesis using space_pad_info_gen [OF assms(3-6) tx(1-4) _ tx(5)] by blast
qed

lemma space_pad_unpack:
  assumes "wf_space_pad fpi f v" "space_pad_text b fpi f v ws t" "dest_len (field_pack_length f) c"
    "rd_at r (space_pad_image fpi f v @ rest)" "info_at ur (space_pad_info fpi f v @ urest)"
  shows "\<exists>c' ur'. unpack_binary_or_utf8_varchar_space_pad b fpi f c r ur =
      Some (c', rd_adv (length (space_pad_image fpi f v)) r, ur') \<and> same_varchar f v c' \<and> info_at ur' urest"
proof -
  obtain cs where cs: "m_varchar_charset fpi = Some cs" "mb_of b cs (unat (cs_pad_char cs)) = [cs_pad_char cs]"
    and ok: "ok_wcs b cs (unat (cs_pad_char cs)) ws" and un: "space_unit fpi = be_bytes b (unat (cs_pad_char cs))"
    and d: "varchar_data f v (varchar_len f v) = chars b cs ws @ replicate t (cs_pad_char cs)"
    and xf: "space_pad_xfrm fpi f v = units b ws" "space_xfrm_len fpi = b"
    and sz: "m_segment_size fpi - 1 \<le> b * 8" "8 + t < (if m_unpack_info_uses_two_bytes fpi then 65536 else 256)"
    using assms(2) by (auto simp: space_pad_text_def mono_TRIMMED_CHARS_OFFSET_def split: option.splits)
  let ?spc = "unat (cs_pad_char cs)" and ?cap = "field_pack_length f - length_bytes f"
  obtain p sp nb where p: "m_segment_size fpi = Suc p" "space_xfrm fpi = Some sp"
    and img: "ok_image p (space_unit fpi) sp (space_pad_xfrm fpi f v)"
    and e: "space_pad_loop (Suc p) sp (space_pad_xfrm fpi f v) = Some (space_pad_image fpi f v, nb)"
    by (rule space_pad_image_loop [OF assms(1)])
  have sp: "ok_spaces p (be_bytes b ?spc) sp" and b: "0 < b" using img ok un by (auto simp: ok_image_def ok_wcs_def)
  then obtain q where q: "p = b * q" by (auto simp: ok_spaces_def)
  obtain n where n: "n \<le> q" "nb = b * n"
    using space_pad_units_padding [OF sp [unfolded q]] e unfolding xf q by blast
  have "q \<le> 8" using sz(1) p(1) q b by simp
  with n have n8: "n \<le> 8" by simp
  obtain u u' where u: "ur = Some u" "read_extra_spaces fpi u = (Some (8 + t - n), u')" "rd_at u' urest"
    by (rule space_info_read [OF assms(5) [unfolded space_pad_info_eq [OF assms(1,2) p e [unfolded n(2)] n8]]])
       (use sz(2) in auto)
  have cnt: "space_counts fpi (8 + t - n) = (b * (n - t), t - n)"
    using xf(2) n8 by (auto simp: space_counts_def mono_TRIMMED_CHARS_OFFSET_def mult.commute)
  have cell: "wf_varchar_cell f v" using assms(1) by (simp add: wf_space_pad_def)
  have "varchar_len f v \<le> ?cap" "length (varchar_data f v (varchar_len f v)) = varchar_len f v"
    using cell by (auto simp: wf_varchar_cell_def varchar_cap_def varchar_data_def)
  then have room: "length (chars b cs ws) + t \<le> ?cap" unfolding d by simp
  have "unpack_space_pad_loop b (Suc (b * q)) (Some cs) ?cap (b * (n - t)) [] r =
      Some ([] @ chars b cs ws @ chars b cs (replicate (n - (n - t)) ?spc), rd_adv (length (space_pad_image fpi f v)) r)"
    by (rule unpack_space_pad_units [OF sp [unfolded q] ok])
       (use e n assms(4) room xf(1) q chars_spaces [OF cs(2)] in auto)
  then have loop: "unpack_space_pad_loop b (m_segment_size fpi) (m_varchar_charset fpi) ?cap (b * (n - t)) [] r =
      Some (chars b cs ws @ replicate (min n t) (cs_pad_char cs), rd_adv (length (space_pad_image fpi f v)) r)"
    by (simp add: p(1) q cs(1) chars_spaces [OF cs(2)] min_def)
  obtain c' where c': "store_varchar f c (varchar_data f v (varchar_len f v)) = Some c'" "same_varchar f v c'"
    by (rule store_varchar_ok [OF cell assms(3)])
  have "store_spaces fpi f c (t - n) (chars b cs ws @ replicate (min n t) (cs_pad_char cs)) = Some c'"
    using c'(1) room unfolding d
    by (cases "t \<le> n") (simp_all add: store_spaces_def cs(1) min_def flip: replicate_add)
  then show ?thesis
    using u c'(2) cnt loop by (simp add: unpack_binary_or_utf8_varchar_space_pad_def)
qed

interpretation space_pad_unpack: unpack_codec "wf_space_pad_text b fpi f" "dest_len (field_pack_length f)"
  "space_pad_image fpi f" "space_pad_info fpi f" "unpack_binary_or_utf8_varchar_space_pad b fpi f"
  "same_varchar f" for b fpi f
  by unfold_locales (auto simp: wf_space_pad_text_def intro: space_pad_unpack)

text \<open>A latin1_bin \<open>VARCHAR(12)\<close> column.\<close>

definition latin1_varchar :: field where
  "latin1_varchar = (example_field MYSQL_TYPE_VARCHAR 13 False)
     \<lparr>field_length := 12, length_bytes := 1, field_charset := my_charset_latin1_bin (\<lambda>wc n. None)\<rparr>"

definition latin1_packing :: mono_field_packing where
  "latin1_packing = (example_packing 12 Unpack_binary_varchar_space_pad)
     \<lparr>m_varchar_charset := Some (my_charset_latin1_bin (\<lambda>wc n. None)), m_segment_size := 9,
      space_xfrm := Some (replicate 32 32), space_xfrm_len := 1, space_mb_len := 1,
      m_pack_func := Some Pack_varchar_space_pad, m_skip_func := Skip_variable_space_pad\<rparr>"

definition latin1_cell :: "bytes \<Rightarrow> cell" where
  "latin1_cell text = example_cell (of_nat (length text) # text @ replicate (12 - length text) 0)"

lemmas latin1_defs = latin1_packing_def latin1_varchar_def latin1_cell_def example_defs my_charset_latin1_bin_def

lemma latin1_wf:
  "wf_space_pad latin1_packing latin1_varchar (latin1_cell [97, 98, 32, 32])"
  "wf_space_pad latin1_packing latin1_varchar (latin1_cell [97, 98, 9])"
  by (simp_all add: wf_space_pad_def wf_varchar_cell_def wf_spaces_def ok_spaces_def space_unit_def varchar_cap_def
      space_pad_xfrm_def varchar_len_def varchar_trimmed_len_def varchar_data_def latin1_defs
      my_lengthsp_8bit_def char_length_def my_strnxfrm_8bit_bin_def UINT_MAX_def)

text \<open>
  C25. The space-padded encoding sorts by the PAD SPACE rule: packing is defined,
  and for two values of a column, whatever bytes follow their encodings, the
  encodings compare byte-wise as the values' collation images do when the shorter
  image is extended with spaces; the following bytes decide exactly when the
  images differ by trailing spaces only.
\<close>

theorem space_pad_order:
  assumes "wf_space_pad fpi f a" "wf_space_pad fpi f b"
  shows "\<exists>ea eb. pack_with_varchar_space_pad fpi f a None = Some (ea, None) \<and>
           pack_with_varchar_space_pad fpi f b None = Some (eb, None) \<and>
           lexlt (ea @ s) (eb @ t) =
             (if lt_space_pad fpi f a b then True else if lt_space_pad fpi f b a then False else lexlt s t)"
proof -
  have pack: "pack_with_varchar_space_pad fpi f c None = Some (space_pad_image fpi f c, None)"
    if "wf_space_pad fpi f c" for c
    by (rule space_pad_image_loop [OF that]) (simp add: pack_with_varchar_space_pad_def)
  consider "lt_space_pad fpi f a b" | "lt_space_pad fpi f b a" "\<not> lt_space_pad fpi f a b"
    | "\<not> lt_space_pad fpi f a b" "\<not> lt_space_pad fpi f b a" by blast
  then have "lexlt (space_pad_image fpi f a @ s) (space_pad_image fpi f b @ t) =
      (if lt_space_pad fpi f a b then True else if lt_space_pad fpi f b a then False else lexlt s t)"
  proof cases
    case 1
    then show ?thesis
      using lexlt_in_imp_lexlt [OF space_pad_codec.enc_lt [of None f fpi a b]] assms by simp
  next
    case 2
    then have "lexlt (space_pad_image fpi f b @ t) (space_pad_image fpi f a @ s)"
      using lexlt_in_imp_lexlt [OF space_pad_codec.enc_lt [of None f fpi b a]] assms by simp
    with 2 show ?thesis using lexlt_asym by auto
  next
    case 3
    then have "space_pad_image fpi f a = space_pad_image fpi f b"
      using space_pad_codec.enc_eq [of None f fpi a b] assms by simp
    with 3 show ?thesis by simp
  qed
  with pack [OF assms(1)] pack [OF assms(2)] show ?thesis by blast
qed

theorem space_pad_order_witness:
  "\<exists>ea eb. pack_with_varchar_space_pad latin1_packing latin1_varchar (latin1_cell [97, 98, 9]) None = Some (ea, None) \<and>
     pack_with_varchar_space_pad latin1_packing latin1_varchar (latin1_cell [97, 98, 32, 32]) None = Some (eb, None) \<and>
     lexlt (ea @ [9]) (eb @ [1])"
proof -
  have "lt_space_pad latin1_packing latin1_varchar (latin1_cell [97, 98, 9]) (latin1_cell [97, 98, 32, 32])"
    by code_simp
  then show ?thesis using space_pad_order [OF latin1_wf(2,1), of "[9]" "[1]"] by simp
qed

text \<open>
  C27. The space-padded encoding is lossless together with its unpack information:
  from the image of a value and the number of trailing spaces that packing
  wrote, unpacking restores the value with exactly its trailing spaces and
  consumes exactly the image and that number. This holds for one-byte images
  and for two- and three-byte code-point images whose encoder gives the text back.
\<close>

theorem space_pad_roundtrip:
  assumes "wf_space_pad fpi f v" "space_pad_text b fpi f v ws t" "dest_len (field_pack_length f) c"
    and "pack_with_varchar_space_pad fpi f v (Some empty_writer) = Some (enc, Some info)"
    and "rd_at r (enc @ rest)" "rd_at u (wr_data info @ urest)"
  shows "\<exists>c' u'. unpack_binary_or_utf8_varchar_space_pad b fpi f c r (Some u) =
      Some (c', rd_adv (length enc) r, Some u') \<and> same_varchar f v c' \<and> rd_at u' urest"
proof -
  have e: "space_pad_image fpi f v = enc"
    by (rule space_pad_image_loop [OF assms(1)])
       (use assms(4) in \<open>auto simp: pack_with_varchar_space_pad_def Let_def split: if_splits\<close>)
  have i: "space_pad_info fpi f v = wr_data info" using assms(4) by (simp add: space_pad_info_def)
  have wf: "wf_space_pad_text b fpi f v" using assms(1,2) by (auto simp: wf_space_pad_text_def)
  obtain c' ur' where "unpack_binary_or_utf8_varchar_space_pad b fpi f c r (Some u) =
      Some (c', rd_adv (length enc) r, ur')" "same_varchar f v c'" "info_at ur' urest"
    using space_pad_unpack.unpack_enc [OF wf assms(3), of r rest "Some u" urest] assms(5,6) e i by auto
  moreover from this(1) obtain u' where "ur' = Some u'"
    by (auto simp: unpack_binary_or_utf8_varchar_space_pad_def split: option.splits prod.splits)
  ultimately show ?thesis by auto
qed

lemma latin1_text: "space_pad_text 1 latin1_packing latin1_varchar (latin1_cell [97, 98, 32, 32]) [97, 98] (Suc 1)"
  by (simp add: space_pad_text_def latin1_packing_def latin1_varchar_def latin1_cell_def example_defs
      my_charset_latin1_bin_def ok_wcs_def wc_ok_def mb_of_def units_def chars_def space_unit_def be_bytes_def
      mono_TRIMMED_CHARS_OFFSET_def varchar_data_def varchar_len_def varchar_trimmed_len_def my_lengthsp_8bit_def
      space_pad_xfrm_def char_length_def my_strnxfrm_8bit_bin_def)

theorem space_pad_roundtrip_witness:
  "\<exists>c' u'. unpack_binary_or_utf8_varchar_space_pad 1 latin1_packing latin1_varchar (latin1_cell [])
       (reader_of_slice [97, 98, 32, 32, 32, 32, 32, 32, 2, 7]) (Some (reader_of_slice [4])) =
     Some (c', rd_adv 9 (reader_of_slice [97, 98, 32, 32, 32, 32, 32, 32, 2, 7]), Some u') \<and>
     same_varchar latin1_varchar (latin1_cell [97, 98, 32, 32]) c'"
proof -
  have loop: "space_pad_loop 9 (replicate 32 32) [97, 98] = Some ([97, 98, 32, 32, 32, 32, 32, 32, 2], 6)"
    by code_simp
  have pack: "pack_with_varchar_space_pad latin1_packing latin1_varchar (latin1_cell [97, 98, 32, 32]) (Some empty_writer)
      = Some ([97, 98, 32, 32, 32, 32, 32, 32, 2], Some \<lparr>wr_data = [4]\<rparr>)"
    using loop
    by (simp add: pack_with_varchar_space_pad_def latin1_defs space_pad_removed_def write_uint8_def empty_writer_def
      space_pad_xfrm_def varchar_len_def varchar_trimmed_len_def varchar_data_def mono_TRIMMED_CHARS_OFFSET_def
      my_lengthsp_8bit_def char_length_def my_strnxfrm_8bit_bin_def)
  have dest: "dest_len (field_pack_length latin1_varchar) (latin1_cell [])"
    by (simp add: dest_len_def latin1_varchar_def latin1_cell_def example_defs)
  have rd: "rd_at (reader_of_slice [97, 98, 32, 32, 32, 32, 32, 32, 2, 7]) ([97, 98, 32, 32, 32, 32, 32, 32, 2] @ [7])"
    "rd_at (reader_of_slice [4]) (wr_data \<lparr>wr_data = [4]\<rparr> @ [])"
    by (simp_all add: rd_at_of_slice)
  have len: "length ([97, 98, 32, 32, 32, 32, 32, 32, 2] :: bytes) = 9" by simp
  show ?thesis
    using space_pad_roundtrip [OF latin1_wf(1) latin1_text dest pack rd] unfolding len by blast
qed

end
