(* ===== verification/Collation_Codec.thy ===== *)
theory Collation_Codec
  imports Space_Pad
begin

text \<open>
  Collations whose sort images lose information. For a one-byte collation with a
  weight table (\<open>mono_init_collation_mapping\<close>) the number of a character among
  those with its weight is kept as a bit field of the unpack information; for
  all other collations the whole value is kept there. This theory holds the
  construction of the tables, the functions that write and read the unpack
  information, the packing of blob prefixes and of \<open>CHAR\<close> in utf8, and the
  description of the space character of a collation.
\<close>

section \<open>Bit counting of the server library\<close>

definition my_bit_log2_hex_digit :: "8 word \<Rightarrow> nat" where
  "my_bit_log2_hex_digit value =
     (if value AND 0x0C \<noteq> 0 then (if value AND 0x08 \<noteq> 0 then 3 else 2)
      else if value AND 0x02 \<noteq> 0 then 1 else 0)"

definition my_bit_log2_uint8 :: "8 word \<Rightarrow> nat" where
  "my_bit_log2_uint8 value =
     (if value AND 0xF0 \<noteq> 0 then my_bit_log2_hex_digit (drop_bit 4 value) + 4
      else my_bit_log2_hex_digit value)"

definition my_bit_log2_uint16 :: "16 word \<Rightarrow> nat" where
  "my_bit_log2_uint16 value =
     (if value AND 0xFF00 \<noteq> 0 then my_bit_log2_uint8 (ucast (drop_bit 8 value)) + 8
      else my_bit_log2_uint8 (ucast value))"

definition my_bit_log2_uint32 :: "32 word \<Rightarrow> nat" where
  "my_bit_log2_uint32 value =
     (if value AND 0xFFFF0000 \<noteq> 0 then my_bit_log2_uint16 (ucast (drop_bit 16 value)) + 16
      else my_bit_log2_uint16 (ucast value))"

definition my_round_up_to_next_power :: "32 word \<Rightarrow> 32 word" where
  "my_round_up_to_next_power v =
     (let v = v - 1; v = v OR drop_bit 1 v; v = v OR drop_bit 2 v; v = v OR drop_bit 4 v;
          v = v OR drop_bit 8 v; v = v OR drop_bit 16 v
      in v + 1)"

section \<open>The tables of a simple collation\<close>

definition mono_is_collation_supported :: "charset_info \<Rightarrow> bool" where
  "mono_is_collation_supported cs \<longleftrightarrow>
     cs_strxfrm_multiply cs = 1 \<and> cs_mbmaxlen cs = 1 \<and> \<not> (cs_binsort cs \<or> cs_nopad cs)"

definition all_bytes :: "byte list" where "all_bytes = map of_nat [0..<256]"

text \<open>The reverse map of the weights and the size of its largest entry.\<close>

definition rev_map_push ::
  "(byte \<Rightarrow> byte) \<Rightarrow> byte \<Rightarrow> (byte \<Rightarrow> byte list) \<times> nat \<Rightarrow> (byte \<Rightarrow> byte list) \<times> nat" where
  "rev_map_push sort_order src st =
     (case st of (rev_map, max_conflict_size) \<Rightarrow>
        let dst = sort_order src; rev_map' = rev_map(dst := rev_map dst @ [src])
        in (rev_map', max max_conflict_size (length (rev_map' dst))))"

definition build_rev_map :: "(byte \<Rightarrow> byte) \<Rightarrow> (byte \<Rightarrow> byte list) \<times> nat" where
  "build_rev_map sort_order = fold (rev_map_push sort_order) all_bytes (\<lambda>_. [], 0)"

definition codec_bits :: "nat \<Rightarrow> byte" where
  "codec_bits n = of_nat (my_bit_log2_uint32 (my_round_up_to_next_power (of_nat n)))"

text \<open>The body of the inner loop for one character of a weight.\<close>

definition codec_put :: "byte \<Rightarrow> nat \<Rightarrow> nat \<times> byte \<Rightarrow> mono_collation_codec \<Rightarrow> mono_collation_codec" where
  "codec_put dst n idx_src cur =
     (case idx_src of (idx, src) \<Rightarrow>
        cur\<lparr>m_enc_idx := (m_enc_idx cur)(src := of_nat idx),
            m_enc_size := (m_enc_size cur)(src := codec_bits n),
            m_dec_size := (m_dec_size cur)(dst := codec_bits n),
            m_dec_idx := (m_dec_idx cur)[idx := (m_dec_idx cur ! idx)(dst := src)]\<rparr>)"

definition codec_put_weight ::
  "(byte \<Rightarrow> byte list) \<Rightarrow> byte \<Rightarrow> mono_collation_codec \<Rightarrow> mono_collation_codec" where
  "codec_put_weight rev_map dst cur =
     fold (codec_put dst (length (rev_map dst))) (enumerate 0 (rev_map dst)) cur"

text \<open>
  The tables; entries the source leaves unset are 0 here and are read for no
  character. The source computes them once per collation and keeps them.
\<close>

definition mono_init_collation_mapping :: "charset_info \<Rightarrow> mono_collation_codec option" where
  "mono_init_collation_mapping cs =
     (if mono_is_collation_supported cs
      then (case build_rev_map (cs_sort_order cs) of (rev_map, max_conflict_size) \<Rightarrow>
              Some (fold (codec_put_weight rev_map) all_bytes
                \<lparr>m_enc_idx = (\<lambda>_. 0), m_enc_size = (\<lambda>_. 0), m_dec_size = (\<lambda>_. 0),
                 m_dec_idx = replicate max_conflict_size (\<lambda>_. 0)\<rparr>))
      else None)"

section \<open>The space character of a collation\<close>

definition mono_SPACE_XFRM_SIZE :: nat where "mono_SPACE_XFRM_SIZE = 32"

definition MAX_MULTI_BYTE_CHAR_SIZE :: nat where "MAX_MULTI_BYTE_CHAR_SIZE = 4"

text \<open>Append the image of a space until the sample is long enough; \<open>None\<close>: endless.\<close>

function fill_spaces :: "bytes \<Rightarrow> bytes \<Rightarrow> bytes option" where
  "fill_spaces space acc =
     (if length acc < mono_SPACE_XFRM_SIZE
      then (if space = [] then None else fill_spaces space (acc @ space))
      else Some acc)"
  by pat_completeness auto
termination
  by (relation "measure (\<lambda>(_, acc). mono_SPACE_XFRM_SIZE - length acc)") (auto intro: diff_less_mono2)

declare fill_spaces.simps [simp del]

text \<open>\<open>spaces_xfrm\<close>, \<open>space_xfrm_len\<close> and \<open>space_mb_len\<close>; the source keeps them per collation.\<close>

definition mono_get_mem_comparable_space :: "charset_info \<Rightarrow> (bytes \<times> nat \<times> nat) option" where
  "mono_get_mem_comparable_space cs =
     (case cs_wc_mb cs (unat (cs_pad_char cs)) MAX_MULTI_BYTE_CHAR_SIZE of None \<Rightarrow> None
      | Some space_mb \<Rightarrow>
          let space = cs_strnxfrm cs 20 1 space_mb
          in map_option (\<lambda>xfrm. (xfrm, length space, length space_mb)) (fill_spaces space []))"

definition get_segment_size_from_collation :: "charset_info \<Rightarrow> nat" where
  "get_segment_size_from_collation cs = (if cs_number cs = COLLATION_UTF8MB4_BIN then 10 else 9)"

section \<open>Unpack information\<close>

definition make_unpack_unknown :: "field \<Rightarrow> cell \<Rightarrow> mono_string_writer \<Rightarrow> mono_string_writer" where
  "make_unpack_unknown f c w = wr_write (take (field_pack_length f) (c_img c)) w"

definition dummy_make_unpack_info :: "field \<Rightarrow> cell \<Rightarrow> mono_string_writer \<Rightarrow> mono_string_writer" where
  "dummy_make_unpack_info f c w = w"

definition make_unpack_unknown_varchar :: "field \<Rightarrow> cell \<Rightarrow> mono_string_writer \<Rightarrow> mono_string_writer" where
  "make_unpack_unknown_varchar f c w =
     wr_write (take (varchar_len f c + length_bytes f) (c_img c)) w"

fun mono_write_unpack_simple :: "mono_collation_codec \<Rightarrow> bytes \<Rightarrow> mono_bit_writer \<Rightarrow> mono_bit_writer" where
  "mono_write_unpack_simple codec [] writer = writer"
| "mono_write_unpack_simple codec (s # src) writer =
     mono_write_unpack_simple codec src
       (bit_write (unat (m_enc_size codec s)) (ucast (m_enc_idx codec s)) writer)"

text \<open>
  Decode one character after the other; the reader is \<open>None\<close> where the source has
  a null pointer. Reading behind the decode table is undefined.
\<close>

definition read_simple_char ::
  "mono_collation_codec \<Rightarrow> byte \<Rightarrow> mono_bit_reader option \<Rightarrow> (byte \<times> mono_bit_reader option) option" where
  "read_simple_char codec s reader =
     (if 0 < m_dec_size codec s
      then (case reader of None \<Rightarrow> None
            | Some b \<Rightarrow>
                (case bit_read (unat (m_dec_size codec s)) b of None \<Rightarrow> None
                 | Some (ret, b') \<Rightarrow>
                     if unat ret < length (m_dec_idx codec)
                     then Some ((m_dec_idx codec ! unat ret) s, Some b') else None))
      else if m_dec_idx codec = [] then None
      else Some ((m_dec_idx codec ! 0) s, reader))"

fun mono_read_unpack_simple ::
  "mono_collation_codec \<Rightarrow> bytes \<Rightarrow> mono_bit_reader option \<Rightarrow> (bytes \<times> mono_bit_reader option) option" where
  "mono_read_unpack_simple codec [] reader = Some ([], reader)"
| "mono_read_unpack_simple codec (s # src) reader =
     (case read_simple_char codec s reader of None \<Rightarrow> None
      | Some (d, reader') \<Rightarrow>
          map_option (\<lambda>(ds, rd). (d # ds, rd)) (mono_read_unpack_simple codec src reader'))"

definition make_unpack_simple_varchar ::
  "mono_collation_codec \<Rightarrow> field \<Rightarrow> cell \<Rightarrow> mono_string_writer \<Rightarrow> mono_string_writer" where
  "make_unpack_simple_varchar codec f c w =
     bw_writer (mono_write_unpack_simple codec
       (varchar_data f c (min (char_length f) (varchar_len f c))) (new_bit_writer w))"

definition make_unpack_simple ::
  "mono_collation_codec \<Rightarrow> field \<Rightarrow> cell \<Rightarrow> mono_string_writer \<Rightarrow> mono_string_writer" where
  "make_unpack_simple codec f c w =
     bw_writer (mono_write_unpack_simple codec (take (field_pack_length f) (c_img c)) (new_bit_writer w))"

section \<open>Unpacking\<close>

definition unpack_simple ::
  "mono_field_packing \<Rightarrow> field \<Rightarrow> cell \<Rightarrow> mono_string_reader \<Rightarrow> mono_string_reader option \<Rightarrow> unpack_result" where
  "unpack_simple fpi f c r ur =
     (case read_bytes (m_max_image_len fpi) r of (None, _) \<Rightarrow> None
      | (Some ptr, r') \<Rightarrow>
          (case m_charset_codec fpi of None \<Rightarrow> None
           | Some codec \<Rightarrow>
               (case mono_read_unpack_simple codec ptr (map_option new_bit_reader ur) of None \<Rightarrow> None
                | Some (bs, rd) \<Rightarrow>
                    map_option (\<lambda>c'. (c', r', map_option br_reader rd)) (put_image c bs))))"

function unpack_simple_space_pad_loop ::
  "nat \<Rightarrow> mono_collation_codec \<Rightarrow> nat \<Rightarrow> nat \<Rightarrow> bytes \<Rightarrow> mono_bit_reader \<Rightarrow> mono_string_reader \<Rightarrow>
   (bytes \<times> mono_bit_reader \<times> mono_string_reader) option" where
  "unpack_simple_space_pad_loop seg_size codec cap space_padding_bytes out br r =
     (if seg_size = 0 then None
      else case read_bytes seg_size r of
        (None, _) \<Rightarrow> None
      | (Some ptr, r') \<Rightarrow>
          let last_byte = ptr ! (seg_size - 1); finished = (last_byte = VARCHAR_CMP_EQUAL_TO_SPACES);
              used_bytes = (if finished then seg_size - 1 - space_padding_bytes else seg_size - 1)
          in if finished \<and> seg_size - 1 < space_padding_bytes then None
             else if \<not> finished \<and> last_byte \<noteq> VARCHAR_CMP_LESS_THAN_SPACES \<and>
                     last_byte \<noteq> VARCHAR_CMP_GREATER_THAN_SPACES then None
             else if cap < length out + used_bytes then None
             else (case mono_read_unpack_simple codec (take used_bytes ptr) (Some br) of
                     Some (bs, Some br') \<Rightarrow>
                       if finished then Some (out @ bs, br', r')
                       else unpack_simple_space_pad_loop seg_size codec cap space_padding_bytes (out @ bs) br' r'
                   | _ \<Rightarrow> None))"
  by pat_completeness auto
termination
  by (relation "measure (\<lambda>(_, _, _, _, _, _, r). m_len r)")
     (auto simp: read_bytes_def rd_read_def split: if_splits)

declare unpack_simple_space_pad_loop.simps [simp del]

definition unpack_simple_varchar_space_pad ::
  "mono_field_packing \<Rightarrow> field \<Rightarrow> cell \<Rightarrow> mono_string_reader \<Rightarrow> mono_string_reader option \<Rightarrow> unpack_result" where
  "unpack_simple_varchar_space_pad fpi f c r ur =
     (case (ur, m_charset_codec fpi) of
        (Some u, Some codec) \<Rightarrow>
          (case read_extra_spaces fpi u of (None, _) \<Rightarrow> None
           | (Some e, u') \<Rightarrow>
             (case space_counts fpi e of (space_padding_bytes, extra_spaces) \<Rightarrow>
               (case unpack_simple_space_pad_loop (m_segment_size fpi) codec
                       (field_pack_length f - length_bytes f) space_padding_bytes [] (new_bit_reader u') r of
                  None \<Rightarrow> None
                | Some (out, br, r') \<Rightarrow>
                    if extra_spaces \<noteq> 0 \<and> field_pack_length f - length_bytes f < length out + extra_spaces then None
                    else map_option (\<lambda>c'. (c', r', Some (br_reader br)))
                      (store_varchar f c (out @ replicate extra_spaces (cs_pad_char (field_charset f)))))))
      | _ \<Rightarrow> None)"

definition unpack_unknown ::
  "mono_field_packing \<Rightarrow> field \<Rightarrow> cell \<Rightarrow> mono_string_reader \<Rightarrow> mono_string_reader option \<Rightarrow> unpack_result" where
  "unpack_unknown fpi f c r ur =
     (case (skip_max_length fpi r, ur) of
        (Some r', Some u) \<Rightarrow>
          (case read_bytes (m_unpack_data_len fpi) u of (None, _) \<Rightarrow> None
           | (Some ptr, u') \<Rightarrow> map_option (\<lambda>c'. (c', r', Some u')) (put_image c ptr))
      | _ \<Rightarrow> None)"

text \<open>The indirect call of the part's skip function.\<close>

definition skip_part ::
  "mono_field_packing \<Rightarrow> field option \<Rightarrow> mono_string_reader \<Rightarrow> mono_string_reader option" where
  "skip_part fpi fo r =
     (case m_skip_func fpi of
        Skip_max_length \<Rightarrow> skip_max_length fpi r
      | Skip_variable_length \<Rightarrow> skip_variable_length fo r
      | Skip_variable_space_pad \<Rightarrow> skip_variable_space_pad fpi fo r)"

text \<open>
  The length bytes and the data come from the unpack information; a copy behind
  the end of the column's room is undefined.
\<close>

definition unpack_unknown_varchar ::
  "mono_field_packing \<Rightarrow> field \<Rightarrow> cell \<Rightarrow> mono_string_reader \<Rightarrow> mono_string_reader option \<Rightarrow> unpack_result" where
  "unpack_unknown_varchar fpi f c r ur =
     (case (skip_part fpi (Some f) r, ur) of
        (Some r', Some u) \<Rightarrow>
          (case read_bytes (length_bytes f) u of (None, _) \<Rightarrow> None
           | (Some ptr, u') \<Rightarrow>
             (case put_image c ptr of None \<Rightarrow> None
              | Some c1 \<Rightarrow>
                (case read_bytes (if length_bytes f = 1 then unat (hd ptr) else le_val (take 2 ptr)) u' of
                   (None, _) \<Rightarrow> None
                 | (Some d, u'') \<Rightarrow>
                     map_option (\<lambda>img. (c1\<lparr>c_img := img\<rparr>, r', Some u''))
                       (memcpy_at (c_img c1) (length_bytes f) d))))
      | _ \<Rightarrow> None)"

text \<open>
  \<open>CHAR(n)\<close> in utf8: decode every code point, then fill with pad characters. A code
  point without an encoding aborts the server.
\<close>

definition unpack_utf8_str ::
  "nat \<Rightarrow> mono_field_packing \<Rightarrow> field \<Rightarrow> cell \<Rightarrow> mono_string_reader \<Rightarrow> mono_string_reader option \<Rightarrow> unpack_result" where
  "unpack_utf8_str bytes fpi f c r ur =
     (case read_bytes (m_max_image_len fpi) r of (None, _) \<Rightarrow> None
      | (Some src, r') \<Rightarrow>
          (case unpack_wc_loop bytes (field_charset f) (field_pack_length f) src [] of None \<Rightarrow> None
           | Some out \<Rightarrow>
               map_option (\<lambda>c'. (c', r', ur))
                 (put_image c (out @ replicate (field_pack_length f - length out) (cs_pad_char (field_charset f))))))"

section \<open>Blob prefixes\<close>

text \<open>\<open>Field_blob::get_length\<close>: the little-endian length in front of the data pointer.\<close>

definition blob_get_length :: "field \<Rightarrow> cell \<Rightarrow> nat" where
  "blob_get_length f c = le_val (take (blob_packlength f) (c_img c))"

text \<open>
  \<open>m_max_image_len\<close> bytes are written in every case: the image fills them, or for
  the binary collation all but the length bytes at the end.
\<close>

definition pack_blob :: "mono_field_packing \<Rightarrow> field \<Rightarrow> cell \<Rightarrow> bytes" where
  "pack_blob fpi f c =
     (let len = m_max_image_len fpi; cs = field_charset f; blob_length = blob_get_length f c;
          packlength = blob_packlength f
      in if blob_length = 0 \<and> cs_pad_char cs = 0 then replicate len 0
         else if cs_number cs = COLLATION_BINARY
         then let data_len = len - packlength; key_length = min blob_length data_len
              in cs_strnxfrm_pad cs data_len (data_len div cs_mbmaxlen cs) (take blob_length (c_blob c))
                   @ be_bytes packlength key_length
         else cs_strnxfrm_pad cs len (len div cs_mbmaxlen cs) (take blob_length (c_blob c)))"

section \<open>The tables decode what they encode\<close>

lemma all_bytes_set [simp]: "set all_bytes = UNIV"
proof -
  have "b \<in> set all_bytes" for b
    unfolding all_bytes_def by (auto intro!: image_eqI [of _ _ "unat b"])
  then show ?thesis by blast
qed

lemma distinct_all_bytes: "distinct all_bytes"
  by (auto simp: all_bytes_def distinct_map inj_on_def byte_eq_of_nat_iff)

lemma length_all_bytes [simp]: "length all_bytes = 256"
  by (simp add: all_bytes_def)

lemma build_rev_map_fold:
  "fold (rev_map_push so) xs (m, n) = (m', n') \<Longrightarrow>
   m' dst = m dst @ filter (\<lambda>s. so s = dst) xs \<and> n \<le> n' \<and>
   (filter (\<lambda>s. so s = dst) xs \<noteq> [] \<longrightarrow> length (m' dst) \<le> n')"
proof (induction xs arbitrary: m n)
  case (Cons x xs)
  let ?m = "m(so x := m (so x) @ [x])"
  have "rev_map_push so x (m, n) = (?m, max n (length (?m (so x))))"
    by (simp add: rev_map_push_def Let_def)
  then have "fold (rev_map_push so) xs (?m, max n (length (?m (so x)))) = (m', n')"
    using Cons.prems by simp
  from Cons.IH [OF this] show ?case
    by (cases "so x = dst"; cases "filter (\<lambda>s. so s = dst) xs = []") auto
qed simp

lemma build_rev_map_spec:
  assumes "build_rev_map so = (m, n)"
  shows "m dst = filter (\<lambda>s. so s = dst) all_bytes" "length (m dst) \<le> n"
  using build_rev_map_fold [OF assms [unfolded build_rev_map_def], of dst] by auto

text \<open>
  \<open>codec_for so codec s\<close>: the tables take the character \<open>s\<close> to its number among those
  of its weight and back, in a bit field that is wide enough.
\<close>

definition codec_for :: "(byte \<Rightarrow> byte) \<Rightarrow> mono_collation_codec \<Rightarrow> byte \<Rightarrow> bool" where
  "codec_for so codec s \<longleftrightarrow>
     unat (m_enc_idx codec s) < length (m_dec_idx codec) \<and>
     (m_dec_idx codec ! unat (m_enc_idx codec s)) (so s) = s \<and>
     m_enc_size codec s = m_dec_size codec (so s) \<and>
     m_enc_size codec s = codec_bits (length (filter (\<lambda>t. so t = so s) all_bytes)) \<and>
     unat (m_enc_idx codec s) < 2 ^ unat (m_enc_size codec s)"

text \<open>Smearing the bits of a word to the right: each step doubles the reach.\<close>

lemma smear_step:
  fixes v x :: "32 word"
  assumes "\<And>i. bit v i \<longleftrightarrow> (\<exists>j\<ge>i. j < i + m \<and> bit x j)"
  shows "bit (v OR drop_bit m v) i \<longleftrightarrow> (\<exists>j\<ge>i. j < i + (m + m) \<and> bit x j)"
proof -
  have "bit (v OR drop_bit m v) i \<longleftrightarrow> (\<exists>j\<ge>i. j < i + m \<and> bit x j) \<or> (\<exists>j\<ge>m + i. j < m + i + m \<and> bit x j)"
    by (simp add: bit_or_iff bit_drop_bit_eq assms)
  also have "\<dots> \<longleftrightarrow> (\<exists>j\<ge>i. j < i + (m + m) \<and> bit x j)"
  proof (intro iffI)
    assume "\<exists>j\<ge>i. j < i + (m + m) \<and> bit x j"
    then obtain j where "j \<ge> i" "j < i + (m + m)" "bit x j" by blast
    then show "(\<exists>j\<ge>i. j < i + m \<and> bit x j) \<or> (\<exists>j\<ge>m + i. j < m + i + m \<and> bit x j)"
      by (cases "j < i + m") (auto intro!: exI [of _ j])
  next
    assume "(\<exists>j\<ge>i. j < i + m \<and> bit x j) \<or> (\<exists>j\<ge>m + i. j < m + i + m \<and> bit x j)"
    then obtain j where "i \<le> j \<and> j < i + m \<or> m + i \<le> j \<and> j < m + i + m" "bit x j" by blast
    then have "i \<le> j \<and> j < i + (m + m) \<and> bit x j" by linarith
    then show "\<exists>j\<ge>i. j < i + (m + m) \<and> bit x j" by blast
  qed
  finally show ?thesis .
qed

lemma round_up_power:
  assumes "unat x < 2 ^ 8"
  obtains k where "k \<le> 8" "my_round_up_to_next_power (x + 1) = 2 ^ k" "unat x < 2 ^ k"
proof -
  define v1 where "v1 = x OR drop_bit 1 x"
  define v2 where "v2 = v1 OR drop_bit 2 v1"
  define v4 where "v4 = v2 OR drop_bit 4 v2"
  define v8 where "v8 = v4 OR drop_bit 8 v4"
  define v16 where "v16 = v8 OR drop_bit 16 v8"
  have b0: "bit x i \<longleftrightarrow> (\<exists>j\<ge>i. j < i + 1 \<and> bit x j)" for i by (auto simp: less_Suc_eq_le)
  have b1: "bit v1 i \<longleftrightarrow> (\<exists>j\<ge>i. j < i + 2 \<and> bit x j)" for i
    using smear_step [OF b0, of i] by (simp add: v1_def)
  have b2: "bit v2 i \<longleftrightarrow> (\<exists>j\<ge>i. j < i + 4 \<and> bit x j)" for i
    using smear_step [OF b1, of i] by (simp add: v2_def)
  have b4: "bit v4 i \<longleftrightarrow> (\<exists>j\<ge>i. j < i + 8 \<and> bit x j)" for i
    using smear_step [OF b2, of i] by (simp add: v4_def)
  have b8: "bit v8 i \<longleftrightarrow> (\<exists>j\<ge>i. j < i + 16 \<and> bit x j)" for i
    using smear_step [OF b4, of i] by (simp add: v8_def)
  have b16: "bit v16 i \<longleftrightarrow> (\<exists>j\<ge>i. j < i + 32 \<and> bit x j)" for i
    using smear_step [OF b8, of i] by (simp add: v16_def)
  have hi: "\<not> bit x j" if "j \<ge> 8" for j
  proof -
    have "unat x div 2 ^ j = 0"
      using assms that by (intro div_less order_less_le_trans [OF assms] power_increasing) simp_all
    then have "\<not> bit (unat x) j" by (simp add: bit_iff_odd)
    then show ?thesis by (auto simp: bit_unsigned_iff dest: bit_imp_le_length)
  qed
  define k where "k = (LEAST k. \<forall>j\<ge>k. \<not> bit x j)"
  have k8: "k \<le> 8" unfolding k_def using hi by (intro Least_le) blast
  have above: "\<not> bit x j" if "j \<ge> k" for j
    using LeastI [of "\<lambda>k. \<forall>j\<ge>k. \<not> bit x j" 8] hi that unfolding k_def by blast
  have "bit v16 i \<longleftrightarrow> i < k" for i
  proof
    assume "bit v16 i"
    then show "i < k" using b16 above by (meson leI le_trans)
  next
    assume i: "i < k"
    then obtain j where j: "j \<ge> i" "bit x j"
      using not_less_Least [of i "\<lambda>k. \<forall>j\<ge>k. \<not> bit x j"] unfolding k_def by blast
    then have "\<not> 8 \<le> j" using hi by blast
    then have "j < i + 32" by linarith
    then show "bit v16 i" using b16 j by blast
  qed
  then have "v16 = mask k" by (intro bit_word_eqI) (simp add: bit_mask_iff)
  then have "my_round_up_to_next_power (x + 1) = mask k + 1"
    unfolding my_round_up_to_next_power_def Let_def by (simp add: v1_def v2_def v4_def v8_def v16_def)
  then have "my_round_up_to_next_power (x + 1) = 2 ^ k" by (simp add: mask_eq_exp_minus_1)
  moreover have "unat x < 2 ^ k"
  proof -
    have "take_bit k x = x" using above by (intro bit_word_eqI) (auto simp: bit_take_bit_iff not_le [symmetric])
    then show ?thesis by (metis take_bit_nat_less_exp unsigned_take_bit_eq)
  qed
  ultimately show thesis using that k8 by blast
qed

lemma log2_power: "k \<le> 8 \<Longrightarrow> my_bit_log2_uint32 (2 ^ k) = k"
proof -
  have "\<forall>k\<in>set [0..<9]. my_bit_log2_uint32 (2 ^ k) = k" by code_simp
  then show "k \<le> 8 \<Longrightarrow> my_bit_log2_uint32 (2 ^ k) = k" by (simp add: Ball_def)
qed

lemma codec_bits_wide:
  assumes "0 < n" "n \<le> 256"
  shows "n \<le> 2 ^ unat (codec_bits n)"
proof -
  obtain m where m: "n = Suc m" "m < 256" using assms by (cases n) auto
  have u: "unat (of_nat m :: 32 word) = m" using m(2) by (simp add: unat_of_nat)
  then have "unat (of_nat m :: 32 word) < 2 ^ 8" using m(2) by simp
  then obtain k where k: "k \<le> 8" "my_round_up_to_next_power (of_nat m + 1) = 2 ^ k"
    "unat (of_nat m :: 32 word) < 2 ^ k" by (rule round_up_power)
  then have "unat (codec_bits n) = k"
    by (simp add: codec_bits_def m(1) add.commute log2_power unat_of_nat_byte)
  with k(3) u m(1) show ?thesis by simp
qed

text \<open>What one weight leaves alone and what it sets.\<close>

lemma put_all_length [simp]:
  "length (m_dec_idx (fold (codec_put dst n) (enumerate k xs) cur)) = length (m_dec_idx cur)"
  by (induction xs arbitrary: k cur) (simp_all add: codec_put_def)

lemma put_all_enc_other:
  "s \<notin> set xs \<Longrightarrow> m_enc_idx (fold (codec_put dst n) (enumerate k xs) cur) s = m_enc_idx cur s \<and>
    m_enc_size (fold (codec_put dst n) (enumerate k xs) cur) s = m_enc_size cur s"
  by (induction xs arbitrary: k cur) (simp_all add: codec_put_def)

lemma put_all_dec_size:
  "m_dec_size (fold (codec_put dst n) (enumerate k xs) cur) d =
    (if d = dst \<and> xs \<noteq> [] then codec_bits n else m_dec_size cur d)"
  by (induction xs arbitrary: k cur) (auto simp: codec_put_def)

lemma put_all_dec_other:
  "d \<noteq> dst \<or> i < k \<Longrightarrow>
   (m_dec_idx (fold (codec_put dst n) (enumerate k xs) cur) ! i) d = (m_dec_idx cur ! i) d"
proof (induction xs arbitrary: k cur)
  case (Cons x xs)
  let ?cur = "codec_put dst n (k, x) cur"
  have "(m_dec_idx ?cur ! i) d = (m_dec_idx cur ! i) d"
    using Cons.prems by (cases "i = k"; cases "k < length (m_dec_idx cur)") (auto simp: codec_put_def list_update_beyond)
  moreover have "d \<noteq> dst \<or> i < Suc k" using Cons.prems by auto
  ultimately show ?case using Cons.IH [of "Suc k" ?cur] by simp
qed simp

lemma put_all_sets:
  "distinct xs \<Longrightarrow> k + length xs \<le> length (m_dec_idx cur) \<Longrightarrow> i < length xs \<Longrightarrow>
   m_enc_idx (fold (codec_put dst n) (enumerate k xs) cur) (xs ! i) = of_nat (k + i) \<and>
   m_enc_size (fold (codec_put dst n) (enumerate k xs) cur) (xs ! i) = codec_bits n \<and>
   (m_dec_idx (fold (codec_put dst n) (enumerate k xs) cur) ! (k + i)) dst = xs ! i"
proof (induction xs arbitrary: k cur i)
  case (Cons x xs)
  let ?cur = "codec_put dst n (k, x) cur"
  show ?case
  proof (cases i)
    case 0
    have "x \<notin> set xs" using Cons.prems(1) by simp
    moreover have "m_enc_idx ?cur x = of_nat k \<and> m_enc_size ?cur x = codec_bits n \<and> (m_dec_idx ?cur ! k) dst = x"
      using Cons.prems(2) by (simp add: codec_put_def)
    ultimately show ?thesis
      using 0 put_all_enc_other [of x xs dst n "Suc k" ?cur] put_all_dec_other [of dst dst k "Suc k" n xs ?cur]
      by simp
  next
    case (Suc j)
    then show ?thesis
      using Cons.IH [of "Suc k" ?cur j] Cons.prems by (simp add: codec_put_def)
  qed
qed simp

text \<open>The weights processed so far have correct tables.\<close>

lemma put_weights_codec:
  assumes m: "\<And>d. m d = filter (\<lambda>s. so s = d) all_bytes" "\<And>d. length (m d) \<le> n"
  shows "distinct ds \<Longrightarrow> length (m_dec_idx cur) = n \<Longrightarrow>
    (\<forall>s. so s \<in> set ds \<or> codec_for so cur s \<longrightarrow> codec_for so (fold (codec_put_weight m) ds cur) s)"
proof (induction ds arbitrary: cur)
  case (Cons d ds)
  let ?cur = "codec_put_weight m d cur"
  have len: "length (m_dec_idx ?cur) = n" using Cons.prems(2) by (simp add: codec_put_weight_def)
  have mem: "s \<in> set (m d) \<longleftrightarrow> so s = d" for s using m(1) by simp
  have le: "length (m d) \<le> 256" using m(1) length_filter_le [of "\<lambda>s. so s = d" all_bytes] by simp
  have new: "codec_for so ?cur s" if s: "so s = d" for s
  proof -
    obtain i where i: "i < length (m d)" "m d ! i = s" using mem s by (metis in_set_conv_nth)
    have d: "distinct (m d)" using m(1) distinct_all_bytes by simp
    have st: "m_enc_idx ?cur s = of_nat i" "m_enc_size ?cur s = codec_bits (length (m d))" "(m_dec_idx ?cur ! i) d = s"
      using put_all_sets [OF d, of 0 cur i d "length (m d)"] i m(2) [of d] Cons.prems(2)
      by (simp_all add: codec_put_weight_def)
    have u: "unat (m_enc_idx ?cur s) = i" using st(1) i(1) le by (simp add: unat_of_nat_byte)
    have "m_dec_size ?cur d = codec_bits (length (m d))"
      using put_all_dec_size [of d "length (m d)" 0 "m d" cur d] i(1)
      by (auto simp: codec_put_weight_def)
    moreover have "i < 2 ^ unat (codec_bits (length (m d)))"
      using codec_bits_wide [of "length (m d)"] i(1) le by linarith
    ultimately show ?thesis
      unfolding codec_for_def u using st s i(1) m(2) [of d] len m(1) by simp
  qed
  have old: "codec_for so ?cur s" if s: "so s \<noteq> d" "codec_for so cur s" for s
    using s mem [of s] put_all_enc_other [of s "m d" d "length (m d)" 0 cur]
      put_all_dec_size [of d "length (m d)" 0 "m d" cur "so s"]
      put_all_dec_other [of "so s" d _ 0 "length (m d)" "m d" cur]
    by (auto simp: codec_for_def codec_put_weight_def)
  show ?case using Cons.IH [OF _ len] Cons.prems(1) new old by fastforce
qed simp

lemma collation_mapping_correct:
  assumes "mono_init_collation_mapping cs = Some codec"
  shows "codec_for (cs_sort_order cs) codec s"
proof -
  obtain m n where mn: "build_rev_map (cs_sort_order cs) = (m, n)" by fastforce
  show ?thesis
    using put_weights_codec [OF build_rev_map_spec [OF mn] distinct_all_bytes] assms mn
    by (auto simp: mono_init_collation_mapping_def split: if_splits)
qed

section \<open>Bit fields behind other content\<close>

definition bw_prepend :: "bytes \<Rightarrow> mono_bit_writer \<Rightarrow> mono_bit_writer" where
  "bw_prepend p b = b\<lparr>bw_writer := \<lparr>wr_data = p @ wr_data (bw_writer b)\<rparr>\<rparr>"

lemma bit_write_step_prepend:
  assumes "bw_inv b" "bit_write_step sz v b = (sz', b')"
  shows "bit_write_step sz v (bw_prepend p b) = (sz', bw_prepend p b')"
proof -
  have "0 < bw_offset b \<Longrightarrow> wr_data (bw_writer b) \<noteq> []" using assms(1) by (simp add: bw_inv_def)
  then show ?thesis
    using assms(2) by (cases "wr_data (bw_writer b)" rule: rev_cases)
      (auto simp: bit_write_step_def bw_prepend_def Let_def write_uint8_def list_update_append nth_append)
qed

lemma bit_write_prepend: "bw_inv b \<Longrightarrow> bit_write sz v (bw_prepend p b) = bw_prepend p (bit_write sz v b)"
proof (induction sz v b rule: bit_write.induct)
  case (1 sz v b)
  obtain sz' b' where st: "bit_write_step sz v b = (sz', b')" by fastforce
  have "bw_offset (bw_prepend p b) = bw_offset b" by (simp add: bw_prepend_def)
  then show ?case
    using 1 st bit_write_step_prepend [OF "1.prems" st] bit_write_step_inv [OF "1.prems" st]
    by (simp add: bit_write.simps [of sz v b] bit_write.simps [of sz v "bw_prepend p b"])
qed

lemma write_simple_inv: "bw_inv b \<Longrightarrow> bw_inv (mono_write_unpack_simple codec src b)"
  by (induction src arbitrary: b) (simp_all add: bit_write_inv)

lemma write_simple_prepend:
  "bw_inv b \<Longrightarrow> mono_write_unpack_simple codec src (bw_prepend p b) =
     bw_prepend p (mono_write_unpack_simple codec src b)"
  by (induction src arbitrary: b) (simp_all add: bit_write_prepend bit_write_inv)

definition simple_info :: "mono_collation_codec \<Rightarrow> bytes \<Rightarrow> bytes" where
  "simple_info codec src = wr_data (bw_writer (mono_write_unpack_simple codec src (new_bit_writer empty_writer)))"

lemma write_simple_appends:
  "wr_data (bw_writer (mono_write_unpack_simple codec src (new_bit_writer w))) = wr_data w @ simple_info codec src"
proof -
  have "new_bit_writer w = bw_prepend (wr_data w) (new_bit_writer empty_writer)"
    by (simp add: new_bit_writer_def bw_prepend_def empty_writer_def)
  then show ?thesis
    by (simp add: write_simple_prepend bw_inv_new simple_info_def) (simp add: bw_prepend_def)
qed

lemma bw_agrees_append:
  assumes "bw_agrees b F"
  shows "bw_agrees b (F @ G)"
proof -
  let ?p = "bw_done (wr_data (bw_writer b)) (bw_offset b)"
  have t: "take (length ?p) F = ?p" using assms by (simp add: bw_agrees_def Let_def)
  then have "length ?p \<le> length F" by (metis length_take min.cobounded1)
  then have "take (length ?p) (F @ G) = ?p" using t by simp
  then show ?thesis using assms by (auto simp: bw_agrees_def Let_def nth_append)
qed

lemma bw_agrees_before_simple:
  "bw_inv b \<Longrightarrow> bw_agrees (mono_write_unpack_simple codec src b) F \<Longrightarrow> bw_agrees b F"
proof (induction src arbitrary: b)
  case (Cons x src)
  then show ?case
    using bw_agrees_before_write [OF Cons.prems(1)] bit_write_inv [OF Cons.prems(1)] by simp metis
qed simp

section \<open>Simple collations round-trip\<close>

definition codec_ok :: "charset_info \<Rightarrow> mono_collation_codec \<Rightarrow> bool" where
  "codec_ok cs codec \<longleftrightarrow> mono_init_collation_mapping cs = Some codec"

lemma codec_ok_for: "codec_ok cs codec \<Longrightarrow> codec_for (cs_sort_order cs) codec s"
  unfolding codec_ok_def by (rule collation_mapping_correct)

lemma codec_dec_nonempty: "codec_ok cs codec \<Longrightarrow> m_dec_idx codec \<noteq> []"
  using codec_ok_for [of cs codec 0] by (auto simp: codec_for_def)

lemma codec_size_0:
  assumes "codec_ok cs codec" "m_dec_size codec (cs_sort_order cs s) = 0"
  shows "(m_dec_idx codec ! 0) (cs_sort_order cs s) = s" "m_enc_size codec s = 0"
  using codec_ok_for [OF assms(1), of s] assms(2) by (auto simp: codec_for_def)

lemma read_simple_char_ok:
  assumes "codec_ok cs codec" "bw_inv b" "br_tracks rb b F"
    and "bw_agrees (bit_write (unat (m_enc_size codec s)) (ucast (m_enc_idx codec s)) b) F"
  obtains rb' where "read_simple_char codec (cs_sort_order cs s) (Some rb) = Some (s, Some rb')"
    "br_tracks rb' (bit_write (unat (m_enc_size codec s)) (ucast (m_enc_idx codec s)) b) F"
proof (cases "m_dec_size codec (cs_sort_order cs s) = 0")
  case True
  have "bit_write (unat (m_enc_size codec s)) (ucast (m_enc_idx codec s)) b = b"
    using codec_size_0(2) [OF assms(1) True] by (simp add: bit_write.simps [of 0])
  then show thesis
    using that [of rb] assms(3) codec_size_0(1) [OF assms(1) True] codec_dec_nonempty [OF assms(1)] True
    by (simp add: read_simple_char_def)
next
  case False
  have cf: "m_enc_size codec s = m_dec_size codec (cs_sort_order cs s)"
    "unat (m_enc_idx codec s) < length (m_dec_idx codec)"
    "(m_dec_idx codec ! unat (m_enc_idx codec s)) (cs_sort_order cs s) = s"
    "unat (ucast (m_enc_idx codec s) :: 32 word) < 2 ^ unat (m_enc_size codec s)"
    using codec_ok_for [OF assms(1), of s] by (auto simp: codec_for_def unsigned_ucast_eq take_bit_nat_eq_self_iff
        intro: le_less_trans [OF take_bit_nat_less_eq_self])
  obtain rb' where rb': "bit_read (unat (m_enc_size codec s)) rb = Some (ucast (m_enc_idx codec s), rb')"
    "br_tracks rb' (bit_write (unat (m_enc_size codec s)) (ucast (m_enc_idx codec s)) b) F"
    by (rule bit_read_write [OF assms(2,4,3) cf(4)])
  have "unat (ucast (m_enc_idx codec s) :: 32 word) = unat (m_enc_idx codec s)"
    by (simp add: unsigned_ucast_eq take_bit_nat_eq_self_iff order_less_trans [OF unat_byte_less])
  then show thesis
    using that [of rb'] rb' cf(1-3) False by (simp add: read_simple_char_def word_neq_0_conv)
qed

lemma read_simple_ok:
  "codec_ok cs codec \<Longrightarrow> bw_inv b \<Longrightarrow> br_tracks rb b F \<Longrightarrow>
   bw_agrees (mono_write_unpack_simple codec src b) F \<Longrightarrow>
   \<exists>rb'. mono_read_unpack_simple codec (map (cs_sort_order cs) src) (Some rb) = Some (src, Some rb') \<and>
     br_tracks rb' (mono_write_unpack_simple codec src b) F"
proof (induction src arbitrary: b rb)
  case (Cons s src)
  let ?b = "bit_write (unat (m_enc_size codec s)) (ucast (m_enc_idx codec s)) b"
  have inv: "bw_inv ?b" using Cons.prems(2) by (rule bit_write_inv)
  have ag: "bw_agrees (mono_write_unpack_simple codec src ?b) F" using Cons.prems(4) by simp
  obtain rb1 where rb1: "read_simple_char codec (cs_sort_order cs s) (Some rb) = Some (s, Some rb1)"
    "br_tracks rb1 ?b F"
    by (rule read_simple_char_ok [OF Cons.prems(1-3) bw_agrees_before_simple [OF inv ag]])
  show ?case using Cons.IH [OF Cons.prems(1) inv rb1(2) ag] rb1(1) by auto
qed simp

text \<open>The whole bit stream of a value, with anything behind it.\<close>

lemma read_simple_info:
  assumes "codec_ok cs codec" "rd_at u (simple_info codec src @ urest)"
  obtains rb' where
    "mono_read_unpack_simple codec (map (cs_sort_order cs) src) (Some (new_bit_reader u)) = Some (src, Some rb')"
    "rd_at (br_reader rb') urest"
proof -
  let ?w = "mono_write_unpack_simple codec src (new_bit_writer empty_writer)"
  let ?F = "simple_info codec src @ urest"
  have "bw_agrees ?w ?F"
    unfolding simple_info_def by (rule bw_agrees_append [OF bw_agrees_self]) (simp add: write_simple_inv bw_inv_new)
  moreover have "br_tracks (new_bit_reader u) (new_bit_writer empty_writer) ?F"
    using assms(2) by (simp add: br_tracks_def new_bit_reader_def new_bit_writer_def empty_writer_def)
  ultimately obtain rb' where rb':
    "mono_read_unpack_simple codec (map (cs_sort_order cs) src) (Some (new_bit_reader u)) = Some (src, Some rb')"
    "br_tracks rb' ?w ?F"
    using read_simple_ok [OF assms(1) bw_inv_new] by blast
  moreover have "rd_at (br_reader rb') urest" using rb'(2) by (simp add: br_tracks_def simple_info_def)
  ultimately show thesis using that by blast
qed

text \<open>Without a reader nothing is read: no character needed a bit.\<close>

lemma bit_write_nonempty:
  "bw_inv b \<Longrightarrow> 0 < sz \<or> wr_data (bw_writer b) \<noteq> [] \<Longrightarrow> wr_data (bw_writer (bit_write sz v b)) \<noteq> []"
proof (induction sz v b rule: bit_write.induct)
  case (1 sz v b)
  obtain sz' b' where st: "bit_write_step sz v b = (sz', b')" by fastforce
  have "0 < sz \<Longrightarrow> bw_inv b'" "wr_data (bw_writer b') \<noteq> []"
    using bit_write_step_inv [OF "1.prems"(1) st] bit_write_step_data(3) [OF "1.prems"(1) st] by auto
  then show ?case
    using 1 st by (auto simp: bit_write.simps [of sz v b] bw_inv_def)
qed

lemma write_simple_empty:
  "bw_inv b \<Longrightarrow> wr_data (bw_writer (mono_write_unpack_simple codec src b)) = [] \<Longrightarrow>
   wr_data (bw_writer b) = [] \<and> (\<forall>s\<in>set src. m_enc_size codec s = 0)"
proof (induction src arbitrary: b)
  case (Cons x src)
  from Cons.IH [OF bit_write_inv [OF Cons.prems(1)]] Cons.prems(2)
  have "wr_data (bw_writer (bit_write (unat (m_enc_size codec x)) (ucast (m_enc_idx codec x)) b)) = []"
    "\<forall>s\<in>set src. m_enc_size codec s = 0" by auto
  with bit_write_nonempty [OF Cons.prems(1), of "unat (m_enc_size codec x)" "ucast (m_enc_idx codec x)"]
  show ?case by (auto simp: unat_eq_zero unat_gt_0)
qed simp

lemma read_simple_no_bits:
  "codec_ok cs codec \<Longrightarrow> \<forall>s\<in>set src. m_enc_size codec s = 0 \<Longrightarrow>
   mono_read_unpack_simple codec (map (cs_sort_order cs) src) rd = Some (src, rd)"
proof (induction src)
  case (Cons s src)
  have "m_dec_size codec (cs_sort_order cs s) = 0"
    using Cons.prems codec_ok_for [OF Cons.prems(1), of s] by (simp add: codec_for_def)
  then show ?case
    using Cons codec_size_0(1) [OF Cons.prems(1)] codec_dec_nonempty [OF Cons.prems(1)]
    by (simp add: read_simple_char_def)
qed simp

lemma read_simple_none:
  assumes "codec_ok cs codec" "simple_info codec src = []"
  shows "mono_read_unpack_simple codec (map (cs_sort_order cs) src) None = Some (src, None)"
  using write_simple_empty [OF bw_inv_new] assms(2) read_simple_no_bits [OF assms(1)]
  unfolding simple_info_def by blast

section \<open>The codecs\<close>

text \<open>
  Parts with an image of fixed length, in whatever order the collation's
  \<open>strnxfrm\<close> gives: \<open>CHAR\<close> of any collation and blob prefixes.
\<close>

definition fixed_image :: "mono_field_packing \<Rightarrow> field \<Rightarrow> cell \<Rightarrow> bytes" where
  "fixed_image fpi f c =
     (if m_pack_func fpi = Some Pack_blob then pack_blob fpi f c else pack_with_make_sort_key fpi f c)"

definition wf_fixed_image :: "mono_field_packing \<Rightarrow> field \<Rightarrow> cell \<Rightarrow> bool" where
  "wf_fixed_image fpi f c \<longleftrightarrow> 0 < m_max_image_len fpi \<and> length (fixed_image fpi f c) = m_max_image_len fpi"

definition lt_fixed_image :: "mono_field_packing \<Rightarrow> field \<Rightarrow> cell \<Rightarrow> cell \<Rightarrow> bool" where
  "lt_fixed_image fpi f a b \<longleftrightarrow> lexlt (fixed_image fpi f a) (fixed_image fpi f b)"

interpretation fixed_image_codec: key_codec "wf_fixed_image fpi f" "fixed_image fpi f"
  "skip_max_length fpi" "lt_fixed_image fpi f" for fpi f
proof unfold_locales
  fix v r rest
  assume wf: "wf_fixed_image fpi f v" and r: "rd_at r (fixed_image fpi f v @ rest)"
  obtain q where "rd_read (m_max_image_len fpi) r = (Some q, rd_adv (m_max_image_len fpi) r)"
    by (rule rd_read_ok [OF r, of "m_max_image_len fpi"]) (use wf in \<open>auto simp: wf_fixed_image_def\<close>)
  then show "skip_max_length fpi r = Some (rd_adv (length (fixed_image fpi f v)) r)"
    using wf by (simp add: skip_max_length_def wf_fixed_image_def)
next
  fix a b assume wf: "wf_fixed_image fpi f a" "wf_fixed_image fpi f b"
  show "lexlt_in (fixed_image fpi f a) (fixed_image fpi f b)" if "lt_fixed_image fpi f a b"
    using that wf lexlt_in_eq_lexlt by (auto simp: lt_fixed_image_def wf_fixed_image_def)
  show "fixed_image fpi f a = fixed_image fpi f b" if "\<not> lt_fixed_image fpi f a b" "\<not> lt_fixed_image fpi f b a"
    using that lexlt_total unfolding lt_fixed_image_def by blast
qed

text \<open>\<open>CHAR\<close> in a simple collation: every character is replaced by its weight.\<close>

definition wf_simple_char :: "mono_field_packing \<Rightarrow> field \<Rightarrow> cell \<Rightarrow> bool" where
  "wf_simple_char fpi f c \<longleftrightarrow> wf_fixed_image fpi f c \<and>
     (case m_charset_codec fpi of None \<Rightarrow> False | Some codec \<Rightarrow> codec_ok (field_charset f) codec) \<and>
     fixed_image fpi f c = map (cs_sort_order (field_charset f)) (c_img c) \<and>
     field_pack_length f = length (c_img c)"

definition simple_char_info :: "mono_field_packing \<Rightarrow> field \<Rightarrow> cell \<Rightarrow> bytes" where
  "simple_char_info fpi f c =
     (case m_charset_codec fpi of None \<Rightarrow> []
      | Some codec \<Rightarrow> wr_data (make_unpack_simple codec f c empty_writer))"

interpretation simple_char_unpack: unpack_codec "wf_simple_char fpi f" "dest_len (m_max_image_len fpi)"
  "fixed_image fpi f" "simple_char_info fpi f" "unpack_simple fpi f" same_image for fpi f
proof unfold_locales
  fix v c r rest ur urest
  assume wf: "wf_simple_char fpi f v" and c: "dest_len (m_max_image_len fpi) c"
    and r: "rd_at r (fixed_image fpi f v @ rest)" and ur: "info_at ur (simple_char_info fpi f v @ urest)"
  obtain codec where co: "m_charset_codec fpi = Some codec" "codec_ok (field_charset f) codec"
    using wf by (auto simp: wf_simple_char_def split: option.splits)
  let ?so = "cs_sort_order (field_charset f)"
  have img: "fixed_image fpi f v = map ?so (c_img v)" "length (c_img v) = m_max_image_len fpi" "0 < m_max_image_len fpi"
    "field_pack_length f = length (c_img v)"
    using wf by (auto simp: wf_simple_char_def wf_fixed_image_def)
  have info: "simple_char_info fpi f v = simple_info codec (c_img v)"
    using co(1) img(4) by (simp add: simple_char_info_def make_unpack_simple_def write_simple_appends empty_writer_def)
  have rd: "read_bytes (m_max_image_len fpi) r = (Some (map ?so (c_img v)), rd_adv (m_max_image_len fpi) r)"
    using read_bytes_append [OF r] img by simp
  obtain rb' where rb: "mono_read_unpack_simple codec (map ?so (c_img v)) (map_option new_bit_reader ur) = Some (c_img v, rb')"
    "info_at (map_option br_reader rb') urest"
  proof (cases ur)
    case None
    then show thesis using that [of None] read_simple_none [OF co(2)] ur info by simp
  next
    case (Some u)
    then have "rd_at u (simple_info codec (c_img v) @ urest)" using ur info by simp
    from read_simple_info [OF co(2) this] show thesis using that Some by (metis info_at_Some option.map(2))
  qed
  have "put_image c (c_img v) = Some (c\<lparr>c_img := c_img v\<rparr>)"
    using c img(2) by (simp add: put_image_def memcpy_at_def dest_len_def)
  then show "\<exists>c' ur'. unpack_simple fpi f c r ur = Some (c', rd_adv (length (fixed_image fpi f v)) r, ur') \<and>
      same_image v c' \<and> info_at ur' urest"
    using rd rb co(1) img(1,2) by (simp add: unpack_simple_def same_image_def)
qed

text \<open>Any other collation: the value is in the unpack information.\<close>

definition wf_unknown_char :: "mono_field_packing \<Rightarrow> field \<Rightarrow> cell \<Rightarrow> bool" where
  "wf_unknown_char fpi f c \<longleftrightarrow> wf_fixed_image fpi f c \<and>
     field_pack_length f = length (c_img c) \<and> m_unpack_data_len fpi = length (c_img c) \<and> c_img c \<noteq> []"

definition unknown_char_info :: "field \<Rightarrow> cell \<Rightarrow> bytes" where
  "unknown_char_info f c = wr_data (make_unpack_unknown f c empty_writer)"

interpretation unknown_char_unpack: unpack_codec "wf_unknown_char fpi f" "dest_len (m_unpack_data_len fpi)"
  "fixed_image fpi f" "unknown_char_info f" "unpack_unknown fpi f" same_image for fpi f
proof unfold_locales
  fix v c r rest ur urest
  assume wf: "wf_unknown_char fpi f v" and c: "dest_len (m_unpack_data_len fpi) c"
    and r: "rd_at r (fixed_image fpi f v @ rest)" and ur: "info_at ur (unknown_char_info f v @ urest)"
  have v: "m_unpack_data_len fpi = length (c_img v)" "c_img v \<noteq> []" "unknown_char_info f v = c_img v"
    using wf by (auto simp: wf_unknown_char_def unknown_char_info_def make_unpack_unknown_def wr_write_def empty_writer_def)
  have sk: "skip_max_length fpi r = Some (rd_adv (length (fixed_image fpi f v)) r)"
    using fixed_image_codec.skip_enc [OF _ r] wf by (simp add: wf_unknown_char_def)
  obtain u where u: "ur = Some u" "rd_at u (c_img v @ urest)" using ur v by (cases ur) auto
  have "put_image c (c_img v) = Some (c\<lparr>c_img := c_img v\<rparr>)"
    using c v(1) by (simp add: put_image_def memcpy_at_def dest_len_def)
  then show "\<exists>c' ur'. unpack_unknown fpi f c r ur = Some (c', rd_adv (length (fixed_image fpi f v)) r, ur') \<and>
      same_image v c' \<and> info_at ur' urest"
    using sk u v read_bytes_append [OF u(2)] rd_at_adv_append [OF u(2)]
    by (simp add: unpack_unknown_def same_image_def)
qed

lemma read_bytes_zero: "m_ptr r \<noteq> None \<Longrightarrow> read_bytes 0 r = (Some [], r)"
  by (cases r) (auto simp: read_bytes_def rd_read_def)

lemma rd_at_ptr: "rd_at u xs \<Longrightarrow> xs \<noteq> [] \<Longrightarrow> m_ptr (rd_adv n u) \<noteq> None"
  by (auto simp: rd_at_def rd_adv_def split: option.splits)

definition unknown_varchar_info :: "field \<Rightarrow> cell \<Rightarrow> bytes" where
  "unknown_varchar_info f c = wr_data (make_unpack_unknown_varchar f c empty_writer)"

lemma unpack_unknown_varchar_ok:
  assumes cell: "wf_varchar_cell f v" and c: "dest_len (field_pack_length f) c"
    and sk: "skip_part fpi (Some f) r = Some r'" and ur: "info_at ur (unknown_varchar_info f v @ urest)"
  shows "\<exists>c' ur'. unpack_unknown_varchar fpi f c r ur = Some (c', r', ur') \<and> same_varchar f v c' \<and> info_at ur' urest"
proof -
  let ?lb = "length_bytes f" and ?n = "varchar_len f v"
  let ?h = "take ?lb (c_img v)" and ?d = "varchar_data f v ?n"
  have lb: "?lb = 1 \<or> ?lb = 2" and len: "length (c_img v) = field_pack_length f" "length (c_img c) = field_pack_length f"
    and fit: "?lb + ?n \<le> field_pack_length f"
    using cell c by (auto simp: wf_varchar_cell_def dest_len_def varchar_cap_def)
  have info: "unknown_varchar_info f v = ?h @ ?d"
    by (simp add: unknown_varchar_info_def make_unpack_unknown_varchar_def wr_write_def empty_writer_def
        varchar_data_def add.commute [of "varchar_len f v"] take_add)
  have hl: "length ?h = ?lb" "length ?d = ?n" using len fit by (simp_all add: varchar_data_def)
  then have "?h \<noteq> []" using lb by auto
  then obtain u where u: "ur = Some u" "rd_at u (?h @ ?d @ urest)"
    using ur info by (cases ur) auto
  have rd1: "read_bytes ?lb u = (Some ?h, rd_adv ?lb u)"
    using read_bytes_append [OF u(2) hl(1)] lb by auto
  have at1: "rd_at (rd_adv ?lb u) (?d @ urest)" by (rule rd_at_adv_append [OF u(2) hl(1)])
  have "m_ptr (rd_adv ?lb u) \<noteq> None" using rd_at_ptr [OF u(2)] \<open>?h \<noteq> []\<close> by blast
  then have rd2: "read_bytes ?n (rd_adv ?lb u) = (Some ?d, rd_adv ?n (rd_adv ?lb u))"
    using read_bytes_append [OF at1 hl(2)] read_bytes_zero hl(2) by (cases "?n = 0") auto
  have at2: "rd_at (rd_adv ?n (rd_adv ?lb u)) urest" by (rule rd_at_adv_append [OF at1 hl(2)])
  have n: "(if ?lb = 1 then unat (hd ?h) else le_val (take 2 ?h)) = ?n"
    using lb hl(1) by (auto simp: varchar_len_def hd_take min_def)
  have p1: "put_image c ?h = Some (c\<lparr>c_img := ?h @ drop ?lb (c_img c)\<rparr>)"
    using hl(1) len fit by (simp add: put_image_def memcpy_at_def)
  have p2: "memcpy_at (?h @ drop ?lb (c_img c)) ?lb ?d = Some (?h @ ?d @ drop (?lb + ?n) (c_img c))"
    using hl len fit by (simp add: memcpy_at_def add.commute)
  have "same_varchar f v (c\<lparr>c_img := ?h @ ?d @ drop (?lb + ?n) (c_img c)\<rparr>)"
    using hl len fit by (simp add: same_varchar_def varchar_data_def take_add)
  then show ?thesis
    using sk u(1) rd1 rd2 at2 n p1 p2 by (simp add: unpack_unknown_varchar_def)
qed

interpretation unknown_varchar_unpack: unpack_codec
  "\<lambda>v. m_skip_func fpi = Skip_variable_space_pad \<and> wf_space_pad fpi f v" "dest_len (field_pack_length f)"
  "space_pad_image fpi f" "unknown_varchar_info f" "unpack_unknown_varchar fpi f" "same_varchar f" for fpi f
proof unfold_locales
  fix v c r rest ur urest
  assume wf: "m_skip_func fpi = Skip_variable_space_pad \<and> wf_space_pad fpi f v"
    and c: "dest_len (field_pack_length f) c" and r: "rd_at r (space_pad_image fpi f v @ rest)"
    and ur: "info_at ur (unknown_varchar_info f v @ urest)"
  have "skip_part fpi (Some f) r = Some (rd_adv (length (space_pad_image fpi f v)) r)"
    using space_pad_codec.skip_enc [of "Some f" f fpi v r rest] wf r by (simp add: skip_part_def)
  then show "\<exists>c' ur'. unpack_unknown_varchar fpi f c r ur =
      Some (c', rd_adv (length (space_pad_image fpi f v)) r, ur') \<and> same_varchar f v c' \<and> info_at ur' urest"
    using unpack_unknown_varchar_ok c ur wf by (auto simp: wf_space_pad_def)
qed

interpretation unknown_nopad_unpack: unpack_codec
  "\<lambda>v. m_skip_func fpi = Skip_variable_length \<and> wf_varchar fpi f v" "dest_len (field_pack_length f)"
  "pack_with_varchar_encoding fpi f" "unknown_varchar_info f" "unpack_unknown_varchar fpi f" "same_varchar f" for fpi f
proof unfold_locales
  fix v c r rest ur urest
  assume wf: "m_skip_func fpi = Skip_variable_length \<and> wf_varchar fpi f v"
    and c: "dest_len (field_pack_length f) c" and r: "rd_at r (pack_with_varchar_encoding fpi f v @ rest)"
    and ur: "info_at ur (unknown_varchar_info f v @ urest)"
  have "skip_part fpi (Some f) r = Some (rd_adv (length (pack_with_varchar_encoding fpi f v)) r)"
    using varchar_codec.skip_enc [of "Some f" f fpi v r rest] wf r by (simp add: skip_part_def)
  then show "\<exists>c' ur'. unpack_unknown_varchar fpi f c r ur =
      Some (c', rd_adv (length (pack_with_varchar_encoding fpi f v)) r, ur') \<and> same_varchar f v c' \<and> info_at ur' urest"
    using unpack_unknown_varchar_ok c ur wf by (auto simp: wf_varchar_def)
qed

text \<open>\<open>CHAR\<close> in utf8 and utf8mb4: the image is a list of code points, the value their text and padding.\<close>

definition wf_utf8_char :: "nat \<Rightarrow> mono_field_packing \<Rightarrow> field \<Rightarrow> cell \<Rightarrow> bool" where
  "wf_utf8_char b fpi f c \<longleftrightarrow> wf_fixed_image fpi f c \<and> (b = 2 \<or> b = 3) \<and>
     length (c_img c) = field_pack_length f \<and>
     (\<exists>ws. (\<forall>w\<in>set ws. wc_ok b (field_charset f) w) \<and> fixed_image fpi f c = units b ws \<and>
       (\<exists>k. c_img c = chars b (field_charset f) ws @ replicate k (cs_pad_char (field_charset f))))"

interpretation utf8_char_unpack: unpack_codec "wf_utf8_char b fpi f" "dest_len (field_pack_length f)"
  "fixed_image fpi f" "\<lambda>_. []" "unpack_utf8_str b fpi f" same_image for b fpi f
proof unfold_locales
  fix v c r rest ur urest
  assume wf: "wf_utf8_char b fpi f v" and c: "dest_len (field_pack_length f) c"
    and r: "rd_at r (fixed_image fpi f v @ rest)" and ur: "info_at ur ([] @ urest)"
  obtain ws k where ws: "\<forall>w\<in>set ws. wc_ok b (field_charset f) w" "fixed_image fpi f v = units b ws"
    and img: "c_img v = chars b (field_charset f) ws @ replicate k (cs_pad_char (field_charset f))"
    and len: "length (c_img v) = field_pack_length f" and b: "b = 2 \<or> b = 3"
    and mx: "0 < m_max_image_len fpi" "length (fixed_image fpi f v) = m_max_image_len fpi"
    using wf by (auto simp: wf_utf8_char_def wf_fixed_image_def)
  have rd: "read_bytes (m_max_image_len fpi) r = (Some (units b ws), rd_adv (m_max_image_len fpi) r)"
    using read_bytes_append [OF r mx(2,1)] ws(2) by simp
  have fit: "length (chars b (field_charset f) ws) + k = field_pack_length f" using img len by simp
  have "unpack_wc_loop b (field_charset f) (field_pack_length f) (units b ws) [] = Some ([] @ chars b (field_charset f) ws)"
    by (rule unpack_wc_loop_units) (use b ws(1) fit in auto)
  moreover have "put_image c (c_img v) = Some (c\<lparr>c_img := c_img v\<rparr>)"
    using c len by (simp add: put_image_def memcpy_at_def dest_len_def)
  moreover have "field_pack_length f - length (chars b (field_charset f) ws) = k" using fit by linarith
  ultimately show "\<exists>c' ur'. unpack_utf8_str b fpi f c r ur =
      Some (c', rd_adv (length (fixed_image fpi f v)) r, ur') \<and> same_image v c' \<and> info_at ur' urest"
    using rd ur img mx(2) by (simp add: unpack_utf8_str_def same_image_def)
qed

section \<open>The sample of spaces\<close>

lemma nth_concat_replicate: "i < m * length u \<Longrightarrow> concat (replicate m u) ! i = u ! (i mod length u)"
proof (induction m arbitrary: i)
  case (Suc m)
  show ?case
  proof (cases "i < length u")
    case False
    then have "i - length u < m * length u" using Suc.prems by simp
    then show ?thesis using Suc.IH False by (simp add: nth_append le_mod_geq not_less)
  qed (simp add: nth_append)
qed simp

lemma length_concat_replicate: "length (concat (replicate m u)) = m * length u"
  by (induction m) simp_all

lemma concat_replicate_snoc: "concat (replicate m u) @ u = concat (replicate (Suc m) u)"
  by (induction m) simp_all

lemma fill_spaces_sample:
  "u \<noteq> [] \<Longrightarrow> \<exists>m. fill_spaces u (concat (replicate n u)) = Some (concat (replicate m u)) \<and>
     mono_SPACE_XFRM_SIZE \<le> m * length u"
proof (induction "mono_SPACE_XFRM_SIZE - n * length u" arbitrary: n rule: less_induct)
  case less
  show ?case
  proof (cases "n * length u < mono_SPACE_XFRM_SIZE")
    case True
    then have "mono_SPACE_XFRM_SIZE - Suc n * length u < mono_SPACE_XFRM_SIZE - n * length u"
      using less.prems by (auto intro: diff_less_mono2)
    from less.hyps [OF this less.prems] show ?thesis
      using True less.prems
      by (simp add: fill_spaces.simps [of u "concat (replicate n u)"] length_concat_replicate concat_replicate_snoc
        del: replicate.simps)
  next
    case False
    then show ?thesis
      by (intro exI [of _ n]) (simp add: fill_spaces.simps [of u "concat (replicate n u)"] length_concat_replicate)
  qed
qed

end
