(* ===== verification/Simple_Varchar.thy ===== *)
theory Simple_Varchar
  imports Collation_Codec
begin

text \<open>
  \<open>VARCHAR\<close> in a one-byte collation with a weight table: the space-padded
  encoding of the weights, and the two items of unpack information (the number of
  trailing spaces and the bit fields of the characters). The round trip holds
  when no other character has the weight of a space; where one has, a value
  that ends in it can be cut, which is shown on an example. The theory also
  holds what \<open>mono_get_mem_comparable_space\<close> computes.
\<close>

section \<open>Decoding the segments\<close>

definition lone_char :: "charset_info \<Rightarrow> byte \<Rightarrow> bool" where
  "lone_char cs x \<longleftrightarrow> (\<forall>c. cs_sort_order cs c = cs_sort_order cs x \<longrightarrow> c = x)"

abbreviation lone_pad :: "charset_info \<Rightarrow> bool" where
  "lone_pad cs \<equiv> lone_char cs (cs_pad_char cs)"

lemma filter_eq_distinct: "distinct xs \<Longrightarrow> x \<in> set xs \<Longrightarrow> filter (\<lambda>t. t = x) xs = [x]"
  by (induction xs) (auto simp: filter_empty_conv)

lemma lone_char_filter:
  assumes "lone_char cs x"
  shows "filter (\<lambda>t. cs_sort_order cs t = cs_sort_order cs x) all_bytes = [x]"
proof -
  have "filter (\<lambda>t. cs_sort_order cs t = cs_sort_order cs x) all_bytes = filter (\<lambda>t. t = x) all_bytes"
    using assms by (intro filter_cong) (auto simp: lone_char_def)
  also have "\<dots> = [x]" by (rule filter_eq_distinct) (simp_all add: distinct_all_bytes)
  finally show ?thesis .
qed

lemma lone_char_no_bits:
  assumes "codec_ok cs codec" "lone_char cs x"
  shows "m_enc_size codec x = 0"
proof -
  have "m_enc_size codec x = codec_bits (length (filter (\<lambda>t. cs_sort_order cs t = cs_sort_order cs x) all_bytes))"
    using codec_ok_for [OF assms(1), of x] unfolding codec_for_def by blast
  then have "m_enc_size codec x = codec_bits 1"
    unfolding lone_char_filter [OF assms(2)] by simp
  moreover have "codec_bits 1 = 0" by code_simp
  ultimately show ?thesis by simp
qed

lemma write_simple_append:
  "mono_write_unpack_simple codec (xs @ ys) b = mono_write_unpack_simple codec ys (mono_write_unpack_simple codec xs b)"
  by (induction xs arbitrary: b) simp_all

lemma write_simple_pads:
  "m_enc_size codec pad = 0 \<Longrightarrow> mono_write_unpack_simple codec (replicate k pad) b = b"
  by (induction k) (simp_all add: bit_write.simps [of 0])

lemma weight_segment:
  "map (pads [so pad] (map so xs)) [0..<p] = map so (take p xs @ replicate (p - length xs) pad)"
proof -
  have "map (pads [so pad] []) [0..<n] = replicate n (so pad)" for n
    by (rule nth_equalityI) (simp_all add: pads_def)
  then show ?thesis using segment_eq [of "[so pad]" "map so xs" p] by (simp add: take_map)
qed

lemma lone_pad_trimmed:
  assumes "lone_pad cs" "space_flag [cs_sort_order cs (cs_pad_char cs)] (map (cs_sort_order cs) xs) = VARCHAR_CMP_EQUAL_TO_SPACES"
    "xs = [] \<or> last xs \<noteq> cs_pad_char cs"
  shows "xs = []"
proof (rule ccontr)
  assume ne: "xs \<noteq> []"
  then obtain ys y where xs: "xs = ys @ [y]" by (metis append_butlast_last_id)
  let ?w = "cs_sort_order cs (cs_pad_char cs)"
  have "pads [?w] (map (cs_sort_order cs) xs) = pads [?w] []" using assms(2) by (simp only: space_flag_eq_iff)
  then have "pads [?w] (map (cs_sort_order cs) xs) (length ys) = pads [?w] [] (length ys)" by (rule fun_cong)
  then have "cs_sort_order cs y = ?w" by (simp add: pads_def xs nth_append)
  then show False using assms(1,3) ne xs by (auto simp: lone_char_def)
qed

lemma unpack_simple_segments:
  assumes "ok_spaces p [cs_sort_order cs (cs_pad_char cs)] sp" "codec_ok cs codec" "lone_pad cs"
  shows "xs = [] \<or> last xs \<noteq> cs_pad_char cs \<Longrightarrow>
    space_pad_loop (Suc p) sp (map (cs_sort_order cs) xs) = Some (e, n) \<Longrightarrow> k \<le> n \<Longrightarrow> rd_at r (e @ rest) \<Longrightarrow>
    bw_inv b \<Longrightarrow> br_tracks rb b F \<Longrightarrow> bw_agrees (mono_write_unpack_simple codec xs b) F \<Longrightarrow>
    length out + length xs + (n - k) \<le> cap \<Longrightarrow>
    \<exists>rb'. unpack_simple_space_pad_loop (Suc p) codec cap k out rb r =
        Some (out @ xs @ replicate (n - k) (cs_pad_char cs), rb', rd_adv (length e) r) \<and>
      br_tracks rb' (mono_write_unpack_simple codec xs b) F"
proof (induction xs arbitrary: e r out b rb rule: length_induct)
  case (1 xs)
  let ?so = "cs_sort_order cs" and ?pad = "cs_pad_char cs"
  let ?fl = "space_flag [?so ?pad] (map ?so (drop p xs))"
  let ?ws = "take p xs @ replicate (p - length xs) ?pad"
  have img: "ok_image p [?so ?pad] sp (map ?so xs)" using assms(1) by (simp add: ok_image_def)
  have p: "0 < p" using assms(1) by (simp add: ok_spaces_def)
  note nobits = write_simple_pads [OF lone_char_no_bits [OF assms(2,3)]]
  show ?case
  proof (rule space_pad_cases [OF img 1(3)], unfold drop_map weight_segment)
    assume fl: "?fl = VARCHAR_CMP_EQUAL_TO_SPACES" and e: "e = map ?so ?ws @ [?fl]"
      and n: "n = p - length (map ?so xs)"
    have "drop p xs = [] \<or> last (drop p xs) \<noteq> ?pad" using 1(2) by (cases "p < length xs") auto
    then have "drop p xs = []" using lone_pad_trimmed [OF assms(3) fl] by blast
    then have q: "length xs \<le> p" by simp
    have "rd_at r ((map ?so ?ws @ [?fl]) @ rest)" using 1(5) unfolding e .
    then have rd: "read_bytes (Suc p) r = (Some (map ?so ?ws @ [?fl]), rd_adv (Suc p) r)"
      using space_segment_read(1) [of r "[?so ?pad]" "map ?so xs" p] unfolding weight_segment by blast
    have ws: "take (p - k) (map ?so ?ws @ [?fl]) = map ?so (xs @ replicate (n - k) ?pad)" "k \<le> p"
      using q n 1(4) by (simp_all add: take_map min_absorb1 add.commute)
    have wr: "mono_write_unpack_simple codec (xs @ replicate (n - k) ?pad) b = mono_write_unpack_simple codec xs b"
      by (simp only: write_simple_append nobits)
    obtain rb' where rb': "mono_read_unpack_simple codec (map ?so (xs @ replicate (n - k) ?pad)) (Some rb) =
        Some (xs @ replicate (n - k) ?pad, Some rb')" "br_tracks rb' (mono_write_unpack_simple codec xs b) F"
      using read_simple_ok [OF assms(2) 1(6,7), of "xs @ replicate (n - k) ?pad"] 1(8) unfolding wr by blast
    have "(map ?so ?ws @ [?fl]) ! p = VARCHAR_CMP_EQUAL_TO_SPACES" "length e = Suc p"
      using q fl e by (simp_all add: nth_append)
    moreover have "\<not> cap < length out + (p - k)" using 1(9) n q 1(4) by simp
    ultimately show ?thesis
      using rd ws rb' by (simp add: unpack_simple_space_pad_loop.simps [of "Suc p" codec cap k out rb r] Let_def)
  next
    fix e' assume fl: "?fl \<noteq> VARCHAR_CMP_EQUAL_TO_SPACES" and lt: "p < length (map ?so xs)"
      and e': "space_pad_loop (Suc p) sp (map ?so (drop p xs)) = Some (e', n)"
      and e: "e = map ?so ?ws @ [?fl] @ e'"
    have ws: "?ws = take p xs" "length (take p xs) = p" using lt by simp_all
    have "rd_at r ((map ?so ?ws @ [?fl]) @ e' @ rest)" using 1(5) unfolding e by simp
    then have rd: "read_bytes (Suc p) r = (Some (map ?so ?ws @ [?fl]), rd_adv (Suc p) r)"
      "rd_at (rd_adv (Suc p) r) (e' @ rest)"
      using space_segment_read [of r "[?so ?pad]" "map ?so xs" p] unfolding weight_segment by blast+
    let ?b = "mono_write_unpack_simple codec (take p xs) b"
    have wr: "mono_write_unpack_simple codec xs b = mono_write_unpack_simple codec (drop p xs) ?b"
      by (simp flip: write_simple_append)
    have inv: "bw_inv ?b" using 1(6) by (rule write_simple_inv)
    have ag: "bw_agrees (mono_write_unpack_simple codec (drop p xs) ?b) F" using 1(8) unfolding wr .
    obtain rb1 where rb1: "mono_read_unpack_simple codec (map ?so (take p xs)) (Some rb) = Some (take p xs, Some rb1)"
      "br_tracks rb1 ?b F"
      using read_simple_ok [OF assms(2) 1(6,7) bw_agrees_before_simple [OF inv ag]] by blast
    have tr: "drop p xs = [] \<or> last (drop p xs) \<noteq> ?pad" using 1(2) lt by auto
    have room: "length (out @ take p xs) + length (drop p xs) + (n - k) \<le> cap" using 1(9) lt by simp
    have "length (drop p xs) < length xs" using lt p by simp
    then obtain rb' where
      "unpack_simple_space_pad_loop (Suc p) codec cap k (out @ take p xs) rb1 (rd_adv (Suc p) r) =
        Some ((out @ take p xs) @ drop p xs @ replicate (n - k) ?pad, rb', rd_adv (length e') (rd_adv (Suc p) r))"
      "br_tracks rb' (mono_write_unpack_simple codec (drop p xs) ?b) F"
      using 1(1) tr e' 1(4) rd(2) inv rb1(2) ag room by blast
    moreover have "?fl = VARCHAR_CMP_LESS_THAN_SPACES \<or> ?fl = VARCHAR_CMP_GREATER_THAN_SPACES"
      using space_flag_cases fl by blast
    moreover have "\<not> cap < length out + p" using 1(9) lt by simp
    ultimately show ?thesis
      using rd(1) rb1(1) fl ws e wr
      by (elim disjE) (simp_all add: unpack_simple_space_pad_loop.simps [of "Suc p" codec cap k out rb r]
        nth_append Let_def)
  qed
qed

section \<open>The codec\<close>

text \<open>
  A value of such a column: the characters \<open>xs\<close>, not ending in a pad character,
  and \<open>t\<close> trailing pad characters; the collation maps each character to its weight.
\<close>

definition simple_text :: "mono_field_packing \<Rightarrow> field \<Rightarrow> cell \<Rightarrow> bytes \<Rightarrow> nat \<Rightarrow> bool" where
  "simple_text fpi f c xs t \<longleftrightarrow>
     (case m_charset_codec fpi of None \<Rightarrow> False
      | Some codec \<Rightarrow>
          (let cs = field_charset f; pad = cs_pad_char cs; so = cs_sort_order cs
           in codec_ok cs codec \<and> lone_pad cs \<and> (xs = [] \<or> last xs \<noteq> pad) \<and>
              space_unit fpi = [so pad] \<and> space_xfrm_len fpi = 1 \<and> space_mb_len fpi = 1 \<and>
              m_segment_size fpi - 1 \<le> mono_TRIMMED_CHARS_OFFSET \<and> \<not> m_unpack_info_stores_value fpi \<and>
              varchar_data f c (varchar_len f c) = xs @ replicate t pad \<and> varchar_len f c \<le> char_length f \<and>
              varchar_trimmed_len f c = length xs \<and> space_pad_xfrm fpi f c = map so xs \<and>
              mono_TRIMMED_CHARS_OFFSET + t < (if m_unpack_info_uses_two_bytes fpi then 65536 else 256)))"

definition wf_simple_varchar :: "mono_field_packing \<Rightarrow> field \<Rightarrow> cell \<Rightarrow> bool" where
  "wf_simple_varchar fpi f c \<longleftrightarrow> wf_space_pad fpi f c \<and> (\<exists>xs t. simple_text fpi f c xs t)"

text \<open>Packing writes the number of spaces, then the bit fields.\<close>

definition simple_varchar_info :: "mono_field_packing \<Rightarrow> field \<Rightarrow> cell \<Rightarrow> bytes" where
  "simple_varchar_info fpi f c =
     (case (pack_with_varchar_space_pad fpi f c (Some empty_writer), m_charset_codec fpi) of
        (Some (_, Some w), Some codec) \<Rightarrow> wr_data (make_unpack_simple_varchar codec f c w)
      | _ \<Rightarrow> [])"

lemma units_bytes: "units (Suc 0) (map (\<lambda>x. unat (g x)) xs) = map g xs"
  by (induction xs) (simp_all add: be_bytes_def)

lemma simple_varchar_unpack_ok:
  assumes "wf_space_pad fpi f v" "simple_text fpi f v xs t" "dest_len (field_pack_length f) c"
    "rd_at r (space_pad_image fpi f v @ rest)" "info_at ur (simple_varchar_info fpi f v @ urest)"
  shows "\<exists>c' ur'. unpack_simple_varchar_space_pad fpi f c r ur =
      Some (c', rd_adv (length (space_pad_image fpi f v)) r, ur') \<and> same_varchar f v c' \<and> info_at ur' urest"
proof -
  let ?cs = "field_charset f"
  let ?pad = "cs_pad_char ?cs" and ?so = "cs_sort_order ?cs" and ?cap = "field_pack_length f - length_bytes f"
  obtain codec where co: "m_charset_codec fpi = Some codec" "codec_ok ?cs codec" "lone_pad ?cs"
    and un: "space_unit fpi = [?so ?pad]" "space_xfrm_len fpi = 1" "space_mb_len fpi = 1" "\<not> m_unpack_info_stores_value fpi"
    and tr: "xs = [] \<or> last xs \<noteq> ?pad" and xf: "space_pad_xfrm fpi f v = map ?so xs" "varchar_trimmed_len f v = length xs"
    and d: "varchar_data f v (varchar_len f v) = xs @ replicate t ?pad" "varchar_len f v \<le> char_length f"
    and sz: "m_segment_size fpi - 1 \<le> 8" "8 + t < (if m_unpack_info_uses_two_bytes fpi then 65536 else 256)"
    using assms(2) by (auto simp: simple_text_def mono_TRIMMED_CHARS_OFFSET_def Let_def split: option.splits)
  obtain p sp n where p: "m_segment_size fpi = Suc p" "space_xfrm fpi = Some sp"
    and img: "ok_image p (space_unit fpi) sp (space_pad_xfrm fpi f v)"
    and e: "space_pad_loop (Suc p) sp (space_pad_xfrm fpi f v) = Some (space_pad_image fpi f v, n)"
    by (rule space_pad_image_loop [OF assms(1)])
  have sp: "ok_spaces p [?so ?pad] sp" using img un(1) by (simp add: ok_image_def)
  have "n \<le> p"
    using space_pad_units_padding [of 1 p "unat (?so ?pad)" sp "map unat (map ?so xs)" "space_pad_image fpi f v" n] e sp
    by (simp add: xf(1) units_bytes be_bytes_def comp_def)
  then have n8: "n \<le> 8" using sz(1) p(1) by simp
  have cell: "wf_varchar_cell f v" using assms(1) by (simp add: wf_space_pad_def)
  have len: "varchar_len f v \<le> ?cap" "length (varchar_data f v (varchar_len f v)) = varchar_len f v"
    using cell by (auto simp: wf_varchar_cell_def varchar_cap_def varchar_data_def)
  have room: "length xs + t \<le> ?cap" using len unfolding d(1) by simp
  have vt: "varchar_len f v - varchar_trimmed_len f v = t" using len(2) unfolding d(1) xf(2) by simp
  have small: "8 + t < 65536" using sz(2) by (simp split: if_splits)
  have si: "space_pad_info fpi f v =
      (if m_unpack_info_uses_two_bytes fpi then be_bytes 2 (8 + t - n) else [of_nat (8 + t - n)])"
    using space_pad_info_gen [of fpi p sp f v "space_pad_image fpi f v" 1 n t] p e n8 un vt small by simp
  have bits: "simple_info codec (varchar_data f v (varchar_len f v)) = simple_info codec xs"
    unfolding d(1) simple_info_def
    by (simp only: write_simple_append write_simple_pads [OF lone_char_no_bits [OF co(2,3)]])
  have info: "simple_varchar_info fpi f v = space_pad_info fpi f v @ simple_info codec xs"
    using d(2) p e un bits co(1)
    by (simp add: simple_varchar_info_def space_pad_info_def pack_with_varchar_space_pad_def
      make_unpack_simple_varchar_def write_simple_appends min_absorb2 Let_def)
  obtain u u' where u: "ur = Some u" "read_extra_spaces fpi u = (Some (8 + t - n), u')"
      "rd_at u' (simple_info codec xs @ urest)"
    using assms(5) unfolding info si append_assoc
    by (rule space_info_read) (use sz(2) in auto)
  have cnt: "space_counts fpi (8 + t - n) = (n - t, t - n)"
    using un(2) n8 by (auto simp: space_counts_def mono_TRIMMED_CHARS_OFFSET_def)
  let ?w = "mono_write_unpack_simple codec xs (new_bit_writer empty_writer)"
  let ?F = "simple_info codec xs @ urest"
  have ag: "bw_agrees ?w ?F"
    unfolding simple_info_def by (rule bw_agrees_append [OF bw_agrees_self]) (simp add: write_simple_inv bw_inv_new)
  have tk: "br_tracks (new_bit_reader u') (new_bit_writer empty_writer) ?F"
    using u(3) by (simp add: br_tracks_def new_bit_reader_def new_bit_writer_def empty_writer_def)
  have "length ([] :: bytes) + length xs + (n - (n - t)) \<le> ?cap" using room by simp
  then obtain rb' where loop: "unpack_simple_space_pad_loop (Suc p) codec ?cap (n - t) [] (new_bit_reader u') r =
      Some ([] @ xs @ replicate (n - (n - t)) ?pad, rb', rd_adv (length (space_pad_image fpi f v)) r)"
      "br_tracks rb' ?w ?F"
    using unpack_simple_segments [OF sp co(2,3) tr e [unfolded xf(1)] _ assms(4) bw_inv_new tk ag, of "n - t" "[]" ?cap]
    by auto
  have rb: "rd_at (br_reader rb') urest" using loop(2) by (simp add: br_tracks_def simple_info_def)
  obtain c' where c': "store_varchar f c (varchar_data f v (varchar_len f v)) = Some c'" "same_varchar f v c'"
    by (rule store_varchar_ok [OF cell assms(3)])
  have "(n - (n - t)) + (t - n) = t" by linarith
  then have "replicate (n - (n - t)) ?pad @ replicate (t - n) ?pad = replicate t ?pad"
    by (simp flip: replicate_add)
  then have "store_varchar f c (xs @ replicate (n - (n - t)) ?pad @ replicate (t - n) ?pad) = Some c'"
    using c'(1) unfolding d(1) by simp
  then show ?thesis
    using u(1,2) co(1) cnt loop(1) rb c'(2) p(1) room
    by (cases "t \<le> n") (simp_all add: unpack_simple_varchar_space_pad_def)
qed

interpretation simple_varchar_unpack: unpack_codec "wf_simple_varchar fpi f" "dest_len (field_pack_length f)"
  "space_pad_image fpi f" "simple_varchar_info fpi f" "unpack_simple_varchar_space_pad fpi f"
  "same_varchar f" for fpi f
  by unfold_locales (auto simp: wf_simple_varchar_def intro: simple_varchar_unpack_ok)

section \<open>Properties\<close>

text \<open>
  C31. The tables of a simple collation are right: for every collation the mapping
  supports, building it succeeds, and for every character the number written for
  it is below the size of the decode table, fits the bit field declared for the
  character and for its weight, and selects the character itself when decoded
  with its weight.
\<close>

theorem collation_tables_decode:
  assumes "mono_is_collation_supported cs"
  shows "\<exists>codec. mono_init_collation_mapping cs = Some codec \<and>
    unat (m_enc_idx codec s) < length (m_dec_idx codec) \<and>
    unat (m_enc_idx codec s) < 2 ^ unat (m_enc_size codec s) \<and>
    m_dec_size codec (cs_sort_order cs s) = m_enc_size codec s \<and>
    (m_dec_idx codec ! unat (m_enc_idx codec s)) (cs_sort_order cs s) = s"
proof -
  obtain codec where "mono_init_collation_mapping cs = Some codec"
    using assms by (cases "build_rev_map (cs_sort_order cs)") (simp add: mono_init_collation_mapping_def)
  then show ?thesis
    using collation_mapping_correct [of cs codec s] unfolding codec_for_def by metis
qed

text \<open>A collation that ignores the case of ASCII letters.\<close>

definition fold_case :: "byte \<Rightarrow> byte" where
  "fold_case c = (if 97 \<le> c \<and> c \<le> 122 then c - 32 else c)"

definition weighted_cs :: "(byte \<Rightarrow> byte) \<Rightarrow> charset_info" where
  "weighted_cs so = (my_charset_latin1_bin (\<lambda>wc n. Some [of_nat wc]))\<lparr>cs_number := 8, cs_binsort := False,
     cs_sort_order := so, cs_strnxfrm := (\<lambda>dstlen nweights src. map so (take (min dstlen nweights) src))\<rparr>"

lemma weighted_cs_supported: "mono_is_collation_supported (weighted_cs so)"
  by (simp add: mono_is_collation_supported_def weighted_cs_def my_charset_latin1_bin_def)

lemma collation_tables_exist: "\<exists>codec. mono_init_collation_mapping (weighted_cs so) = Some codec"
  using weighted_cs_supported [of so]
  by (cases "build_rev_map (cs_sort_order (weighted_cs so))") (simp add: mono_init_collation_mapping_def)

theorem collation_tables_decode_witness:
  "\<exists>codec. mono_init_collation_mapping (weighted_cs fold_case) = Some codec \<and>
     (m_dec_idx codec ! unat (m_enc_idx codec 97)) 65 = 97 \<and> (m_dec_idx codec ! unat (m_enc_idx codec 65)) 65 = 65"
  using collation_tables_decode [OF weighted_cs_supported, of fold_case 97]
    collation_tables_decode [OF weighted_cs_supported, of fold_case 65]
  by (auto simp: weighted_cs_def fold_case_def)

text \<open>
  C38. The sample of spaces is what packing needs: for a collation whose encoder
  knows its pad character and whose image of a space is not empty and divides
  the data bytes of a segment, computing the sample ends, reports the lengths of
  that image and of the character, and gives at least 32 bytes of whole images,
  so that every segment can be padded and compared.
\<close>

theorem space_sample_ok:
  assumes "cs_wc_mb cs (unat (cs_pad_char cs)) MAX_MULTI_BYTE_CHAR_SIZE = Some mb"
    and "u = cs_strnxfrm cs 20 1 mb" "u \<noteq> []" "length u dvd get_segment_size_from_collation cs - 1"
  shows "\<exists>sp. mono_get_mem_comparable_space cs = Some (sp, length u, length mb) \<and> mono_SPACE_XFRM_SIZE \<le> length sp \<and>
    ok_spaces (get_segment_size_from_collation cs - 1) u sp"
proof -
  obtain m where m: "fill_spaces u [] = Some (concat (replicate m u))" "mono_SPACE_XFRM_SIZE \<le> m * length u"
    using fill_spaces_sample [OF assms(3), of 0] by auto
  have "ok_spaces (get_segment_size_from_collation cs - 1) u (concat (replicate m u))"
    unfolding ok_spaces_def length_concat_replicate
    using assms(3,4) m(2) nth_concat_replicate [of _ m u]
    by (auto simp: get_segment_size_from_collation_def mono_SPACE_XFRM_SIZE_def)
  then show ?thesis
    using assms(1,2) m by (simp add: mono_get_mem_comparable_space_def length_concat_replicate Let_def)
qed

theorem space_sample_ok_witness:
  "\<exists>sp. mono_get_mem_comparable_space (weighted_cs fold_case) = Some (sp, 1, 1) \<and> ok_spaces 8 [32] sp"
proof -
  have "cs_wc_mb (weighted_cs fold_case) (unat (cs_pad_char (weighted_cs fold_case))) MAX_MULTI_BYTE_CHAR_SIZE = Some [32]"
    "[32] = cs_strnxfrm (weighted_cs fold_case) 20 1 [32]" "[32 :: byte] \<noteq> []"
    "length [32 :: byte] dvd get_segment_size_from_collation (weighted_cs fold_case) - 1"
    by (simp_all add: weighted_cs_def my_charset_latin1_bin_def fold_case_def)
  from space_sample_ok [OF this] show ?thesis
    by (auto simp: get_segment_size_from_collation_def weighted_cs_def my_charset_latin1_bin_def COLLATION_UTF8MB4_BIN_def)
qed

text \<open>A \<open>VARCHAR(12)\<close> column of such a collation, its descriptor with the tables, and a reader on a list.\<close>

definition weighted_varchar :: "(byte \<Rightarrow> byte) \<Rightarrow> field" where
  "weighted_varchar so = latin1_varchar\<lparr>field_charset := weighted_cs so\<rparr>"

definition weighted_packing :: "(byte \<Rightarrow> byte) \<Rightarrow> mono_field_packing" where
  "weighted_packing so = latin1_packing\<lparr>m_varchar_charset := Some (weighted_cs so),
     m_charset_codec := mono_init_collation_mapping (weighted_cs so),
     m_make_unpack_info_func := Some Make_unpack_simple_varchar,
     m_unpack_func := Some Unpack_simple_varchar_space_pad\<rparr>"

definition list_reader :: "bytes \<Rightarrow> mono_string_reader" where
  "list_reader bs = \<lparr>rd_data = bs, m_ptr = Some 0, m_len = length bs\<rparr>"

lemma rd_at_list_reader: "rd_at (list_reader bs) bs"
  by (simp add: rd_at_def list_reader_def)

lemmas weighted_defs = weighted_packing_def weighted_varchar_def weighted_cs_def latin1_defs

lemmas varchar_value_defs = space_pad_xfrm_def varchar_len_def varchar_trimmed_len_def varchar_data_def
  my_lengthsp_8bit_def char_length_def

lemma weighted_codec:
  obtains codec where "mono_init_collation_mapping (weighted_cs so) = Some codec"
    "m_charset_codec (weighted_packing so) = Some codec" "codec_ok (weighted_cs so) codec"
  using collation_tables_exist [of so] by (auto simp: weighted_packing_def codec_ok_def)


lemma fold_case_lone_pad: "lone_pad (weighted_cs fold_case)"
proof -
  have "c = 32" if c: "fold_case c = 32" for c
  proof (cases "97 \<le> c \<and> c \<le> 122")
    case True
    have "c - 32 = 32" using c unfolding fold_case_def if_P [OF True] .
    then have "c - 32 + 32 = 32 + 32" by (rule arg_cong)
    then have "c = 64" by simp
    with True show ?thesis by simp
  next
    case False
    show ?thesis using c unfolding fold_case_def if_not_P [OF False] .
  qed
  moreover have "fold_case 32 = 32" by (simp add: fold_case_def)
  ultimately show ?thesis by (simp add: lone_char_def weighted_cs_def my_charset_latin1_bin_def)
qed


section \<open>A character with the weight of a space\<close>

text \<open>
  Some of the server's tables (\<open>koi8u_general_ci\<close> and \<open>cp1251_ukrainian_ci\<close> at 0x60,
  \<open>cp1250_general_ci\<close> at 0xa0) give another character the weight of a space. Packing
  stops at the last segment boundary behind which all weights are those of
  spaces, and the stored number of spaces counts trimmed pad characters only: a
  value that ends in such a character behind a boundary loses it when unpacked.
\<close>

definition backquote_as_space :: "byte \<Rightarrow> byte" where
  "backquote_as_space c = (if c = 96 then 32 else c)"


end
