(* ===== verification/Part_Setup.thy ===== *)
theory Part_Setup
  imports Simple_Varchar
begin

text \<open>
  \<open>mono_field_packing::setup\<close>: how a column and the length of its key part choose
  the pack, skip and unpack functions and the sizes of a key part. The descriptor
  that setup produces is shown to be consistent (the functions it selects find
  the members they read) and to bound the length of every image.
\<close>

section \<open>Definitions\<close>

definition MY_UUID_SIZE :: nat where "MY_UUID_SIZE = 16"

text \<open>The members that every call sets first.\<close>

definition setup_defaults ::
  "field option \<Rightarrow> nat \<Rightarrow> nat \<Rightarrow> nat \<Rightarrow> mono_field_packing \<Rightarrow> mono_field_packing" where
  "setup_defaults fo keynr_arg key_part_arg key_length fpi = fpi
     \<lparr>m_keynr := keynr_arg, m_key_part := key_part_arg,
      m_maybe_null := (case fo of None \<Rightarrow> False | Some f \<Rightarrow> real_maybe_null f),
      m_unpack_func := None, m_make_unpack_info_func := None, m_unpack_data_len := 0,
      space_xfrm := None,
      m_field_idx := (case fo of None \<Rightarrow> 0 | Some f \<Rightarrow> field_index f + 1),
      m_Key_part_length := key_length,
      m_max_image_len := (case fo of None \<Rightarrow> MY_UUID_SIZE | Some f \<Rightarrow> field_pack_length f),
      m_skip_func := Skip_max_length, m_pack_func := Some Pack_make_sort_key\<rparr>"

text \<open>The space-padded functions and sizes; \<open>len\<close> is the image length before segments.\<close>

definition setup_space_pad :: "charset_info \<Rightarrow> nat \<Rightarrow> mono_field_packing \<Rightarrow> mono_field_packing option" where
  "setup_space_pad cs len fpi =
     (let seg = get_segment_size_from_collation cs
      in map_option (\<lambda>(sp, xfrm_len, mb_len). fpi
           \<lparr>m_pack_func := Some Pack_varchar_space_pad, m_skip_func := Skip_variable_space_pad,
            m_segment_size := seg, m_max_image_len := (len div (seg - 1) + 1) * seg,
            space_xfrm := Some sp, space_xfrm_len := xfrm_len, space_mb_len := mb_len\<rparr>)
         (mono_get_mem_comparable_space cs))"

text \<open>The collations whose images are the strings themselves.\<close>

definition setup_bin :: "bool \<Rightarrow> charset_info \<Rightarrow> nat \<Rightarrow> mono_field_packing \<Rightarrow> mono_field_packing option" where
  "setup_bin is_varchar cs len fpi =
     (if is_varchar
      then map_option (\<lambda>fpi. fpi
             \<lparr>m_unpack_func := Some (if cs_number cs = COLLATION_UTF8MB4_BIN then Unpack_utf8mb4_varchar_space_pad
                                     else if cs_number cs = COLLATION_UTF8_BIN then Unpack_utf8_varchar_space_pad
                                     else Unpack_binary_varchar_space_pad),
              m_make_unpack_info_func := Some Make_unpack_dummy\<rparr>) (setup_space_pad cs len fpi)
      else Some (fpi
             \<lparr>m_unpack_func := Some (if cs_number cs = COLLATION_UTF8MB4_BIN then Unpack_utf8mb4_str
                                     else if cs_number cs = COLLATION_UTF8_BIN then Unpack_utf8_str
                                     else Unpack_binary_str)\<rparr>))"

text \<open>Every other collation: tables where they exist, a copy of the value otherwise.\<close>

definition setup_codec :: "bool \<Rightarrow> charset_info \<Rightarrow> mono_field_packing \<Rightarrow> mono_field_packing" where
  "setup_codec is_varchar cs fpi =
     (case mono_init_collation_mapping cs of
        Some codec \<Rightarrow> fpi
          \<lparr>m_make_unpack_info_func := Some (if is_varchar then Make_unpack_simple_varchar else Make_unpack_simple),
           m_unpack_func := Some (if is_varchar then Unpack_simple_varchar_space_pad else Unpack_simple),
           m_charset_codec := Some codec\<rparr>
      | None \<Rightarrow> fpi
          \<lparr>m_unpack_info_stores_value := True,
           m_make_unpack_info_func := Some (if is_varchar then Make_unpack_unknown_varchar else Make_unpack_unknown),
           m_unpack_func := Some (if is_varchar then Unpack_unknown_varchar else Unpack_unknown)\<rparr>)"

definition setup_weighted ::
  "bool \<Rightarrow> field \<Rightarrow> nat \<Rightarrow> mono_field_packing \<Rightarrow> mono_field_packing option" where
  "setup_weighted is_varchar f len fpi =
     (let cs = field_charset f; fpi = fpi\<lparr>m_unpack_data_len := (if is_varchar then 0 else field_length f)\<rparr>
      in map_option (setup_codec is_varchar cs)
           (if is_varchar
            then (if cs_levels_for_order cs = 1 then setup_space_pad cs len fpi
                  else Some (fpi\<lparr>m_pack_func := Some Pack_varchar_encoding, m_skip_func := Skip_variable_length\<rparr>))
            else Some fpi))"

text \<open>
  The part for \<open>[VAR]CHAR\<close> and \<open>[VAR]BINARY\<close>; the result is whether index-only reads
  are possible. A key on a prefix of the column cannot be unpacked.
\<close>

definition setup_string ::
  "bool \<Rightarrow> field \<Rightarrow> nat \<Rightarrow> mono_field_packing \<Rightarrow> (bool \<times> mono_field_packing) option" where
  "setup_string is_varchar f key_length fpi =
     (let cs = field_charset f;
          len = cs_strnxfrmlen cs (if is_varchar then field_length f else field_pack_length f);
          fpi = fpi\<lparr>m_max_image_len := len\<rparr>;
          fpi = (if is_varchar
                 then fpi\<lparr>m_varchar_charset := Some cs, m_skip_func := Skip_variable_length,
                          m_max_image_len := MONO_ENCODED_SIZE len,
                          m_unpack_info_uses_two_bytes := (256 \<le> field_length f + 8)\<rparr>
                 else fpi)
      in map_option (\<lambda>fpi. if field_length f \<noteq> key_length
                       then (False, fpi\<lparr>m_unpack_func := None, m_make_unpack_info_func := None,
                                        m_unpack_info_stores_value := True\<rparr>)
                       else (True, fpi))
           (if cs_number cs = COLLATION_BINARY
            then Some (fpi\<lparr>m_unpack_func := Some (if is_varchar then Unpack_binary_or_utf8_varchar else Unpack_binary_str)\<rparr>)
            else if cs_number cs = COLLATION_LATIN1_BIN \<or> cs_number cs = COLLATION_UTF8_BIN \<or>
                    cs_number cs = COLLATION_UTF8MB4_BIN
            then setup_bin is_varchar cs len fpi
            else setup_weighted is_varchar f len fpi))"

text \<open>
  The whole function. The first argument tells whether a key descriptor was
  passed; the last one is the content of the object before the call. For the
  types of \<open>SET\<close>, \<open>ENUM\<close> and, without a key descriptor, blobs only \<open>varchar\<close>-neutral
  members change behind the switch and the result is false.
\<close>

definition packing_setup ::
  "bool \<Rightarrow> field option \<Rightarrow> nat \<Rightarrow> nat \<Rightarrow> nat \<Rightarrow> mono_field_packing \<Rightarrow> (bool \<times> mono_field_packing) option" where
  "packing_setup key_descr fo keynr_arg key_part_arg key_length fpi0 =
     (let fpi = setup_defaults fo keynr_arg key_part_arg key_length fpi0
      in case fo of
           None \<Rightarrow> Some (True, fpi\<lparr>m_pack_func := None, m_unpack_func := None\<rparr>)
         | Some f \<Rightarrow>
             if real_type f \<in> {MYSQL_TYPE_LONGLONG, MYSQL_TYPE_LONG, MYSQL_TYPE_INT24, MYSQL_TYPE_SHORT, MYSQL_TYPE_TINY}
             then Some (True, fpi\<lparr>m_unpack_func := Some Unpack_integer\<rparr>)
             else if real_type f = MYSQL_TYPE_DOUBLE then Some (True, fpi\<lparr>m_unpack_func := Some Unpack_double\<rparr>)
             else if real_type f = MYSQL_TYPE_FLOAT then Some (True, fpi\<lparr>m_unpack_func := Some Unpack_float\<rparr>)
             else if real_type f \<in> {MYSQL_TYPE_NEWDECIMAL, MYSQL_TYPE_DATETIME2, MYSQL_TYPE_TIMESTAMP2,
                                    MYSQL_TYPE_TIME2, MYSQL_TYPE_YEAR}
             then Some (True, fpi\<lparr>m_unpack_func := Some Unpack_binary_str\<rparr>)
             else if real_type f = MYSQL_TYPE_NEWDATE then Some (True, fpi\<lparr>m_unpack_func := Some Unpack_newdate\<rparr>)
             else if real_type f \<in> {MYSQL_TYPE_TINY_BLOB, MYSQL_TYPE_MEDIUM_BLOB, MYSQL_TYPE_LONG_BLOB, MYSQL_TYPE_BLOB}
             then (if key_descr
                   then Some (False, fpi\<lparr>m_pack_func := Some Pack_blob,
                          m_max_image_len := key_length +
                            (if cs_number (field_charset f) = COLLATION_BINARY then blob_packlength f else 0)\<rparr>)
                   else Some (False, fpi\<lparr>m_unpack_info_stores_value := False\<rparr>))
             else if real_type f \<in> {MYSQL_TYPE_SET, MYSQL_TYPE_ENUM}
             then Some (False, fpi\<lparr>m_unpack_func := Some Unpack_unsigned, m_unpack_info_stores_value := False\<rparr>)
             else if real_type f = MYSQL_TYPE_BIT then Some (True, fpi\<lparr>m_unpack_func := Some Unpack_bit\<rparr>)
             else if real_type f = MYSQL_TYPE_VARCHAR
             then setup_string True f key_length (fpi\<lparr>m_pack_func := Some Pack_varchar_encoding,
                    m_unpack_info_stores_value := False\<rparr>)
             else if real_type f = MYSQL_TYPE_STRING
             then setup_string False f key_length (fpi\<lparr>m_unpack_info_stores_value := False\<rparr>)
             else Some (False, fpi))"

section \<open>The image and the functions of a part\<close>

text \<open>
  The indirect calls through the function pointers of a descriptor. A null pack
  or unpack function, or a missing codec, is undefined.
\<close>

definition pack_part ::
  "mono_field_packing \<Rightarrow> field \<Rightarrow> cell \<Rightarrow> mono_string_writer option \<Rightarrow>
   (bytes \<times> mono_string_writer option) option" where
  "pack_part fpi f c w =
     (case m_pack_func fpi of
        None \<Rightarrow> None
      | Some Pack_make_sort_key \<Rightarrow> Some (pack_with_make_sort_key fpi f c, w)
      | Some Pack_blob \<Rightarrow> Some (pack_blob fpi f c, w)
      | Some Pack_varchar_encoding \<Rightarrow> Some (pack_with_varchar_encoding fpi f c, w)
      | Some Pack_varchar_space_pad \<Rightarrow> pack_with_varchar_space_pad fpi f c w)"

definition make_unpack_part ::
  "mono_field_packing \<Rightarrow> field \<Rightarrow> cell \<Rightarrow> mono_string_writer \<Rightarrow> mono_string_writer option" where
  "make_unpack_part fpi f c w =
     (case m_make_unpack_info_func fpi of
        None \<Rightarrow> None
      | Some Make_unpack_dummy \<Rightarrow> Some (dummy_make_unpack_info f c w)
      | Some Make_unpack_unknown \<Rightarrow> Some (make_unpack_unknown f c w)
      | Some Make_unpack_unknown_varchar \<Rightarrow> Some (make_unpack_unknown_varchar f c w)
      | Some Make_unpack_simple_varchar \<Rightarrow>
          map_option (\<lambda>codec. make_unpack_simple_varchar codec f c w) (m_charset_codec fpi)
      | Some Make_unpack_simple \<Rightarrow>
          map_option (\<lambda>codec. make_unpack_simple codec f c w) (m_charset_codec fpi))"

definition unpack_part ::
  "mono_field_packing \<Rightarrow> field \<Rightarrow> cell \<Rightarrow> mono_string_reader \<Rightarrow> mono_string_reader option \<Rightarrow> unpack_result" where
  "unpack_part fpi f c r ur =
     (case m_unpack_func fpi of
        None \<Rightarrow> None
      | Some Unpack_integer \<Rightarrow> unpack_integer fpi f c r ur
      | Some Unpack_unsigned \<Rightarrow> unpack_unsigned fpi f c r ur
      | Some Unpack_double \<Rightarrow> unpack_double fpi f c r ur
      | Some Unpack_float \<Rightarrow> unpack_float fpi f c r ur
      | Some Unpack_binary_str \<Rightarrow> unpack_binary_str fpi f c r ur
      | Some Unpack_newdate \<Rightarrow> unpack_newdate fpi f c r ur
      | Some Unpack_bit \<Rightarrow> unpack_bit fpi f c r ur
      | Some Unpack_binary_or_utf8_varchar \<Rightarrow> unpack_binary_or_utf8_varchar fpi f c r ur
      | Some Unpack_binary_varchar_space_pad \<Rightarrow> unpack_binary_or_utf8_varchar_space_pad 1 fpi f c r ur
      | Some Unpack_utf8_varchar_space_pad \<Rightarrow> unpack_binary_or_utf8_varchar_space_pad 2 fpi f c r ur
      | Some Unpack_utf8mb4_varchar_space_pad \<Rightarrow> unpack_binary_or_utf8_varchar_space_pad 3 fpi f c r ur
      | Some Unpack_utf8_str \<Rightarrow> unpack_utf8_str 2 fpi f c r ur
      | Some Unpack_utf8mb4_str \<Rightarrow> unpack_utf8_str 3 fpi f c r ur
      | Some Unpack_unknown \<Rightarrow> unpack_unknown fpi f c r ur
      | Some Unpack_unknown_varchar \<Rightarrow> unpack_unknown_varchar fpi f c r ur
      | Some Unpack_simple_varchar_space_pad \<Rightarrow> unpack_simple_varchar_space_pad fpi f c r ur
      | Some Unpack_simple \<Rightarrow> unpack_simple fpi f c r ur)"

section \<open>Consistent descriptors\<close>

text \<open>
  The functions of a descriptor fit together: the skip function is the one for the
  images of the pack function, a space-padded part has its sample of spaces and
  segments with data, a function that uses the tables of a collation finds them,
  and the unpack function is the one for what packing and the unpack information
  function write.
\<close>

definition skip_fits :: "mono_field_packing \<Rightarrow> bool" where
  "skip_fits fpi \<longleftrightarrow>
     (case m_pack_func fpi of
        Some Pack_varchar_space_pad \<Rightarrow>
          m_skip_func fpi = Skip_variable_space_pad \<and> space_xfrm fpi \<noteq> None \<and> 1 < m_segment_size fpi
      | Some Pack_varchar_encoding \<Rightarrow> m_skip_func fpi = Skip_variable_length
      | _ \<Rightarrow> m_skip_func fpi = Skip_max_length)"

definition unpack_fits :: "mono_field_packing \<Rightarrow> bool" where
  "unpack_fits fpi \<longleftrightarrow>
     (case m_unpack_func fpi of
        None \<Rightarrow> \<not> uses_unpack_info fpi
      | Some u \<Rightarrow>
          if u \<in> {Unpack_binary_varchar_space_pad, Unpack_utf8_varchar_space_pad, Unpack_utf8mb4_varchar_space_pad}
          then m_pack_func fpi = Some Pack_varchar_space_pad \<and> \<not> m_unpack_info_stores_value fpi \<and>
               m_make_unpack_info_func fpi = Some Make_unpack_dummy
          else if u = Unpack_simple_varchar_space_pad
          then m_pack_func fpi = Some Pack_varchar_space_pad \<and> \<not> m_unpack_info_stores_value fpi \<and>
               m_make_unpack_info_func fpi = Some Make_unpack_simple_varchar \<and> m_charset_codec fpi \<noteq> None
          else if u = Unpack_unknown_varchar
          then m_pack_func fpi \<in> {Some Pack_varchar_space_pad, Some Pack_varchar_encoding} \<and>
               m_unpack_info_stores_value fpi \<and> m_make_unpack_info_func fpi = Some Make_unpack_unknown_varchar
          else if u = Unpack_binary_or_utf8_varchar
          then m_pack_func fpi = Some Pack_varchar_encoding \<and> \<not> uses_unpack_info fpi
          else if u = Unpack_unknown
          then m_pack_func fpi = Some Pack_make_sort_key \<and> m_make_unpack_info_func fpi = Some Make_unpack_unknown
          else if u = Unpack_simple
          then m_pack_func fpi = Some Pack_make_sort_key \<and> m_make_unpack_info_func fpi = Some Make_unpack_simple \<and>
               m_charset_codec fpi \<noteq> None
          else m_pack_func fpi = Some Pack_make_sort_key \<and> \<not> uses_unpack_info fpi)"

definition part_of_field :: "field option \<Rightarrow> nat \<Rightarrow> nat \<Rightarrow> nat \<Rightarrow> mono_field_packing \<Rightarrow> bool" where
  "part_of_field fo keynr part len fpi \<longleftrightarrow>
     m_keynr fpi = keynr \<and> m_key_part fpi = part \<and> m_Key_part_length fpi = len \<and>
     m_field_idx fpi = (case fo of None \<Rightarrow> 0 | Some f \<Rightarrow> field_index f + 1) \<and>
     m_maybe_null fpi = (case fo of None \<Rightarrow> False | Some f \<Rightarrow> real_maybe_null f)"

lemma segment_size_data: "1 < get_segment_size_from_collation cs"
  by (simp add: get_segment_size_from_collation_def)

lemma part_of_field_upd [simp]:
  "part_of_field fo kn i len (fpi\<lparr>m_max_image_len := a\<rparr>) = part_of_field fo kn i len fpi"
  "part_of_field fo kn i len (fpi\<lparr>m_unpack_data_len := a\<rparr>) = part_of_field fo kn i len fpi"
  "part_of_field fo kn i len (fpi\<lparr>m_varchar_charset := b\<rparr>) = part_of_field fo kn i len fpi"
  "part_of_field fo kn i len (fpi\<lparr>m_segment_size := a\<rparr>) = part_of_field fo kn i len fpi"
  "part_of_field fo kn i len (fpi\<lparr>m_unpack_info_uses_two_bytes := t\<rparr>) = part_of_field fo kn i len fpi"
  "part_of_field fo kn i len (fpi\<lparr>space_xfrm := xs\<rparr>) = part_of_field fo kn i len fpi"
  "part_of_field fo kn i len (fpi\<lparr>space_xfrm_len := a\<rparr>) = part_of_field fo kn i len fpi"
  "part_of_field fo kn i len (fpi\<lparr>space_mb_len := a\<rparr>) = part_of_field fo kn i len fpi"
  "part_of_field fo kn i len (fpi\<lparr>m_charset_codec := cd\<rparr>) = part_of_field fo kn i len fpi"
  "part_of_field fo kn i len (fpi\<lparr>m_unpack_info_stores_value := t\<rparr>) = part_of_field fo kn i len fpi"
  "part_of_field fo kn i len (fpi\<lparr>m_pack_func := pf\<rparr>) = part_of_field fo kn i len fpi"
  "part_of_field fo kn i len (fpi\<lparr>m_make_unpack_info_func := mf\<rparr>) = part_of_field fo kn i len fpi"
  "part_of_field fo kn i len (fpi\<lparr>m_unpack_func := uf\<rparr>) = part_of_field fo kn i len fpi"
  "part_of_field fo kn i len (fpi\<lparr>m_skip_func := sf\<rparr>) = part_of_field fo kn i len fpi"
  by (simp_all add: part_of_field_def)

lemma setup_defaults_part: "part_of_field fo kn i len (setup_defaults fo kn i len raw)"
  by (simp add: setup_defaults_def part_of_field_def)

lemma setup_defaults_funcs:
  "m_pack_func (setup_defaults fo kn i len raw) = Some Pack_make_sort_key"
  "m_skip_func (setup_defaults fo kn i len raw) = Skip_max_length"
  "m_make_unpack_info_func (setup_defaults fo kn i len raw) = None"
  "m_unpack_func (setup_defaults fo kn i len raw) = None"
  "m_maybe_null (setup_defaults fo kn i len raw) = (case fo of None \<Rightarrow> False | Some f \<Rightarrow> real_maybe_null f)"
  "m_max_image_len (setup_defaults fo kn i len raw) = (case fo of None \<Rightarrow> MY_UUID_SIZE | Some f \<Rightarrow> field_pack_length f)"
  by (simp_all add: setup_defaults_def)

text \<open>The string types, started with the functions the switch has chosen.\<close>

definition setup_start :: "bool \<Rightarrow> mono_field_packing \<Rightarrow> bool" where
  "setup_start v fpi \<longleftrightarrow> m_pack_func fpi = Some (if v then Pack_varchar_encoding else Pack_make_sort_key) \<and>
     m_skip_func fpi = (if v then Skip_variable_length else Skip_max_length) \<and>
     m_unpack_func fpi = None \<and> m_make_unpack_info_func fpi = None \<and> \<not> m_unpack_info_stores_value fpi"

definition fits_like :: "mono_field_packing \<Rightarrow> mono_field_packing \<Rightarrow> bool" where
  "fits_like fpi fpi' \<longleftrightarrow> skip_fits fpi' \<and> unpack_fits fpi' \<and>
     (\<forall>fo kn i l. part_of_field fo kn i l fpi' = part_of_field fo kn i l fpi)"

lemma setup_space_pad_shape:
  assumes "setup_space_pad cs len fpi = Some fpi'"
  shows "m_pack_func fpi' = Some Pack_varchar_space_pad" "m_skip_func fpi' = Skip_variable_space_pad"
    "space_xfrm fpi' \<noteq> None" "1 < m_segment_size fpi'" "m_unpack_func fpi' = m_unpack_func fpi"
    "m_make_unpack_info_func fpi' = m_make_unpack_info_func fpi"
    "m_unpack_info_stores_value fpi' = m_unpack_info_stores_value fpi"
    "part_of_field fo kn i l fpi' = part_of_field fo kn i l fpi"
  using assms segment_size_data [of cs] by (auto simp: setup_space_pad_def Let_def)

lemma setup_bin_fits:
  assumes "setup_bin v cs len fpi = Some fpi'" "setup_start v fpi"
  shows "fits_like fpi fpi'"
proof (cases v)
  case True
  then obtain g where g: "setup_space_pad cs len fpi = Some g"
    "fpi' = g\<lparr>m_unpack_func := Some (if cs_number cs = COLLATION_UTF8MB4_BIN then Unpack_utf8mb4_varchar_space_pad
        else if cs_number cs = COLLATION_UTF8_BIN then Unpack_utf8_varchar_space_pad
        else Unpack_binary_varchar_space_pad), m_make_unpack_info_func := Some Make_unpack_dummy\<rparr>"
    using assms(1) by (auto simp: setup_bin_def)
  show ?thesis using setup_space_pad_shape [OF g(1)] assms(2) unfolding g(2)
    by (simp add: fits_like_def skip_fits_def unpack_fits_def setup_start_def)
next
  case False
  then show ?thesis using assms
    by (auto simp: setup_bin_def fits_like_def skip_fits_def unpack_fits_def setup_start_def uses_unpack_info_def)
qed

lemma setup_codec_fits:
  assumes "skip_fits fpi" "\<not> m_unpack_info_stores_value fpi"
    and "if v then m_pack_func fpi = Some Pack_varchar_space_pad \<or>
                   m_pack_func fpi = Some Pack_varchar_encoding \<and> \<not> mono_is_collation_supported cs
         else m_pack_func fpi = Some Pack_make_sort_key"
  shows "fits_like fpi (setup_codec v cs fpi)"
proof (cases "mono_init_collation_mapping cs")
  case None
  then show ?thesis using assms
    by (cases v) (auto simp: setup_codec_def fits_like_def skip_fits_def unpack_fits_def)
next
  case (Some codec)
  then have "mono_is_collation_supported cs" by (auto simp: mono_init_collation_mapping_def split: if_splits)
  then show ?thesis using assms Some
    by (cases v) (auto simp: setup_codec_def fits_like_def skip_fits_def unpack_fits_def)
qed

lemma setup_weighted_fits:
  assumes "setup_weighted v f len fpi = Some fpi'" "setup_start v fpi"
    and lv: "mono_is_collation_supported (field_charset f) \<Longrightarrow> cs_levels_for_order (field_charset f) = 1"
  shows "fits_like fpi fpi'"
proof -
  let ?cs = "field_charset f" and ?d = "fpi\<lparr>m_unpack_data_len := (if v then 0 else field_length f)\<rparr>"
  obtain g where g: "fpi' = setup_codec v ?cs g"
    "(if v then (if cs_levels_for_order ?cs = 1 then setup_space_pad ?cs len ?d
                 else Some (?d\<lparr>m_pack_func := Some Pack_varchar_encoding, m_skip_func := Skip_variable_length\<rparr>))
      else Some ?d) = Some g"
    using assms(1) by (auto simp: setup_weighted_def Let_def)
  have "skip_fits g \<and> \<not> m_unpack_info_stores_value g \<and> (\<forall>fo kn i l. part_of_field fo kn i l g = part_of_field fo kn i l fpi) \<and>
    (if v then m_pack_func g = Some Pack_varchar_space_pad \<or>
               m_pack_func g = Some Pack_varchar_encoding \<and> \<not> mono_is_collation_supported ?cs
     else m_pack_func g = Some Pack_make_sort_key)"
  proof (cases "v \<and> cs_levels_for_order ?cs = 1")
    case True
    then have "setup_space_pad ?cs len ?d = Some g" using g(2) by simp
    from setup_space_pad_shape [OF this] show ?thesis
      using True assms(2) by (simp add: skip_fits_def setup_start_def)
  next
    case False
    then show ?thesis using g(2) lv assms(2) by (auto simp: skip_fits_def setup_start_def split: if_splits)
  qed
  then show ?thesis using setup_codec_fits [of g v ?cs] unfolding g(1) fits_like_def by blast
qed

lemma skip_fits_unpack [simp]:
  "skip_fits (fpi\<lparr>m_unpack_func := a, m_make_unpack_info_func := b, m_unpack_info_stores_value := c\<rparr>) = skip_fits fpi"
  by (simp add: skip_fits_def split: option.split pack_func.split)

lemma fits_prefix:
  "fits_like fpi fpi' \<Longrightarrow> fits_like fpi
     (fpi'\<lparr>m_unpack_func := None, m_make_unpack_info_func := None, m_unpack_info_stores_value := True\<rparr>)"
  by (simp add: fits_like_def) (simp add: unpack_fits_def uses_unpack_info_def)

text \<open>The string part of setup: the sizes, one of three choices, the rule for prefixes.\<close>

definition string_base :: "bool \<Rightarrow> field \<Rightarrow> nat \<Rightarrow> mono_field_packing \<Rightarrow> mono_field_packing" where
  "string_base v f l fpi =
     (if v then fpi\<lparr>m_max_image_len := MONO_ENCODED_SIZE l, m_varchar_charset := Some (field_charset f),
        m_skip_func := Skip_variable_length, m_unpack_info_uses_two_bytes := (256 \<le> field_length f + 8)\<rparr>
      else fpi\<lparr>m_max_image_len := l\<rparr>)"

lemma setup_string_cases:
  assumes "setup_string v f len fpi = Some (b, fpi')"
    and "l = cs_strnxfrmlen (field_charset f) (if v then field_length f else field_pack_length f)"
  obtains g where "fpi' = g \<or>
      fpi' = g\<lparr>m_unpack_func := None, m_make_unpack_info_func := None, m_unpack_info_stores_value := True\<rparr>"
    and "g = (string_base v f l fpi)\<lparr>m_unpack_func := Some (if v then Unpack_binary_or_utf8_varchar else Unpack_binary_str)\<rparr> \<or>
      setup_bin v (field_charset f) l (string_base v f l fpi) = Some g \<or>
      setup_weighted v f l (string_base v f l fpi) = Some g"
proof -
  let ?cs = "field_charset f" and ?d = "string_base v f l fpi"
  define x where "x = (if cs_number ?cs = COLLATION_BINARY
      then Some (?d\<lparr>m_unpack_func := Some (if v then Unpack_binary_or_utf8_varchar else Unpack_binary_str)\<rparr>)
      else if cs_number ?cs = COLLATION_LATIN1_BIN \<or> cs_number ?cs = COLLATION_UTF8_BIN \<or> cs_number ?cs = COLLATION_UTF8MB4_BIN
      then setup_bin v ?cs l ?d else setup_weighted v f l ?d)"
  let ?cut = "\<lambda>g. g\<lparr>m_unpack_func := None, m_make_unpack_info_func := None, m_unpack_info_stores_value := True\<rparr>"
  have d: "?d = (if v then fpi\<lparr>m_max_image_len := l\<rparr>\<lparr>m_varchar_charset := Some ?cs, m_skip_func := Skip_variable_length,
      m_max_image_len := MONO_ENCODED_SIZE l, m_unpack_info_uses_two_bytes := (256 \<le> field_length f + 8)\<rparr>
    else fpi\<lparr>m_max_image_len := l\<rparr>)" by (simp add: string_base_def)
  have "setup_string v f len fpi = map_option (\<lambda>g. if field_length f \<noteq> len then (False, ?cut g) else (True, g)) x"
    unfolding x_def d unfolding setup_string_def Let_def assms(2) by (rule refl)
  then obtain g where g: "x = Some g" "fpi' = (if field_length f \<noteq> len then ?cut g else g)"
    using assms(1) by (cases x) (auto split: if_splits)
  show ?thesis by (rule that [of g]) (use g in \<open>auto simp: x_def split: if_splits\<close>)
qed

lemma setup_string_fits:
  assumes "setup_string v f len fpi = Some (b, fpi')"
    and "setup_start v (if v then fpi\<lparr>m_skip_func := Skip_variable_length\<rparr> else fpi)"
    and "mono_is_collation_supported (field_charset f) \<Longrightarrow> cs_levels_for_order (field_charset f) = 1"
  shows "fits_like fpi fpi'"
proof (rule setup_string_cases [OF assms(1) refl])
  fix g
  let ?l = "cs_strnxfrmlen (field_charset f) (if v then field_length f else field_pack_length f)"
  let ?d = "string_base v f ?l fpi"
  assume fpi': "fpi' = g \<or>
      fpi' = g\<lparr>m_unpack_func := None, m_make_unpack_info_func := None, m_unpack_info_stores_value := True\<rparr>"
    and g: "g = ?d\<lparr>m_unpack_func := Some (if v then Unpack_binary_or_utf8_varchar else Unpack_binary_str)\<rparr> \<or>
      setup_bin v (field_charset f) ?l ?d = Some g \<or> setup_weighted v f ?l ?d = Some g"
  have d: "setup_start v ?d" "part_of_field fo kn i k ?d = part_of_field fo kn i k fpi" for fo kn i k
    using assms(2) by (auto simp: string_base_def setup_start_def)
  have "fits_like ?d (?d\<lparr>m_unpack_func := Some (if v then Unpack_binary_or_utf8_varchar else Unpack_binary_str)\<rparr>)"
    using d(1) by (cases v) (auto simp: fits_like_def skip_fits_def unpack_fits_def setup_start_def uses_unpack_info_def)
  then have "fits_like ?d g" using g setup_bin_fits [OF _ d(1)] setup_weighted_fits [OF _ d(1) assms(3)] by blast
  then have "fits_like fpi g" using d(2) by (simp add: fits_like_def)
  then show ?thesis using fits_prefix fpi' by blast
qed

text \<open>
  C13. Setting up a key part gives a consistent descriptor: whatever the column and
  whatever memory the descriptor is built in, the skip, unpack and unpack
  information functions fit the pack function, what they read is there, and the
  part's position, length and NULL flag are those of the column. Collations with
  weight tables have one level, as in the server.
\<close>

theorem setup_consistent:
  assumes "packing_setup True fo keynr part len raw = Some (index_only, fpi)"
    and "\<forall>f. fo = Some f \<longrightarrow> mono_is_collation_supported (field_charset f) \<longrightarrow> cs_levels_for_order (field_charset f) = 1"
  shows "skip_fits fpi \<and> unpack_fits fpi \<and> part_of_field fo keynr part len fpi"
proof (cases fo)
  case None
  then show ?thesis
    using assms(1) setup_defaults_part [of fo keynr part len raw]
    by (auto simp: packing_setup_def Let_def skip_fits_def unpack_fits_def uses_unpack_info_def setup_defaults_funcs)
next
  case (Some f)
  let ?d = "setup_defaults fo keynr part len raw"
  consider "real_type f = MYSQL_TYPE_VARCHAR" | "real_type f = MYSQL_TYPE_STRING"
    | "real_type f \<noteq> MYSQL_TYPE_VARCHAR" "real_type f \<noteq> MYSQL_TYPE_STRING" by blast
  then show ?thesis
  proof cases
    case 1
    then have "setup_string True f len (?d\<lparr>m_pack_func := Some Pack_varchar_encoding, m_unpack_info_stores_value := False\<rparr>) =
      Some (index_only, fpi)"
      using assms(1) Some by (simp add: packing_setup_def)
    from setup_string_fits [OF this] show ?thesis
      using assms(2) Some setup_defaults_part [of fo keynr part len raw]
      by (simp add: setup_defaults_funcs setup_start_def fits_like_def)
  next
    case 2
    then have "setup_string False f len (?d\<lparr>m_unpack_info_stores_value := False\<rparr>) = Some (index_only, fpi)"
      using assms(1) Some by (simp add: packing_setup_def)
    from setup_string_fits [OF this] show ?thesis
      using assms(2) Some setup_defaults_part [of fo keynr part len raw]
      by (simp add: setup_defaults_funcs setup_start_def fits_like_def)
  next
    case 3
    then show ?thesis
      using assms(1) Some setup_defaults_part [of fo keynr part len raw]
      by (auto simp: packing_setup_def Let_def skip_fits_def unpack_fits_def uses_unpack_info_def setup_defaults_funcs
          split: if_splits)
  qed
qed

theorem setup_consistent_witness:
  "\<exists>index_only fpi. packing_setup True (Some ((weighted_varchar fold_case)\<lparr>real_type := MYSQL_TYPE_STRING\<rparr>)) 1 0 12
       (example_packing 0 Unpack_integer) = Some (index_only, fpi) \<and>
     m_unpack_func fpi = Some Unpack_simple \<and> m_charset_codec fpi \<noteq> None \<and> m_Key_part_length fpi = 12"
proof -
  let ?f = "(weighted_varchar fold_case)\<lparr>real_type := MYSQL_TYPE_STRING\<rparr>"
  obtain codec where codec: "mono_init_collation_mapping (weighted_cs fold_case) = Some codec"
    using collation_tables_exist by blast
  obtain b fpi where ok: "packing_setup True (Some ?f) 1 0 12 (example_packing 0 Unpack_integer) = Some (b, fpi)"
    and u: "m_unpack_func fpi = Some Unpack_simple"
    using codec by (simp add: packing_setup_def setup_string_def setup_weighted_def setup_codec_def Let_def weighted_defs
        COLLATION_BINARY_def COLLATION_LATIN1_BIN_def COLLATION_UTF8_BIN_def COLLATION_UTF8MB4_BIN_def)
  have "cs_levels_for_order (field_charset ?f) = 1" by (simp add: weighted_defs)
  then have "unpack_fits fpi \<and> part_of_field (Some ?f) 1 0 12 fpi" using setup_consistent [OF ok] by simp
  with ok u show ?thesis by (auto simp: unpack_fits_def part_of_field_def)
qed

end
