(* ===== verification/Key_Parts.thy ===== *)
theory Key_Parts
  imports Part_Setup
begin

text \<open>
  One contract for all key parts: the codecs of the column families, selected by
  the function pointers of the part's descriptor and wrapped with the NULL byte
  that a nullable column puts in front, form a family of codecs
  (\<open>part_codec\<close>). Rows of parts then compare, skip and unpack by the lemmas of
  that contract.
\<close>

section \<open>Parts\<close>

text \<open>
  A part is its descriptor, the column that packing reads (with the length of
  the key part as its field length) and the column of the key part itself, which
  skipping and unpacking use.
\<close>

type_synonym part = "mono_field_packing \<times> field \<times> field"

definition part_image :: "part \<Rightarrow> cell \<Rightarrow> bytes" where
  "part_image p c = (case p of (fpi, pf, sf) \<Rightarrow>
     (case pack_part fpi pf c None of None \<Rightarrow> [] | Some (e, _) \<Rightarrow> e))"

definition wf_sort_key :: "mono_field_packing \<Rightarrow> field \<Rightarrow> cell \<Rightarrow> bool" where
  "wf_sort_key fpi f c \<longleftrightarrow>
     (if 0 < int_width (real_type f) then wf_integer fpi f c
      else if 0 < float_width (real_type f) then wf_float fpi f c
      else if real_type f = MYSQL_TYPE_BIT then wf_bit fpi f c
      else if real_type f \<in> {MYSQL_TYPE_NEWDATE, MYSQL_TYPE_ENUM, MYSQL_TYPE_SET} then wf_unsigned fpi f c
      else if real_type f = MYSQL_TYPE_STRING then wf_fixed_image fpi f c
      else wf_memcpy fpi f c)"

definition lt_sort_key :: "mono_field_packing \<Rightarrow> field \<Rightarrow> cell \<Rightarrow> cell \<Rightarrow> bool" where
  "lt_sort_key fpi f a b \<longleftrightarrow>
     (if 0 < int_width (real_type f) then lt_integer f a b
      else if 0 < float_width (real_type f) then lt_float f a b
      else if real_type f = MYSQL_TYPE_BIT then lt_bit f a b
      else if real_type f \<in> {MYSQL_TYPE_NEWDATE, MYSQL_TYPE_ENUM, MYSQL_TYPE_SET} then lt_unsigned a b
      else if real_type f = MYSQL_TYPE_STRING then lt_fixed_image fpi f a b
      else lt_image a b)"

text \<open>Values a part can hold, and their order in SQL.\<close>

definition wf_value :: "part \<Rightarrow> cell \<Rightarrow> bool" where
  "wf_value p c = (case p of (fpi, pf, sf) \<Rightarrow>
     (case m_pack_func fpi of
        None \<Rightarrow> False
      | Some Pack_make_sort_key \<Rightarrow> m_skip_func fpi = Skip_max_length \<and> wf_sort_key fpi pf c
      | Some Pack_blob \<Rightarrow> m_skip_func fpi = Skip_max_length \<and> wf_fixed_image fpi pf c
      | Some Pack_varchar_encoding \<Rightarrow>
          m_skip_func fpi = Skip_variable_length \<and> wf_varchar fpi pf c \<and>
          length (varchar_xfrm fpi pf c) \<le> varchar_cap sf
      | Some Pack_varchar_space_pad \<Rightarrow>
          m_skip_func fpi = Skip_variable_space_pad \<and> wf_space_pad fpi pf c \<and>
          length (space_pad_xfrm fpi pf c) \<le> varchar_cap sf))"

definition lt_value :: "part \<Rightarrow> cell \<Rightarrow> cell \<Rightarrow> bool" where
  "lt_value p a b = (case p of (fpi, pf, sf) \<Rightarrow>
     (case m_pack_func fpi of
        None \<Rightarrow> False
      | Some Pack_make_sort_key \<Rightarrow> lt_sort_key fpi pf a b
      | Some Pack_blob \<Rightarrow> lt_fixed_image fpi pf a b
      | Some Pack_varchar_encoding \<Rightarrow> lt_varchar fpi pf a b
      | Some Pack_varchar_space_pad \<Rightarrow> lt_space_pad fpi pf a b))"

text \<open>The same with NULL, which sorts first.\<close>

definition wf_part :: "part \<Rightarrow> cell \<Rightarrow> bool" where
  "wf_part p c = (case p of (fpi, pf, sf) \<Rightarrow>
     m_maybe_null fpi = real_maybe_null pf \<and> (real_maybe_null pf \<and> c_null c \<or> wf_value p c))"

definition enc_part :: "part \<Rightarrow> cell \<Rightarrow> bytes" where
  "enc_part p c = (case p of (fpi, pf, sf) \<Rightarrow>
     if real_maybe_null pf then (if c_null c then [0] else 1 # part_image p c) else part_image p c)"

definition lt_part :: "part \<Rightarrow> cell \<Rightarrow> cell \<Rightarrow> bool" where
  "lt_part p a b = (case p of (fpi, pf, sf) \<Rightarrow>
     if real_maybe_null pf
     then c_null a \<and> \<not> c_null b \<or> \<not> c_null a \<and> \<not> c_null b \<and> lt_value p a b
     else lt_value p a b)"

section \<open>Reading one part of a key\<close>

text \<open>
  \<open>read_memcmp_key_part\<close> with the column that is passed to the skip function:
  \<open>Inl ()\<close> for a format error (1), \<open>Inr True\<close> for NULL (-1), \<open>Inr False\<close> otherwise (0).
\<close>

definition read_memcmp_part ::
  "mono_field_packing \<Rightarrow> field option \<Rightarrow> mono_string_reader \<Rightarrow> (bool \<times> mono_string_reader) option" where
  "read_memcmp_part fpi fo r =
     (if m_maybe_null fpi
      then (case read_bytes 1 r of
              (None, _) \<Rightarrow> None
            | (Some nullp, r') \<Rightarrow>
                if hd nullp = 0 then Some (True, r')
                else if hd nullp \<noteq> 1 then None
                else map_option (\<lambda>r''. (False, r'')) (skip_part fpi fo r'))
      else map_option (\<lambda>r'. (False, r')) (skip_part fpi fo r))"

definition skip_nullable :: "bool \<Rightarrow> part \<Rightarrow> mono_string_reader \<Rightarrow> mono_string_reader option" where
  "skip_nullable known p r = (case p of (fpi, pf, sf) \<Rightarrow>
     map_option snd (read_memcmp_part fpi (if known then Some sf else None) r))"

section \<open>The contract\<close>

text \<open>A codec on a smaller domain, with functions that agree there.\<close>

lemma key_codec_restrict:
  assumes "key_codec wf0 enc skip lt"
    and "\<And>c. wf' c \<Longrightarrow> wf0 c \<and> enc' c = enc c" "\<And>a b. wf' a \<Longrightarrow> wf' b \<Longrightarrow> lt' a b = lt a b"
    and "\<And>c r rest. wf' c \<Longrightarrow> rd_at r (enc c @ rest) \<Longrightarrow> skip' r = skip r"
  shows "key_codec wf' enc' skip' lt'"
proof (rule key_codec.intro)
  note c = key_codec.skip_enc [OF assms(1)] key_codec.enc_lt [OF assms(1)] key_codec.enc_eq [OF assms(1)]
  show "skip' r = Some (rd_adv (length (enc' v)) r)" if "wf' v" "rd_at r (enc' v @ rest)" for v r rest
    using c(1) [of v r rest] assms(2,4) that by simp
  show "lexlt_in (enc' a) (enc' b)" if "wf' a" "wf' b" "lt' a b" for a b
    using c(2) [of a b] assms(2,3) that by simp
  show "enc' a = enc' b" if "wf' a" "wf' b" "\<not> lt' a b" "\<not> lt' b a" for a b
    using c(3) [of a b] assms(2,3) that by simp
qed

text \<open>The sort images of all column types.\<close>

lemma sort_key_codec:
  assumes "m_pack_func fpi \<noteq> Some Pack_blob"
  shows "key_codec (wf_sort_key fpi f) (pack_with_make_sort_key fpi f) (skip_max_length fpi) (lt_sort_key fpi f)"
proof -
  have fixed: "fixed_image fpi f = pack_with_make_sort_key fpi f"
    using assms by (auto simp: fixed_image_def)
  consider "0 < int_width (real_type f)" | "\<not> 0 < int_width (real_type f)" "0 < float_width (real_type f)"
    | "\<not> 0 < int_width (real_type f)" "\<not> 0 < float_width (real_type f)" by blast
  then show ?thesis
  proof cases
    case 1
    then have "wf_sort_key fpi f = wf_integer fpi f" "lt_sort_key fpi f = lt_integer f"
      by (auto simp: wf_sort_key_def lt_sort_key_def fun_eq_iff)
    then show ?thesis using integer_codec.key_codec_axioms by simp
  next
    case 2
    then have "wf_sort_key fpi f = wf_float fpi f" "lt_sort_key fpi f = lt_float f"
      by (auto simp: wf_sort_key_def lt_sort_key_def fun_eq_iff)
    then show ?thesis using float_codec.key_codec_axioms by simp
  next
    case 3
    consider "real_type f = MYSQL_TYPE_BIT" | "real_type f \<in> {MYSQL_TYPE_NEWDATE, MYSQL_TYPE_ENUM, MYSQL_TYPE_SET}"
      | "real_type f = MYSQL_TYPE_STRING"
      | "real_type f \<notin> {MYSQL_TYPE_BIT, MYSQL_TYPE_NEWDATE, MYSQL_TYPE_ENUM, MYSQL_TYPE_SET, MYSQL_TYPE_STRING}" by auto
    then show ?thesis
    proof cases
      case 1
      with 3 have "wf_sort_key fpi f = wf_bit fpi f" "lt_sort_key fpi f = lt_bit f"
        by (auto simp: wf_sort_key_def lt_sort_key_def fun_eq_iff)
      then show ?thesis using bit_codec.key_codec_axioms by simp
    next
      case 2
      with 3 have "wf_sort_key fpi f = wf_unsigned fpi f" "lt_sort_key fpi f = lt_unsigned"
        by (auto simp: wf_sort_key_def lt_sort_key_def fun_eq_iff)
      then show ?thesis using unsigned_codec.key_codec_axioms by simp
    next
      case 3
      with \<open>\<not> 0 < int_width (real_type f)\<close> \<open>\<not> 0 < float_width (real_type f)\<close>
      have "wf_sort_key fpi f = wf_fixed_image fpi f" "lt_sort_key fpi f = lt_fixed_image fpi f"
        by (auto simp: wf_sort_key_def lt_sort_key_def fun_eq_iff)
      then show ?thesis using fixed_image_codec.key_codec_axioms [of fpi f] fixed by simp
    next
      case 4
      with 3 have "wf_sort_key fpi f = wf_memcpy fpi f" "lt_sort_key fpi f = lt_image"
        by (auto simp: wf_sort_key_def lt_sort_key_def fun_eq_iff)
      then show ?thesis using memcpy_codec.key_codec_axioms by simp
    qed
  qed
qed

text \<open>The variable-length families, skipped with the key part's column or with none.\<close>

lemma varchar_part_codec:
  "key_codec (\<lambda>c. wf_varchar fpi pf c \<and> length (varchar_xfrm fpi pf c) \<le> varchar_cap sf)
     (pack_with_varchar_encoding fpi pf) (skip_variable_length (if known then Some sf else None)) (lt_varchar fpi pf)"
proof (rule key_codec_restrict [OF varchar_codec.key_codec_axioms [of None pf fpi]])
  fix c r rest
  assume wf: "wf_varchar fpi pf c \<and> length (varchar_xfrm fpi pf c) \<le> varchar_cap sf"
    and r: "rd_at r (pack_with_varchar_encoding fpi pf c @ rest)"
  have "skip_variable_loop n r = Some (rd_adv (length (pack_variable_format (varchar_xfrm fpi pf c))) r)"
    if "length (varchar_xfrm fpi pf c) \<le> n" for n
    using skip_variable_pack [of r "varchar_xfrm fpi pf c" rest] that r by (simp add: pack_with_varchar_encoding_def)
  then show "skip_variable_length (if known then Some sf else None) r = skip_variable_length None r"
    using wf by (auto simp: skip_variable_length_def wf_varchar_def varchar_cap_def)
qed auto

lemma space_pad_part_codec:
  "key_codec (\<lambda>c. wf_space_pad fpi pf c \<and> length (space_pad_xfrm fpi pf c) \<le> varchar_cap sf)
     (space_pad_image fpi pf) (skip_variable_space_pad fpi (if known then Some sf else None)) (lt_space_pad fpi pf)"
proof (rule key_codec_restrict [OF space_pad_codec.key_codec_axioms [of None pf fpi]])
  fix c r rest
  assume wf: "wf_space_pad fpi pf c \<and> length (space_pad_xfrm fpi pf c) \<le> varchar_cap sf"
    and r: "rd_at r (space_pad_image fpi pf c @ rest)"
  obtain p sp n where p: "m_segment_size fpi = Suc p" "ok_image p (space_unit fpi) sp (space_pad_xfrm fpi pf c)"
    "space_pad_loop (Suc p) sp (space_pad_xfrm fpi pf c) = Some (space_pad_image fpi pf c, n)"
    using space_pad_image_loop wf by metis
  have "length (space_pad_xfrm fpi pf c) \<le> UINT_MAX" using wf by (simp add: wf_space_pad_def)
  then show "skip_variable_space_pad fpi (if known then Some sf else None) r = skip_variable_space_pad fpi None r"
    using wf skip_space_pad_pack [OF p(2,3) r] p(1)
    by (simp add: skip_variable_space_pad_def varchar_cap_def)
qed auto

lemma value_codec:
  "key_codec (wf_value (fpi, pf, sf)) (part_image (fpi, pf, sf))
     (skip_part fpi (if known then Some sf else None)) (lt_value (fpi, pf, sf))"
proof (cases "m_pack_func fpi")
  case None
  then show ?thesis by (intro key_codec.intro) (simp_all add: wf_value_def)
next
  case (Some pk)
  have img: "part_image (fpi, pf, sf) = space_pad_image fpi pf" if "pk = Pack_varchar_space_pad"
    using Some that by (simp add: part_image_def space_pad_image_def pack_part_def fun_eq_iff)
  show ?thesis
  proof (cases pk)
    case Pack_make_sort_key
    then have "m_pack_func fpi \<noteq> Some Pack_blob" using Some by simp
    from sort_key_codec [OF this] show ?thesis
      by (rule key_codec_restrict) (use Some Pack_make_sort_key in
        \<open>auto simp: wf_value_def lt_value_def part_image_def pack_part_def skip_part_def\<close>)
  next
    case Pack_blob
    show ?thesis
      by (rule key_codec_restrict [OF fixed_image_codec.key_codec_axioms]) (use Some Pack_blob in
        \<open>auto simp: wf_value_def lt_value_def part_image_def pack_part_def skip_part_def fixed_image_def\<close>)
  next
    case Pack_varchar_encoding
    show ?thesis
      by (rule key_codec_restrict [OF varchar_part_codec [of fpi pf sf known]]) (use Some Pack_varchar_encoding in
        \<open>auto simp: wf_value_def lt_value_def part_image_def pack_part_def skip_part_def\<close>)
  next
    case Pack_varchar_space_pad
    show ?thesis
      by (rule key_codec_restrict [OF space_pad_part_codec [of fpi pf sf known]]) (use Some Pack_varchar_space_pad img in
        \<open>auto simp: wf_value_def lt_value_def skip_part_def\<close>)
  qed
qed

text \<open>The NULL byte in front.\<close>

lemma part_key_codec: "key_codec (wf_part p) (enc_part p) (skip_nullable known p) (lt_part p)"
proof -
  obtain fpi pf sf where p: "p = (fpi, pf, sf)" by (cases p) auto
  let ?fo = "if known then Some sf else None"
  note c = key_codec.skip_enc [OF value_codec [of fpi pf sf known]] key_codec.enc_lt [OF value_codec [of fpi pf sf known]]
    key_codec.enc_eq [OF value_codec [of fpi pf sf known]]
  show ?thesis
  proof (rule key_codec.intro)
    fix v r rest assume wf: "wf_part p v" and r: "rd_at r (enc_part p v @ rest)"
    have mn: "m_maybe_null fpi = real_maybe_null pf" using wf by (simp add: wf_part_def p)
    show "skip_nullable known p r = Some (rd_adv (length (enc_part p v)) r)"
    proof (cases "real_maybe_null pf")
      case False
      then show ?thesis using wf r mn c(1) [of v r rest]
        by (auto simp: wf_part_def enc_part_def skip_nullable_def read_memcmp_part_def p)
    next
      case True
      let ?b = "if c_null v then 0 else 1 :: byte" and ?xs = "if c_null v then [] else part_image p v"
      have e: "enc_part p v = ?b # ?xs" using True by (simp add: enc_part_def p)
      have r1: "rd_at r ([?b] @ ?xs @ rest)" using r unfolding e by simp
      have rd: "read_bytes 1 r = (Some [?b], rd_adv 1 r)" by (rule read_bytes_append [OF r1]) simp_all
      have at: "rd_at (rd_adv 1 r) (?xs @ rest)" by (rule rd_at_adv_append [OF r1]) simp
      show ?thesis using rd at True mn wf c(1) [of v "rd_adv 1 r" rest] unfolding e
        by (auto simp: skip_nullable_def read_memcmp_part_def p wf_part_def)
    qed
  next
    fix a b assume "wf_part p a" "wf_part p b" "lt_part p a b"
    then show "lexlt_in (enc_part p a) (enc_part p b)"
      using c(2) [of a b] by (auto simp: p wf_part_def lt_part_def enc_part_def split: if_splits)
  next
    fix a b assume "wf_part p a" "wf_part p b" "\<not> lt_part p a b" "\<not> lt_part p b a"
    then show "enc_part p a = enc_part p b"
      using c(3) [of a b] by (auto simp: p wf_part_def lt_part_def enc_part_def split: if_splits)
  qed
qed

interpretation key_parts: part_codec wf_part enc_part "skip_nullable known" lt_part for known
  by (rule part_codec.intro) (rule part_key_codec)

section \<open>Image lengths\<close>

text \<open>The bytes a part takes at most.\<close>

definition part_max_len :: "mono_field_packing \<Rightarrow> nat" where
  "part_max_len fpi = (if m_maybe_null fpi then 1 else 0) + m_max_image_len fpi"

lemma length_space_pad_loop:
  "ok_image p u sp x \<Longrightarrow> space_pad_loop (Suc p) sp x = Some (e, n) \<Longrightarrow> length e \<le> (length x div p + 1) * Suc p"
proof (induction x arbitrary: e rule: length_induct)
  case (1 x)
  have p: "0 < p" using 1(2) by (simp add: ok_image_def ok_spaces_def)
  show ?case
  proof (rule space_pad_cases [OF 1(2,3)])
    fix e'
    assume x: "p < length x" and e': "space_pad_loop (Suc p) sp (drop p x) = Some (e', n)"
      and e: "e = map (pads u x) [0..<p] @ [space_flag u (drop p x)] @ e'"
    have "length (drop p x) < length x" using x p by simp
    then have "length e' \<le> (length (drop p x) div p + 1) * Suc p" using 1(1) ok_image_drop [OF 1(2)] e' by blast
    moreover have "length x div p = length (drop p x) div p + 1" using x p by (simp add: le_div_geq)
    ultimately show ?thesis by (simp add: e)
  qed simp
qed

lemma skip_max_length_exact: "skip_max_length fpi r = Some (rd_adv (m_len r) r) \<Longrightarrow> m_max_image_len fpi = m_len r"
  by (auto simp: skip_max_length_def rd_read_def rd_adv_def dest: arg_cong [of _ _ m_len] split: if_splits option.splits)

text \<open>Images under \<open>skip_max_length\<close> have the maximal length.\<close>

lemma fixed_part_length:
  assumes "wf_value (fpi, pf, sf) c" "m_skip_func fpi = Skip_max_length"
  shows "length (part_image (fpi, pf, sf) c) = m_max_image_len fpi"
proof -
  let ?e = "part_image (fpi, pf, sf) c"
  have "skip_part fpi (Some sf) (list_reader ?e) = Some (rd_adv (length ?e) (list_reader ?e))"
    using key_codec.skip_enc [OF value_codec [of fpi pf sf True] assms(1), of "list_reader ?e" "[]"]
    by (simp add: rd_at_list_reader)
  then show ?thesis
    using skip_max_length_exact [of fpi "list_reader ?e"] assms(2) by (simp add: skip_part_def list_reader_def)
qed

text \<open>The sizes that setup gives the variable-length parts.\<close>

definition varchar_size :: "field \<Rightarrow> mono_field_packing \<Rightarrow> bool" where
  "varchar_size f fpi \<longleftrightarrow>
     (m_pack_func fpi = Some Pack_varchar_encoding \<longrightarrow>
        m_max_image_len fpi = MONO_ENCODED_SIZE (cs_strnxfrmlen (field_charset f) (field_length f))) \<and>
     (m_pack_func fpi = Some Pack_varchar_space_pad \<longrightarrow>
        m_max_image_len fpi =
          (cs_strnxfrmlen (field_charset f) (field_length f) div (m_segment_size fpi - 1) + 1) * m_segment_size fpi)"

lemma setup_codec_size [simp]: "varchar_size f (setup_codec v cs fpi) = varchar_size f fpi"
  by (auto simp: setup_codec_def varchar_size_def split: option.split)

lemma setup_space_pad_size:
  "setup_space_pad cs (cs_strnxfrmlen (field_charset f) (field_length f)) fpi = Some fpi' \<Longrightarrow> varchar_size f fpi'"
  by (auto simp: setup_space_pad_def Let_def varchar_size_def)

lemma setup_bin_size:
  "setup_bin v cs (cs_strnxfrmlen (field_charset f) (field_length f)) fpi = Some fpi' \<Longrightarrow>
   (\<not> v \<longrightarrow> m_pack_func fpi = Some Pack_make_sort_key) \<Longrightarrow> varchar_size f fpi'"
  by (auto simp: setup_bin_def varchar_size_def dest!: setup_space_pad_size split: if_splits)

lemma setup_weighted_size:
  "setup_weighted v f (cs_strnxfrmlen (field_charset f) (field_length f)) fpi = Some fpi' \<Longrightarrow>
   varchar_size f fpi \<Longrightarrow> m_pack_func fpi = Some (if v then Pack_varchar_encoding else Pack_make_sort_key) \<Longrightarrow>
   varchar_size f fpi'"
  by (auto simp: setup_weighted_def Let_def dest!: setup_space_pad_size split: if_splits) (simp add: varchar_size_def)+

lemma setup_string_size:
  assumes "setup_string True f len fpi = Some (b, fpi')" "m_pack_func fpi = Some Pack_varchar_encoding"
  shows "varchar_size f fpi'"
proof (rule setup_string_cases [OF assms(1) refl], unfold if_True)
  fix g
  let ?l = "cs_strnxfrmlen (field_charset f) (field_length f)"
  let ?d = "string_base True f ?l fpi"
  assume fpi': "fpi' = g \<or>
      fpi' = g\<lparr>m_unpack_func := None, m_make_unpack_info_func := None, m_unpack_info_stores_value := True\<rparr>"
    and g: "g = ?d\<lparr>m_unpack_func := Some Unpack_binary_or_utf8_varchar\<rparr> \<or>
      setup_bin True (field_charset f) ?l ?d = Some g \<or> setup_weighted True f ?l ?d = Some g"
  have d: "varchar_size f ?d" "m_pack_func ?d = Some Pack_varchar_encoding"
    using assms(2) by (simp_all add: string_base_def varchar_size_def)
  have "varchar_size f g"
    using g d setup_bin_size [of True "field_charset f" f ?d g] setup_weighted_size [of True f ?d g]
    by (auto simp: varchar_size_def)
  then show ?thesis using fpi' by (auto simp: varchar_size_def)
qed

lemma setup_char_pack:
  assumes "setup_string False f len fpi = Some (b, fpi')"
  shows "m_pack_func fpi' = m_pack_func fpi"
  by (rule setup_string_cases [OF assms refl])
    (auto simp: setup_bin_def setup_weighted_def setup_codec_def string_base_def Let_def split: option.splits)

lemma packing_setup_size:
  assumes "packing_setup True (Some f) keynr part len raw = Some (b, fpi)"
  shows "varchar_size f fpi"
proof -
  consider "real_type f = MYSQL_TYPE_VARCHAR" | "m_pack_func fpi = Some Pack_make_sort_key \<or> m_pack_func fpi = Some Pack_blob"
    using assms by (auto simp: packing_setup_def Let_def setup_defaults_funcs dest!: setup_char_pack split: if_splits)
  then show ?thesis
  proof cases
    case 1
    then show ?thesis using assms by (auto simp: packing_setup_def Let_def intro: setup_string_size)
  qed (auto simp: varchar_size_def)
qed

lemma encoded_size_mono: "m \<le> n \<Longrightarrow> MONO_ENCODED_SIZE m \<le> MONO_ENCODED_SIZE n"
  by (simp add: MONO_ENCODED_SIZE_def div_le_mono)

text \<open>A \<open>VARBINARY(12)\<close> column.\<close>

definition varbinary_column :: field where
  "varbinary_column = latin1_varchar\<lparr>field_charset := my_charset_bin\<rparr>"

lemma part_image_le:
  assumes "packing_setup True (Some f) keynr part len raw = Some (index_only, fpi)"
    and "wf_part (fpi, pf, sf) c" "real_maybe_null pf = real_maybe_null f"
    and "length (varchar_xfrm fpi pf c) \<le> cs_strnxfrmlen (field_charset f) (field_length f)"
    and "length (space_pad_xfrm fpi pf c) \<le> cs_strnxfrmlen (field_charset f) (field_length f)"
    and "0 < cs_strnxfrmlen (field_charset f) (field_length f)"
  shows "length (enc_part (fpi, pf, sf) c) \<le> part_max_len fpi"
proof (cases "real_maybe_null pf \<and> c_null c")
  case True
  then show ?thesis using assms(2) by (simp add: enc_part_def part_max_len_def wf_part_def)
next
  case False
  then have wf: "wf_value (fpi, pf, sf) c" and mn: "m_maybe_null fpi = real_maybe_null pf"
    using assms(2) by (auto simp: wf_part_def)
  let ?n = "cs_strnxfrmlen (field_charset f) (field_length f)"
  consider "m_skip_func fpi = Skip_max_length" | "m_pack_func fpi = Some Pack_varchar_encoding"
    | "m_pack_func fpi = Some Pack_varchar_space_pad"
    using wf by (auto simp: wf_value_def split: option.splits pack_func.splits)
  then have "length (part_image (fpi, pf, sf) c) \<le> m_max_image_len fpi"
  proof cases
    case 1
    then show ?thesis using fixed_part_length [OF wf] by simp
  next
    case 2
    then have "length (part_image (fpi, pf, sf) c) \<le> MONO_ENCODED_SIZE (max 1 (length (varchar_xfrm fpi pf c)))"
      by (cases "varchar_xfrm fpi pf c") (simp_all add: part_image_def pack_part_def pack_with_varchar_encoding_def
          length_pack_variable MONO_ENCODED_SIZE_def MONO_ESCAPE_LENGTH_def)
    also have "\<dots> \<le> MONO_ENCODED_SIZE ?n" using assms(4,6) by (intro encoded_size_mono) simp
    finally show ?thesis using packing_setup_size [OF assms(1)] 2 by (simp add: varchar_size_def)
  next
    case 3
    then have "wf_space_pad fpi pf c" using wf by (simp add: wf_value_def)
    then obtain p sp m where p: "m_segment_size fpi = Suc p" "ok_image p (space_unit fpi) sp (space_pad_xfrm fpi pf c)"
      "space_pad_loop (Suc p) sp (space_pad_xfrm fpi pf c) = Some (space_pad_image fpi pf c, m)"
      by (rule space_pad_image_loop)
    have "part_image (fpi, pf, sf) c = space_pad_image fpi pf c"
      using 3 by (simp add: part_image_def pack_part_def space_pad_image_def)
    then have "length (part_image (fpi, pf, sf) c) \<le> (length (space_pad_xfrm fpi pf c) div p + 1) * Suc p"
      using length_space_pad_loop [OF p(2,3)] by simp
    also have "\<dots> \<le> (?n div p + 1) * Suc p" by (intro mult_le_mono add_le_mono div_le_mono assms(5) order_refl)
    finally have "length (part_image (fpi, pf, sf) c) \<le> (?n div p + 1) * Suc p" .
    then show ?thesis using packing_setup_size [OF assms(1)] 3 p(1) by (simp add: varchar_size_def)
  qed
  then show ?thesis using mn by (simp add: enc_part_def part_max_len_def)
qed

text \<open>
  C33. No image exceeds its slot: for a column value, the NULL byte and the image
  that packing appends are never longer than the length setup reserves for the
  part, for every column type, if the collation's images are within the bound its
  \<open>strnxfrmlen\<close> announces for the column.
\<close>

theorem part_image_bound:
  assumes "packing_setup True (Some f) keynr part len raw = Some (index_only, fpi)"
    and "wf_part (fpi, pf, sf) c" "real_maybe_null pf = real_maybe_null f"
    and "length (varchar_xfrm fpi pf c) \<le> cs_strnxfrmlen (field_charset f) (field_length f)"
    and "length (space_pad_xfrm fpi pf c) \<le> cs_strnxfrmlen (field_charset f) (field_length f)"
    and "0 < cs_strnxfrmlen (field_charset f) (field_length f)"
  shows "length (enc_part (fpi, pf, sf) c) \<le> part_max_len fpi"
  using assms by (rule part_image_le)

theorem part_image_bound_witness:
  "\<exists>index_only fpi. packing_setup True (Some varbinary_column) 1 0 12 (example_packing 0 Unpack_integer) = Some (index_only, fpi) \<and>
     length (enc_part (fpi, varbinary_column, varbinary_column) (latin1_cell (replicate 12 97))) \<le> part_max_len fpi \<and>
     part_max_len fpi = 18"
proof -
  let ?f = varbinary_column and ?c = "latin1_cell (replicate 12 97)"
  define fpi where "fpi = snd (the (packing_setup True (Some ?f) 1 0 12 (example_packing 0 Unpack_integer)))"
  have fpi: "packing_setup True (Some ?f) 1 0 12 (example_packing 0 Unpack_integer) = Some (True, fpi)"
    "m_pack_func fpi = Some Pack_varchar_encoding" "m_skip_func fpi = Skip_variable_length" "m_max_image_len fpi = 18"
    "m_maybe_null fpi = False"
    by (simp_all add: fpi_def packing_setup_def setup_string_def setup_defaults_def Let_def varbinary_column_def latin1_defs
        my_charset_bin_def my_strnxfrmlen_simple_def COLLATION_BINARY_def MONO_ENCODED_SIZE_def MONO_ESCAPE_LENGTH_def)
  have x: "length (varchar_xfrm fpi ?f ?c) = 12" "length (space_pad_xfrm fpi ?f ?c) = 12" "varchar_len ?f ?c = 12"
    using fpi(4) by (simp_all add: varchar_xfrm_def varchar_value_defs char_length_def varbinary_column_def latin1_defs my_charset_bin_def
        my_strnxfrm_8bit_bin_def my_lengthsp_binary_def)
  have wf: "wf_part (fpi, ?f, ?f) ?c"
    using fpi x by (simp add: wf_part_def wf_value_def wf_varchar_def wf_varchar_cell_def varchar_cap_def varbinary_column_def
        latin1_defs UINT_MAX_def)
  have "cs_strnxfrmlen (field_charset ?f) (field_length ?f) = 12"
    by (simp add: varbinary_column_def latin1_defs my_charset_bin_def my_strnxfrmlen_simple_def)
  then have "length (enc_part (fpi, ?f, ?f) ?c) \<le> part_max_len fpi" "part_max_len fpi = 18"
    using part_image_bound [OF fpi(1) wf refl] fpi x by (simp_all add: part_max_len_def)
  with fpi(1) show ?thesis by blast
qed

end
