(* ===== verification/Key_Def.thy ===== *)
theory Key_Def
  imports Key_Parts
begin

text \<open>
  \<open>mono_key_def\<close>: the descriptor of an index, and how it is set up from the table
  share. A secondary key is extended with the columns of the primary key that it
  does not have yet.
\<close>

section \<open>Tables and indexes\<close>

definition MAX_INDEXES :: nat where "MAX_INDEXES = 64"

definition MAX_REF_PARTS :: nat where "MAX_REF_PARTS = 32"

definition MONO_UNPACK_DATA_LEN_SIZE :: nat where "MONO_UNPACK_DATA_LEN_SIZE = 2"

record key_part_info =
  kp_field :: field
  kp_length :: nat

record key_info =
  key_part :: "key_part_info list"
  ext_key_parts :: nat
  user_defined_key_parts :: nat
  ha_nosame :: bool

record table_share =
  ts_key_info :: "key_info list"
  ts_primary_key :: nat
  ts_keys :: nat
  ts_default_values :: rec_buf

text \<open>
  An open table has columns and key parts of its own; a key part on a prefix of
  a column has its own field object with the shorter length.
\<close>

record table =
  tbl_s :: table_share
  tbl_key_info :: "key_info list"
  tbl_field :: "field list"

datatype index_type = INDEX_TYPE_PRIMARY | INDEX_TYPE_SECONDARY | INDEX_TYPE_HIDDEN_PRIMARY

record mono_key_def =
  m_index_type :: index_type
  m_unique_sk_only_key_parts :: nat
  m_pk_key_parts :: nat
  m_pk_part_no :: "nat option list"
  m_pack_info :: "mono_field_packing list"
  m_keyno :: nat
  m_key_parts :: nat
  m_maxlength :: nat

definition table_has_hidden_pk :: "table_share \<Rightarrow> bool" where
  "table_has_hidden_pk s \<longleftrightarrow> ts_primary_key s = MAX_INDEXES"

text \<open>An element of an array; outside its bounds the access is undefined.\<close>

definition nth_opt :: "'a list \<Rightarrow> nat \<Rightarrow> 'a option" where
  "nth_opt xs i = (if i < length xs then Some (xs ! i) else None)"

definition get_field_in_table :: "table \<Rightarrow> mono_field_packing \<Rightarrow> field option" where
  "get_field_in_table tbl fpi =
     Option.bind (nth_opt (tbl_key_info tbl) (m_keynr fpi))
       (\<lambda>k. map_option kp_field (nth_opt (key_part k) (m_key_part fpi)))"

definition get_original_field_in_table :: "table \<Rightarrow> mono_field_packing \<Rightarrow> field option" where
  "get_original_field_in_table tbl fpi =
     (if m_field_idx fpi = 0 then None else nth_opt (tbl_field tbl) (m_field_idx fpi - 1))"

section \<open>Setting up an index\<close>

text \<open>
  The constructor. The members it leaves uninitialised are copied from \<open>raw\<close>.
\<close>

definition new_key_def :: "mono_key_def \<Rightarrow> nat \<Rightarrow> index_type \<Rightarrow> mono_key_def" where
  "new_key_def raw keyno_arg index_type_arg = raw
     \<lparr>m_index_type := index_type_arg, m_pk_part_no := [], m_pack_info := [], m_keyno := keyno_arg,
      m_key_parts := 0, m_maxlength := 0\<rparr>"

text \<open>Whether a column of the primary key is in the secondary key already.\<close>

definition found_in_key :: "key_info \<Rightarrow> key_part_info \<Rightarrow> bool" where
  "found_in_key k p \<longleftrightarrow>
     (\<exists>q \<in> set (take (ext_key_parts k) (key_part k)).
        field_index (kp_field p) = field_index (kp_field q) \<and> kp_length p = kp_length q)"

text \<open>The loop over the parts of the primary key that gives \<open>m_pk_part_no\<close>.\<close>

fun pk_part_no_of :: "nat \<Rightarrow> field \<Rightarrow> key_part_info list \<Rightarrow> nat option" where
  "pk_part_no_of j f [] = None"
| "pk_part_no_of j f (q # qs) =
     (if field_index f = field_index (kp_field q) then Some j else pk_part_no_of (j + 1) f qs)"

text \<open>
  What the loop over the key parts changes. \<open>sl_key_part\<close> is the pointer
  \<open>key_part\<close>: the parts from it on, or \<open>None\<close> for the null pointer.
\<close>

record setup_state =
  sl_key_part :: "key_part_info list option"
  sl_simulating_extkey :: bool
  sl_keyno_to_set :: nat
  sl_keypart_to_set :: nat
  sl_pack_info :: "mono_field_packing list"
  sl_pk_part_no :: "nat option list"
  sl_max_len :: nat

text \<open>
  The constants of the loop: the share, the key, the primary key (\<open>pk_info\<close>,
  null for a primary key and for a table without one), whether the key is a
  secondary one, whether the primary key is hidden.
\<close>

record setup_ctx =
  sc_share :: table_share
  sc_key_info :: key_info
  sc_pk_info :: "key_info option"
  sc_secondary :: bool
  sc_hidden :: bool
  sc_pk_key_parts :: nat
  sc_raw :: mono_field_packing

text \<open>One part that is set up; the descriptor is written to uninitialised memory \<open>raw\<close>.\<close>

definition setup_one :: "setup_ctx \<Rightarrow> nat \<Rightarrow> field option \<Rightarrow> nat \<Rightarrow> setup_state \<Rightarrow> setup_state option" where
  "setup_one cx src_i fo len st =
     (case packing_setup True fo (sl_keyno_to_set st) (sl_keypart_to_set st) len (sc_raw cx) of
        None \<Rightarrow> None
      | Some (_, fpi) \<Rightarrow>
          let fpi = fpi\<lparr>m_unpack_data_offset := 0\<rparr>;
              null_len = (case fo of None \<Rightarrow> 0 | Some f \<Rightarrow> if real_maybe_null f then 1 else 0);
              pk_no = (case sc_pk_info cx of
                         Some pk \<Rightarrow>
                           [case fo of None \<Rightarrow> None
                            | Some f \<Rightarrow> pk_part_no_of 0 f (take (sc_pk_key_parts cx) (key_part pk))]
                       | None \<Rightarrow>
                           if sc_secondary cx \<and> sc_hidden cx
                           then [if sl_simulating_extkey st then Some 0 else None] else []);
              st = st\<lparr>sl_pack_info := sl_pack_info st @ [fpi], sl_pk_part_no := sl_pk_part_no st @ pk_no,
                      sl_max_len := sl_max_len st + null_len + m_max_image_len fpi,
                      sl_key_part := map_option tl (sl_key_part st)\<rparr>
          in Some (if sc_secondary cx \<and> src_i + 1 = ext_key_parts (sc_key_info cx)
                   then (if sc_hidden cx
                         then st\<lparr>sl_simulating_extkey := True, sl_keyno_to_set := ts_keys (sc_share cx),
                                 sl_key_part := None, sl_keypart_to_set := 0\<rparr>
                         else st\<lparr>sl_simulating_extkey := True, sl_keyno_to_set := ts_primary_key (sc_share cx),
                                 sl_key_part := map_option key_part (sc_pk_info cx), sl_keypart_to_set := UINT_MAX\<rparr>)
                   else st))"

text \<open>
  The body of the loop and the loop; \<open>n\<close> iterations are left. Reading behind the
  end of the key parts is undefined.
\<close>

definition setup_step :: "setup_ctx \<Rightarrow> nat \<Rightarrow> setup_state \<Rightarrow> setup_state option" where
  "setup_step cx src_i st =
     (case sl_key_part st of
        Some [] \<Rightarrow> None
      | None \<Rightarrow> if sl_simulating_extkey st \<and> \<not> sc_hidden cx then None else setup_one cx src_i None 0 st
      | Some (p # ps) \<Rightarrow>
          if sl_simulating_extkey st \<and> \<not> sc_hidden cx \<and> found_in_key (sc_key_info cx) p
          then Some (st\<lparr>sl_key_part := Some ps\<rparr>)
          else setup_one cx src_i (Some (kp_field p)) (kp_length p) st)"

fun setup_loop :: "setup_ctx \<Rightarrow> nat \<Rightarrow> nat \<Rightarrow> setup_state \<Rightarrow> setup_state option" where
  "setup_loop cx 0 src_i st = Some st"
| "setup_loop cx (Suc n) src_i st =
     (case setup_step cx src_i st of
        None \<Rightarrow> None
      | Some st' \<Rightarrow>
          setup_loop cx n (src_i + 1) (st'\<lparr>sl_keypart_to_set := (sl_keypart_to_set st' + 1) mod 2 ^ 32\<rparr>))"

text \<open>
  \<open>mono_key_def::setup\<close>. A descriptor that is set up already is left alone.
\<close>

definition key_def_setup :: "mono_field_packing \<Rightarrow> table_share \<Rightarrow> mono_key_def \<Rightarrow> mono_key_def option" where
  "key_def_setup raw s kd =
     (let is_hidden_pk = m_index_type kd = INDEX_TYPE_HIDDEN_PRIMARY;
          secondary_key = m_index_type kd = INDEX_TYPE_SECONDARY;
          hidden_pk_exists = is_hidden_pk \<or> table_has_hidden_pk s
      in if m_maxlength kd \<noteq> 0 then Some kd
         else if is_hidden_pk
         then (case packing_setup True None (m_keyno kd) 0 0 raw of
                 None \<Rightarrow> None
               | Some (_, fpi) \<Rightarrow>
                   Some (kd\<lparr>m_pk_key_parts := 0, m_pk_part_no := [],
                            m_pack_info := [fpi\<lparr>m_unpack_data_offset := 0\<rparr>], m_key_parts := 1,
                            m_maxlength := m_max_image_len fpi\<rparr>))
         else case nth_opt (ts_key_info s) (m_keyno kd) of
           None \<Rightarrow> None
         | Some k \<Rightarrow>
             let pk = (if secondary_key \<and> \<not> hidden_pk_exists then nth_opt (ts_key_info s) (ts_primary_key s)
                       else None)
             in if secondary_key \<and> \<not> hidden_pk_exists \<and> pk = None then None
                else
                  let pk_parts = (if secondary_key
                                  then (case pk of None \<Rightarrow> 1 | Some pk \<Rightarrow> ext_key_parts pk) else 0);
                      cx = \<lparr>sc_share = s, sc_key_info = k, sc_pk_info = pk, sc_secondary = secondary_key,
                            sc_hidden = hidden_pk_exists, sc_pk_key_parts = pk_parts, sc_raw = raw\<rparr>;
                      st = \<lparr>sl_key_part = Some (key_part k), sl_simulating_extkey = False,
                            sl_keyno_to_set = m_keyno kd, sl_keypart_to_set = 0, sl_pack_info = [],
                            sl_pk_part_no = [], sl_max_len = 0\<rparr>
                  in map_option (\<lambda>st. kd
                       \<lparr>m_pk_key_parts := pk_parts,
                        m_unique_sk_only_key_parts :=
                          (if secondary_key \<and> ha_nosame k then ext_key_parts k else m_unique_sk_only_key_parts kd),
                        m_pk_part_no := sl_pk_part_no st, m_pack_info := sl_pack_info st,
                        m_key_parts := length (sl_pack_info st), m_maxlength := sl_max_len st\<rparr>)
                     (setup_loop cx (ext_key_parts k + pk_parts) 0 st))"

section \<open>What setup builds\<close>

text \<open>
  The parts of an index in declarative form: key number, position in that key
  and key part (none for the hidden primary key). A secondary key has its own
  parts first, then the parts of the primary key that are not among them.
\<close>

type_synonym layout_item = "nat \<times> nat \<times> key_part_info option"

definition own_parts :: "nat \<Rightarrow> key_part_info list \<Rightarrow> nat \<Rightarrow> layout_item list" where
  "own_parts keyno ps i = map (\<lambda>(j, p). (keyno, j, Some p)) (enumerate i ps)"

definition tail_parts :: "key_info \<Rightarrow> nat \<Rightarrow> key_part_info list \<Rightarrow> nat \<Rightarrow> layout_item list" where
  "tail_parts k pkno ps i = filter (\<lambda>(_, _, q). \<not> found_in_key k (the q)) (own_parts pkno ps i)"

definition key_layout :: "table_share \<Rightarrow> mono_key_def \<Rightarrow> key_info \<Rightarrow> key_info option \<Rightarrow> layout_item list" where
  "key_layout s kd k pk = own_parts (m_keyno kd) (key_part k) 0 @
     (if m_index_type kd \<noteq> INDEX_TYPE_SECONDARY then []
      else case pk of None \<Rightarrow> [(ts_keys s, 1, None)] | Some pk \<Rightarrow> tail_parts k (ts_primary_key s) (key_part pk) 0)"

definition layout_fpi :: "mono_field_packing \<Rightarrow> layout_item \<Rightarrow> mono_field_packing option" where
  "layout_fpi raw it = (case it of (keyno, i, po) \<Rightarrow>
     map_option (\<lambda>(_, fpi). fpi\<lparr>m_unpack_data_offset := 0\<rparr>)
       (packing_setup True (map_option kp_field po) keyno i (case po of None \<Rightarrow> 0 | Some p \<Rightarrow> kp_length p) raw))"

definition layout_pk_no :: "bool \<Rightarrow> key_info option \<Rightarrow> layout_item \<Rightarrow> nat option list" where
  "layout_pk_no secondary pk it = (case it of (_, _, po) \<Rightarrow>
     if secondary
     then (case (pk, po) of
             (Some pk, Some p) \<Rightarrow> [pk_part_no_of 0 (kp_field p) (key_part pk)]
           | (None, None) \<Rightarrow> [Some 0]
           | _ \<Rightarrow> [None])
     else [])"

lemma own_parts_simps [simp]:
  "own_parts keyno [] i = []"
  "own_parts keyno (p # ps) i = (keyno, i, Some p) # own_parts keyno ps (Suc i)"
  by (simp_all add: own_parts_def)

lemma tail_parts_simps [simp]:
  "tail_parts k pkno [] i = []"
  "tail_parts k pkno (p # ps) i =
     (if found_in_key k p then [] else [(pkno, i, Some p)]) @ tail_parts k pkno ps (Suc i)"
  by (simp_all add: tail_parts_def)

lemma nth_opt_less: "i < length xs \<Longrightarrow> nth_opt xs i = Some (xs ! i)"
  by (simp add: nth_opt_def)

lemma nth_opt_Some_iff: "nth_opt xs i = Some x \<longleftrightarrow> i < length xs \<and> xs ! i = x"
  by (auto simp: nth_opt_def)

text \<open>The NULL flag of a descriptor is the one of its column.\<close>

lemma setup_string_maybe_null:
  "setup_string v f len fpi = Some (b, fpi') \<Longrightarrow> m_maybe_null fpi' = m_maybe_null fpi"
  by (auto simp: setup_string_def setup_bin_def setup_weighted_def setup_space_pad_def setup_codec_def Let_def
      split: if_splits option.splits)

lemma packing_setup_maybe_null:
  "packing_setup b fo kn i len raw = Some (x, fpi) \<Longrightarrow>
   m_maybe_null fpi = (case fo of None \<Rightarrow> False | Some f \<Rightarrow> real_maybe_null f)"
  by (auto simp: packing_setup_def setup_defaults_def Let_def dest!: setup_string_maybe_null
      split: if_splits option.splits)

text \<open>One part, in terms of the declarative form.\<close>

definition add_part :: "setup_state \<Rightarrow> mono_field_packing \<Rightarrow> nat option list \<Rightarrow> setup_state" where
  "add_part st fpi nos = st
     \<lparr>sl_pack_info := sl_pack_info st @ [fpi], sl_pk_part_no := sl_pk_part_no st @ nos,
      sl_max_len := sl_max_len st + part_max_len fpi\<rparr>"

definition switch_key :: "setup_ctx \<Rightarrow> setup_state \<Rightarrow> setup_state" where
  "switch_key cx st =
     (if sc_hidden cx
      then st\<lparr>sl_simulating_extkey := True, sl_keyno_to_set := ts_keys (sc_share cx),
              sl_key_part := None, sl_keypart_to_set := 0\<rparr>
      else st\<lparr>sl_simulating_extkey := True, sl_keyno_to_set := ts_primary_key (sc_share cx),
              sl_key_part := map_option key_part (sc_pk_info cx), sl_keypart_to_set := UINT_MAX\<rparr>)"

definition ctx_ok :: "setup_ctx \<Rightarrow> bool" where
  "ctx_ok cx \<longleftrightarrow>
     (sc_secondary cx \<longrightarrow> sc_hidden cx = (sc_pk_info cx = None)) \<and> (\<not> sc_secondary cx \<longrightarrow> sc_pk_info cx = None) \<and>
     (\<forall>pk. sc_pk_info cx = Some pk \<longrightarrow> sc_pk_key_parts cx = length (key_part pk) \<and> length (key_part pk) < 2 ^ 32)"

lemma setup_one_eq:
  assumes cx: "ctx_ok cx" and "sl_simulating_extkey st \<longrightarrow> po = None \<or> sc_pk_info cx \<noteq> None"
    and "po = None \<Longrightarrow> sl_simulating_extkey st \<and> sc_pk_info cx = None"
  shows "setup_one cx src_i (map_option kp_field po) (case po of None \<Rightarrow> 0 | Some p \<Rightarrow> kp_length p) st =
    map_option (\<lambda>fpi.
        let st' = add_part (st\<lparr>sl_key_part := map_option tl (sl_key_part st)\<rparr>) fpi
              (layout_pk_no (sc_secondary cx) (sc_pk_info cx) (sl_keyno_to_set st, sl_keypart_to_set st, po))
        in if sc_secondary cx \<and> src_i + 1 = ext_key_parts (sc_key_info cx) then switch_key cx st' else st')
      (layout_fpi (sc_raw cx) (sl_keyno_to_set st, sl_keypart_to_set st, po))"
proof -
  have nos: "(case sc_pk_info cx of
       Some pk \<Rightarrow> [case map_option kp_field po of None \<Rightarrow> None
                   | Some f \<Rightarrow> pk_part_no_of 0 f (take (sc_pk_key_parts cx) (key_part pk))]
     | None \<Rightarrow> if sc_secondary cx \<and> sc_hidden cx then [if sl_simulating_extkey st then Some 0 else None] else []) =
     layout_pk_no (sc_secondary cx) (sc_pk_info cx) (sl_keyno_to_set st, sl_keypart_to_set st, po)"
    using assms by (auto simp: layout_pk_no_def ctx_ok_def split: option.splits)
  show ?thesis
  proof (cases "packing_setup True (map_option kp_field po) (sl_keyno_to_set st) (sl_keypart_to_set st)
      (case po of None \<Rightarrow> 0 | Some p \<Rightarrow> kp_length p) (sc_raw cx)")
    case None
    then show ?thesis by (simp add: setup_one_def layout_fpi_def)
  next
    case (Some r)
    obtain b fpi where r: "r = (b, fpi)" by (cases r)
    have len: "(case map_option kp_field po of None \<Rightarrow> 0 | Some f \<Rightarrow> if real_maybe_null f then 1 else 0) + m_max_image_len fpi
        = part_max_len (fpi\<lparr>m_unpack_data_offset := 0\<rparr>)"
      using packing_setup_maybe_null [OF Some [unfolded r]] by (simp add: part_max_len_def split: option.splits)
    show ?thesis
      using Some r by (simp add: setup_one_def layout_fpi_def nos Let_def add_part_def switch_key_def len [symmetric])
  qed
qed

text \<open>The state when parts are done, and the two phases of the loop.\<close>

abbreviation layout_nos :: "setup_ctx \<Rightarrow> layout_item list \<Rightarrow> nat option list" where
  "layout_nos cx its \<equiv> concat (map (layout_pk_no (sc_secondary cx) (sc_pk_info cx)) its)"

abbreviation total_len :: "mono_field_packing list \<Rightarrow> nat" where
  "total_len fpis \<equiv> sum_list (map part_max_len fpis)"

definition setup_at ::
  "key_part_info list option \<Rightarrow> bool \<Rightarrow> nat \<Rightarrow> nat \<Rightarrow> mono_field_packing list \<Rightarrow> nat option list \<Rightarrow> setup_state" where
  "setup_at ps sim keyno i fpis nos =
     \<lparr>sl_key_part = ps, sl_simulating_extkey = sim, sl_keyno_to_set = keyno, sl_keypart_to_set = i,
      sl_pack_info = fpis, sl_pk_part_no = nos, sl_max_len = total_len fpis\<rparr>"

lemma setup_at_sel [simp]:
  "sl_key_part (setup_at ps sim keyno i fpis nos) = ps"
  "sl_simulating_extkey (setup_at ps sim keyno i fpis nos) = sim"
  "sl_keyno_to_set (setup_at ps sim keyno i fpis nos) = keyno"
  "sl_keypart_to_set (setup_at ps sim keyno i fpis nos) = i"
  "sl_pack_info (setup_at ps sim keyno i fpis nos) = fpis"
  "sl_pk_part_no (setup_at ps sim keyno i fpis nos) = nos"
  "sl_max_len (setup_at ps sim keyno i fpis nos) = total_len fpis"
  "(setup_at ps sim keyno i fpis nos)\<lparr>sl_key_part := ps'\<rparr> = setup_at ps' sim keyno i fpis nos"
  "(setup_at ps sim keyno i fpis nos)\<lparr>sl_keypart_to_set := j\<rparr> = setup_at ps sim keyno j fpis nos"
  "add_part (setup_at ps sim keyno i fpis nos) fpi no = setup_at ps sim keyno i (fpis @ [fpi]) (nos @ no)"
  by (simp_all add: setup_at_def add_part_def)

lemma switch_key_at:
  "switch_key cx (setup_at ps sim keyno i fpis nos) =
     (if sc_hidden cx then setup_at None True (ts_keys (sc_share cx)) 0 fpis nos
      else setup_at (map_option key_part (sc_pk_info cx)) True (ts_primary_key (sc_share cx)) UINT_MAX fpis nos)"
  by (simp add: switch_key_def setup_at_def)

lemma those_Cons: "those (x # xs) = Option.bind x (\<lambda>y. map_option ((#) y) (those xs))"
  by (cases x) auto

lemma those_append: "those (xs @ ys) = Option.bind (those xs) (\<lambda>as. map_option ((@) as) (those ys))"
proof (induction xs)
  case Nil
  show ?case by (cases "those ys") simp_all
next
  case (Cons x xs)
  then show ?case by (cases x; cases "those xs"; cases "those ys") (simp_all add: those_Cons)
qed

lemma setup_loop_own:
  assumes cx: "ctx_ok cx" and "i + length ps < 2 ^ 32"
    and sec: "sc_secondary cx \<longrightarrow> ps \<noteq> [] \<and> src_i + length ps = ext_key_parts (sc_key_info cx)"
  shows "setup_loop cx (length ps + n) src_i (setup_at (Some ps) False keyno i fpis nos) =
    Option.bind (those (map (layout_fpi (sc_raw cx)) (own_parts keyno ps i))) (\<lambda>new.
      setup_loop cx n (src_i + length ps)
        (if sc_secondary cx
         then (if sc_hidden cx then setup_at None True (ts_keys (sc_share cx)) 1 (fpis @ new) (nos @ layout_nos cx (own_parts keyno ps i))
               else setup_at (map_option key_part (sc_pk_info cx)) True (ts_primary_key (sc_share cx)) 0
                      (fpis @ new) (nos @ layout_nos cx (own_parts keyno ps i)))
         else setup_at (Some []) False keyno (i + length ps) (fpis @ new) (nos @ layout_nos cx (own_parts keyno ps i))))"
  using assms(2,3)
proof (induction ps arbitrary: i src_i fpis nos)
  case Nil
  then show ?case by simp
next
  case (Cons p ps)
  let ?st = "setup_at (Some (p # ps)) False keyno i fpis nos"
  note one = setup_one_eq [OF cx, of ?st "Some p" src_i, simplified]
  show ?case
  proof (cases "layout_fpi (sc_raw cx) (keyno, i, Some p)")
    case None
    then show ?thesis using one by (simp add: setup_step_def)
  next
    case (Some fpi)
    have last: "src_i + 1 = ext_key_parts (sc_key_info cx) \<longleftrightarrow> ps = []" if "sc_secondary cx"
      using Cons.prems(2) that by (cases ps) auto
    show ?thesis
    proof (cases "sc_secondary cx \<and> ps = []")
      case True
      then show ?thesis using one last Some
        by (simp add: setup_step_def switch_key_at UINT_MAX_def)
    next
      case False
      have step: "setup_step cx src_i ?st = Some (setup_at (Some ps) False keyno i (fpis @ [fpi])
          (nos @ layout_pk_no (sc_secondary cx) (sc_pk_info cx) (keyno, i, Some p)))"
        using one last Some False by (auto simp: setup_step_def Let_def)
      have side: "Suc i + length ps < 2 ^ 32"
        "sc_secondary cx \<longrightarrow> ps \<noteq> [] \<and> Suc src_i + length ps = ext_key_parts (sc_key_info cx)"
        using Cons.prems False by auto
      note IH = Cons.IH [OF side, of "fpis @ [fpi]"
          "nos @ layout_pk_no (sc_secondary cx) (sc_pk_info cx) (keyno, i, Some p)"]
      have "(i + 1) mod 2 ^ 32 = Suc i" using Cons.prems(1) by simp
      then show ?thesis
        using Some IH by (cases "those (map (layout_fpi (sc_raw cx)) (own_parts keyno ps (Suc i)))") (simp_all add: step)
    qed
  qed
qed

lemma setup_loop_tail:
  assumes cx: "ctx_ok cx" and "sc_secondary cx" "sc_pk_info cx \<noteq> None"
    and "i + length ps < 2 ^ 32" and "ext_key_parts (sc_key_info cx) \<le> src_i"
  shows "setup_loop cx (length ps) src_i (setup_at (Some ps) True pkno i fpis nos) =
    map_option (\<lambda>new. setup_at (Some []) True pkno (i + length ps) (fpis @ new)
        (nos @ layout_nos cx (tail_parts (sc_key_info cx) pkno ps i)))
      (those (map (layout_fpi (sc_raw cx)) (tail_parts (sc_key_info cx) pkno ps i)))"
  using assms(4,5)
proof (induction ps arbitrary: i src_i fpis nos)
  case Nil
  then show ?case by simp
next
  case (Cons p ps)
  let ?st = "setup_at (Some (p # ps)) True pkno i fpis nos"
  have hid: "\<not> sc_hidden cx" using cx assms(2,3) by (simp add: ctx_ok_def)
  have i: "(i + 1) mod 2 ^ 32 = Suc i" using Cons.prems(1) by simp
  have le: "Suc i + length ps < 2 ^ 32" "ext_key_parts (sc_key_info cx) \<le> Suc src_i" using Cons.prems by auto
  show ?case
  proof (cases "found_in_key (sc_key_info cx) p")
    case True
    then show ?thesis using Cons.IH [OF le] i hid by (simp add: setup_step_def)
  next
    case False
    note one = setup_one_eq [OF cx, of ?st "Some p" src_i, simplified, OF assms(3) [unfolded not_None_eq]]
    show ?thesis
      using False Cons.IH [OF le] i hid Cons.prems(2) one
      by (cases "layout_fpi (sc_raw cx) (pkno, i, Some p)")
        (auto simp: setup_step_def those_Cons option.map_comp o_def)
  qed
qed

text \<open>The context that \<open>setup\<close> builds for its loop, and the whole loop.\<close>

definition setup_context :: "mono_field_packing \<Rightarrow> table_share \<Rightarrow> mono_key_def \<Rightarrow> key_info \<Rightarrow> key_info option \<Rightarrow> setup_ctx" where
  "setup_context raw s kd k pk =
     \<lparr>sc_share = s, sc_key_info = k, sc_pk_info = pk, sc_secondary = (m_index_type kd = INDEX_TYPE_SECONDARY),
      sc_hidden = table_has_hidden_pk s,
      sc_pk_key_parts = (if m_index_type kd = INDEX_TYPE_SECONDARY
                         then (case pk of None \<Rightarrow> 1 | Some pk \<Rightarrow> ext_key_parts pk) else 0), sc_raw = raw\<rparr>"

lemma setup_context_sel [simp]:
  "sc_share (setup_context raw s kd k pk) = s" "sc_key_info (setup_context raw s kd k pk) = k"
  "sc_pk_info (setup_context raw s kd k pk) = pk" "sc_hidden (setup_context raw s kd k pk) = table_has_hidden_pk s"
  "sc_secondary (setup_context raw s kd k pk) = (m_index_type kd = INDEX_TYPE_SECONDARY)"
  "sc_raw (setup_context raw s kd k pk) = raw"
  by (simp_all add: setup_context_def)

text \<open>
  A table share as the server builds it: the key exists, every key has all its
  parts and at least one, and the primary key of a table that has one is a key
  of the table.
\<close>

definition share_ok :: "table_share \<Rightarrow> mono_key_def \<Rightarrow> key_info \<Rightarrow> key_info option \<Rightarrow> bool" where
  "share_ok s kd k pk \<longleftrightarrow>
     nth_opt (ts_key_info s) (m_keyno kd) = Some k \<and>
     (\<forall>k \<in> set (ts_key_info s). ext_key_parts k = length (key_part k) \<and> key_part k \<noteq> [] \<and>
        length (key_part k) < 2 ^ 32) \<and>
     pk = (if m_index_type kd = INDEX_TYPE_SECONDARY \<and> \<not> table_has_hidden_pk s
           then nth_opt (ts_key_info s) (ts_primary_key s) else None) \<and>
     (table_has_hidden_pk s \<or> ts_primary_key s < length (ts_key_info s))"

abbreviation setup_out :: "setup_state \<Rightarrow> mono_field_packing list \<times> nat option list \<times> nat" where
  "setup_out st \<equiv> (sl_pack_info st, sl_pk_part_no st, sl_max_len st)"

lemma share_okD:
  assumes "share_ok s kd k pk"
  shows "ctx_ok (setup_context raw s kd k pk)"
    and "ext_key_parts k = length (key_part k)" "key_part k \<noteq> []" "0 + length (key_part k) < 2 ^ 32"
    and "m_index_type kd = INDEX_TYPE_SECONDARY \<Longrightarrow> table_has_hidden_pk s \<longleftrightarrow> pk = None"
    and "pk = Some q \<Longrightarrow> ext_key_parts q = length (key_part q) \<and> 0 + length (key_part q) < 2 ^ 32"
proof -
  have "k \<in> set (ts_key_info s)" using assms by (auto simp: share_ok_def nth_opt_Some_iff)
  then show "ext_key_parts k = length (key_part k)" "key_part k \<noteq> []" "0 + length (key_part k) < 2 ^ 32"
    using assms by (auto simp: share_ok_def)
  have pk: "ext_key_parts q = length (key_part q) \<and> 0 + length (key_part q) < 2 ^ 32" if "pk = Some q" for q
  proof -
    have "q \<in> set (ts_key_info s)"
      using assms that by (auto simp: share_ok_def nth_opt_def split: if_splits)
    then show ?thesis using assms by (auto simp: share_ok_def)
  qed
  then show "pk = Some q \<Longrightarrow> ext_key_parts q = length (key_part q) \<and> 0 + length (key_part q) < 2 ^ 32" .
  show "m_index_type kd = INDEX_TYPE_SECONDARY \<Longrightarrow> table_has_hidden_pk s \<longleftrightarrow> pk = None"
    using assms by (auto simp: share_ok_def nth_opt_def)
  show "ctx_ok (setup_context raw s kd k pk)"
    using assms pk by (auto simp: ctx_ok_def setup_context_def share_ok_def nth_opt_def)
qed

lemma setup_loop_layout:
  fixes raw s kd k pk
  defines "cx \<equiv> setup_context raw s kd k pk"
  assumes ok: "share_ok s kd k pk"
  shows "map_option setup_out (setup_loop cx (ext_key_parts k + sc_pk_key_parts cx) 0
      (setup_at (Some (key_part k)) False (m_keyno kd) 0 [] [])) =
    map_option (\<lambda>fpis. (fpis, layout_nos cx (key_layout s kd k pk), total_len fpis))
      (those (map (layout_fpi raw) (key_layout s kd k pk)))"
proof -
  let ?main = "own_parts (m_keyno kd) (key_part k) 0"
  note D = share_okD [OF ok]
  have cx: "ctx_ok cx" by (simp add: cx_def D(1))
  note own = setup_loop_own [OF cx D(4), of 0 "sc_pk_key_parts cx" "m_keyno kd" "[]" "[]", unfolded D(2) [symmetric]]
  show ?thesis
  proof (cases "m_index_type kd = INDEX_TYPE_SECONDARY")
    case False
    then have "sc_pk_key_parts cx = 0" by (simp add: cx_def setup_context_def)
    with False own show ?thesis
      by (cases "those (map (layout_fpi raw) ?main)") (simp_all add: cx_def key_layout_def)
  next
    case True
    note hid = D(5) [OF True]
    show ?thesis
    proof (cases pk)
      case None
      let ?hidden = "(ts_keys s, 1, None) :: layout_item"
      have n: "sc_pk_key_parts cx = Suc 0" using True None by (simp add: cx_def setup_context_def)
      have one: "map_option setup_out (setup_loop cx (Suc 0) (ext_key_parts k) (setup_at None True (ts_keys s) (Suc 0) fpis nos)) =
        map_option (\<lambda>fpi. (fpis @ [fpi], nos @ layout_nos cx [?hidden], total_len (fpis @ [fpi]))) (layout_fpi raw ?hidden)"
        for fpis nos
        using setup_one_eq [OF cx, of "setup_at None True (ts_keys s) 1 fpis nos" None "ext_key_parts k"] None True hid
        by (cases "layout_fpi raw ?hidden") (simp_all add: setup_step_def cx_def Let_def switch_key_at)
      have l: "key_layout s kd k pk = ?main @ [?hidden]" using True None by (simp add: key_layout_def)
      show ?thesis
        unfolding l n using own True None hid n one D(2,3)
        by (cases "those (map (layout_fpi raw) ?main)"; cases "layout_fpi raw ?hidden")
          (simp_all add: those_append those_Cons cx_def)
    next
      case (Some q)
      let ?tail = "tail_parts k (ts_primary_key s) (key_part q) 0"
      have n: "sc_pk_key_parts cx = length (key_part q)" using True Some D(6) by (simp add: cx_def setup_context_def)
      have q: "0 + length (key_part q) < 2 ^ 32" using D(6) [OF Some] by simp
      note tail = setup_loop_tail [OF cx _ _ q, of "ext_key_parts k"]
      have l: "key_layout s kd k pk = ?main @ ?tail" using True Some by (simp add: key_layout_def)
      show ?thesis
        unfolding l n using own True Some hid n tail D(2,3)
        by (cases "those (map (layout_fpi raw) ?main)"; cases "those (map (layout_fpi raw) ?tail)")
          (simp_all add: those_append cx_def)
    qed
  qed
qed

section \<open>The descriptor of an index\<close>

lemma key_def_setup_eq:
  assumes "share_ok s kd k pk" "m_maxlength kd = 0" "m_index_type kd \<noteq> INDEX_TYPE_HIDDEN_PRIMARY"
  shows "key_def_setup raw s kd =
    map_option (\<lambda>fpis. kd
        \<lparr>m_pk_key_parts := (if m_index_type kd = INDEX_TYPE_SECONDARY
                            then (case pk of None \<Rightarrow> 1 | Some pk \<Rightarrow> length (key_part pk)) else 0),
         m_unique_sk_only_key_parts :=
           (if m_index_type kd = INDEX_TYPE_SECONDARY \<and> ha_nosame k then length (key_part k)
            else m_unique_sk_only_key_parts kd),
         m_pk_part_no := concat (map (layout_pk_no (m_index_type kd = INDEX_TYPE_SECONDARY) pk) (key_layout s kd k pk)),
         m_pack_info := fpis, m_key_parts := length fpis, m_maxlength := sum_list (map part_max_len fpis)\<rparr>)
      (those (map (layout_fpi raw) (key_layout s kd k pk)))"
proof -
  let ?cx = "setup_context raw s kd k pk"
  let ?L = "setup_loop ?cx (ext_key_parts k + sc_pk_key_parts ?cx) 0 (setup_at (Some (key_part k)) False (m_keyno kd) 0 [] [])"
  let ?T = "those (map (layout_fpi raw) (key_layout s kd k pk))"
  note D = share_okD [OF assms(1)]
  have k: "nth_opt (ts_key_info s) (m_keyno kd) = Some k" using assms(1) by (simp add: share_ok_def)
  have pk: "(if m_index_type kd = INDEX_TYPE_SECONDARY \<and> \<not> (m_index_type kd = INDEX_TYPE_HIDDEN_PRIMARY \<or> table_has_hidden_pk s)
      then nth_opt (ts_key_info s) (ts_primary_key s) else None) = pk"
    using assms(1,3) by (simp add: share_ok_def)
  have np: "(case pk of None \<Rightarrow> 1 | Some pk \<Rightarrow> ext_key_parts pk) = (case pk of None \<Rightarrow> 1 | Some pk \<Rightarrow> length (key_part pk))"
    using D(6) by (auto split: option.splits)
  have cx: "\<lparr>sc_share = s, sc_key_info = k, sc_pk_info = pk, sc_secondary = m_index_type kd = INDEX_TYPE_SECONDARY,
      sc_hidden = table_has_hidden_pk s,
      sc_pk_key_parts = (if m_index_type kd = INDEX_TYPE_SECONDARY
                         then (case pk of None \<Rightarrow> 1 | Some pk \<Rightarrow> ext_key_parts pk) else 0), sc_raw = raw\<rparr> = ?cx"
    using assms(3) by (simp add: setup_context_def)
  have st: "\<lparr>sl_key_part = Some (key_part k), sl_simulating_extkey = False, sl_keyno_to_set = m_keyno kd,
      sl_keypart_to_set = 0, sl_pack_info = [], sl_pk_part_no = [], sl_max_len = 0\<rparr> =
      setup_at (Some (key_part k)) False (m_keyno kd) 0 [] []" by (simp add: setup_at_def)
  have parts: "sc_pk_key_parts ?cx = (if m_index_type kd = INDEX_TYPE_SECONDARY
      then (case pk of None \<Rightarrow> 1 | Some pk \<Rightarrow> ext_key_parts pk) else 0)" by (simp add: setup_context_def)
  have ok: "\<not> (m_index_type kd = INDEX_TYPE_SECONDARY \<and> \<not> table_has_hidden_pk s \<and> pk = None)"
    using D(5) by auto
  have "key_def_setup raw s kd = map_option (\<lambda>st. kd
      \<lparr>m_pk_key_parts := sc_pk_key_parts ?cx,
       m_unique_sk_only_key_parts :=
         (if m_index_type kd = INDEX_TYPE_SECONDARY \<and> ha_nosame k then ext_key_parts k else m_unique_sk_only_key_parts kd),
       m_pk_part_no := sl_pk_part_no st, m_pack_info := sl_pack_info st,
       m_key_parts := length (sl_pack_info st), m_maxlength := sl_max_len st\<rparr>) ?L"
    unfolding key_def_setup_def Let_def k pk option.case
    using assms(2,3) by (simp only: cx st parts if_not_P [OF ok] simp_thms if_True if_False)
  then show ?thesis
    using setup_loop_layout [OF assms(1), of raw] by (cases ?L; cases ?T) (auto simp: parts np D(2))
qed

text \<open>
  C12. Setting up an index gives the declared layout: the descriptors are those of
  the key's own parts followed, for a secondary key, by the parts of the primary
  key that the key does not contain yet (or the hidden primary key), each with its
  key number and position; every part knows which primary key column it is; the
  number of parts and the maximal length are those of the descriptors.
\<close>

theorem key_setup_layout:
  assumes "share_ok s kd k pk" "m_maxlength kd = 0" "m_index_type kd \<noteq> INDEX_TYPE_HIDDEN_PRIMARY"
  shows "key_def_setup raw s kd =
    map_option (\<lambda>fpis. kd
        \<lparr>m_pk_key_parts := (if m_index_type kd = INDEX_TYPE_SECONDARY
                            then (case pk of None \<Rightarrow> 1 | Some pk \<Rightarrow> length (key_part pk)) else 0),
         m_unique_sk_only_key_parts :=
           (if m_index_type kd = INDEX_TYPE_SECONDARY \<and> ha_nosame k then length (key_part k)
            else m_unique_sk_only_key_parts kd),
         m_pk_part_no := concat (map (layout_pk_no (m_index_type kd = INDEX_TYPE_SECONDARY) pk) (key_layout s kd k pk)),
         m_pack_info := fpis, m_key_parts := length fpis, m_maxlength := sum_list (map part_max_len fpis)\<rparr>)
      (those (map (layout_fpi raw) (key_layout s kd k pk)))"
  using assms by (rule key_def_setup_eq)

text \<open>
  A table of two columns (a number that is the primary key and a nullable number
  with a unique index), used in the concrete instances.
\<close>

definition sample_column :: "nat \<Rightarrow> bool \<Rightarrow> field" where
  "sample_column i nullable = (example_field MYSQL_TYPE_LONG 4 False)\<lparr>field_index := i, real_maybe_null := nullable\<rparr>"

definition sample_key :: "field list \<Rightarrow> key_info" where
  "sample_key fs = \<lparr>key_part = map (\<lambda>f. \<lparr>kp_field = f, kp_length = 4\<rparr>) fs, ext_key_parts = length fs,
     user_defined_key_parts = length fs, ha_nosame = True\<rparr>"

definition sample_share :: table_share where
  "sample_share = \<lparr>ts_key_info = [sample_key [sample_column 0 False], sample_key [sample_column 1 True]],
     ts_primary_key = 0, ts_keys = 2, ts_default_values = (\<lambda>_. example_cell [0, 0, 0, 0])\<rparr>"

definition sample_raw_key :: mono_key_def where
  "sample_raw_key = \<lparr>m_index_type = INDEX_TYPE_PRIMARY, m_unique_sk_only_key_parts = 0, m_pk_key_parts = 0,
     m_pk_part_no = [], m_pack_info = [], m_keyno = 0, m_key_parts = 0, m_maxlength = 0\<rparr>"

definition sample_part :: "nat \<Rightarrow> nat \<Rightarrow> mono_field_packing" where
  "sample_part keyno i = (example_packing 4 Unpack_integer)
     \<lparr>m_keynr := keyno, m_field_idx := i, m_maybe_null := (i = 2)\<rparr>"

lemmas sample_defs = sample_column_def sample_key_def sample_share_def sample_raw_key_def sample_part_def new_key_def_def

lemma sample_share_ok:
  "share_ok sample_share (new_key_def sample_raw_key 1 INDEX_TYPE_SECONDARY) (sample_key [sample_column 1 True])
     (Some (sample_key [sample_column 0 False]))"
  by (simp add: share_ok_def sample_defs nth_opt_def table_has_hidden_pk_def MAX_INDEXES_def)

theorem key_setup_layout_witness:
  "key_def_setup (example_packing 0 Unpack_integer) sample_share (new_key_def sample_raw_key 1 INDEX_TYPE_SECONDARY) =
   Some (sample_raw_key\<lparr>m_index_type := INDEX_TYPE_SECONDARY, m_unique_sk_only_key_parts := 1, m_pk_key_parts := 1,
     m_pk_part_no := [None, Some 0], m_pack_info := [sample_part 1 2, sample_part 0 1], m_keyno := 1,
     m_key_parts := 2, m_maxlength := 9\<rparr>)"
proof -
  have l: "key_layout sample_share (new_key_def sample_raw_key 1 INDEX_TYPE_SECONDARY)
      (sample_key [sample_column 1 True]) (Some (sample_key [sample_column 0 False])) =
      [(1, 0, Some \<lparr>kp_field = sample_column 1 True, kp_length = 4\<rparr>), (0, 0, Some \<lparr>kp_field = sample_column 0 False, kp_length = 4\<rparr>)]"
    by (simp add: key_layout_def sample_defs found_in_key_def example_field_def)
  show ?thesis
    using key_setup_layout [OF sample_share_ok, of "example_packing 0 Unpack_integer"] unfolding l
    by (simp add: layout_fpi_def packing_setup_def setup_defaults_def layout_pk_no_def part_max_len_def sample_defs example_defs)
qed

end
