(* ===== verification/Key_Pack.thy ===== *)
theory Key_Pack
  imports Key_Def
begin

text \<open>
  \<open>mono_key_def::pack_record\<close> and its relatives: the columns of a record become
  one memory-comparable key, with the unpack information beside it. Packed keys
  are shown to be the concatenated images of their parts and to sort like the
  records.
\<close>

section \<open>Packing\<close>

text \<open>
  The running state of packing a record: the key so far, the writer of the unpack
  information (if requested), the number of NULL columns and the size of the key
  without its primary key tail.
\<close>

record pack_state =
  pk_tuple :: bytes
  pk_unpack_info :: "mono_string_writer option"
  pk_n_null_fields :: nat
  pk_unique_sk_pack_size :: "nat option"

definition pack_field :: "field \<Rightarrow> cell \<Rightarrow> mono_field_packing \<Rightarrow> pack_state \<Rightarrow> pack_state option" where
  "pack_field f c fpi st =
     (if real_maybe_null f \<and> c_null c
      then Some (st\<lparr>pk_tuple := pk_tuple st @ [0], pk_n_null_fields := pk_n_null_fields st + 1\<rparr>)
      else
        let tuple = (if real_maybe_null f then pk_tuple st @ [1] else pk_tuple st)
        in case pack_part fpi f c (pk_unpack_info st) of
             None \<Rightarrow> None
           | Some (e, w) \<Rightarrow>
               let st = st\<lparr>pk_tuple := tuple @ e, pk_unpack_info := w\<rparr>
               in case w of
                    None \<Rightarrow> Some st
                  | Some wr \<Rightarrow>
                      if uses_unpack_info fpi
                      then map_option (\<lambda>wr'. st\<lparr>pk_unpack_info := Some wr'\<rparr>) (make_unpack_part fpi f c wr)
                      else Some st)"

text \<open>\<open>fill_hidden_pk_val\<close> appends \<open>m_max_image_len\<close> bytes; fewer are undefined.\<close>

definition fill_hidden_pk_val :: "mono_field_packing \<Rightarrow> bytes \<Rightarrow> bytes option" where
  "fill_hidden_pk_val fpi hidden_pk_id =
     (if m_max_image_len fpi \<le> length hidden_pk_id then Some (take (m_max_image_len fpi) hidden_pk_id) else None)"

text \<open>
  One iteration of the loop over the key parts, the last one being the hidden
  primary key where it is passed. While a part is packed, the field length of
  its column is the length of the key part.
\<close>

definition pack_step ::
  "table \<Rightarrow> mono_key_def \<Rightarrow> rec_buf \<Rightarrow> bool \<Rightarrow> bytes option \<Rightarrow> nat \<Rightarrow> nat \<Rightarrow> pack_state \<Rightarrow> pack_state option" where
  "pack_step tbl kd record is_modifing_unique_sk hidden_pk_id n_key_parts i st =
     (let st = (if is_modifing_unique_sk \<and> i = m_unique_sk_only_key_parts kd
                then st\<lparr>pk_unique_sk_pack_size := Some (length (pk_tuple st))\<rparr> else st)
      in case nth_opt (m_pack_info kd) i of
           None \<Rightarrow> None
         | Some fpi \<Rightarrow>
             if table_has_hidden_pk (tbl_s tbl) \<and> hidden_pk_id \<noteq> None \<and> i + 1 = n_key_parts
             then map_option (\<lambda>e. st\<lparr>pk_tuple := pk_tuple st @ e\<rparr>) (fill_hidden_pk_val fpi (the hidden_pk_id))
             else case get_original_field_in_table tbl fpi of
               None \<Rightarrow> None
             | Some f \<Rightarrow>
                 pack_field (f\<lparr>field_length := get_key_part_length fpi\<rparr>) (record (field_index f)) fpi st)"

fun pack_loop ::
  "table \<Rightarrow> mono_key_def \<Rightarrow> rec_buf \<Rightarrow> bool \<Rightarrow> bytes option \<Rightarrow> nat \<Rightarrow> nat \<Rightarrow> nat \<Rightarrow> pack_state \<Rightarrow> pack_state option" where
  "pack_loop tbl kd record modsk hid n 0 i st = Some st"
| "pack_loop tbl kd record modsk hid n (Suc k) i st =
     Option.bind (pack_step tbl kd record modsk hid n i st) (pack_loop tbl kd record modsk hid n k (i + 1))"

text \<open>How many parts are packed; 0 or \<open>MAX_REF_PARTS\<close> means all of them.\<close>

definition pack_n_key_parts :: "table \<Rightarrow> mono_key_def \<Rightarrow> bool \<Rightarrow> bytes option \<Rightarrow> nat \<Rightarrow> nat" where
  "pack_n_key_parts tbl kd is_modifing_unique_sk hidden_pk_id n_key_parts =
     (let use_all_columns = n_key_parts = 0 \<or> n_key_parts = MAX_REF_PARTS
      in if table_has_hidden_pk (tbl_s tbl) \<and> hidden_pk_id = None \<and> use_all_columns then m_key_parts kd - 1
         else if use_all_columns \<or> is_modifing_unique_sk then m_key_parts kd
         else n_key_parts)"

text \<open>
  The length of the unpack information goes into its first two bytes; when no
  column wrote any, the writer is cleared.
\<close>

definition finish_unpack_info :: "mono_string_writer \<Rightarrow> mono_string_writer option" where
  "finish_unpack_info w =
     (let len = get_current_pos w
      in if MONO_UNPACK_DATA_LEN_SIZE < len then write_uint16_at 0 len w else Some (wr_clear w))"

definition pack_record ::
  "table \<Rightarrow> mono_key_def \<Rightarrow> rec_buf \<Rightarrow> mono_string_writer option \<Rightarrow> bool \<Rightarrow> bytes option \<Rightarrow> nat \<Rightarrow>
   pack_state option" where
  "pack_record tbl kd record unpack_info is_modifing_unique_sk hidden_pk_id n_key_parts =
     (let n = pack_n_key_parts tbl kd is_modifing_unique_sk hidden_pk_id n_key_parts;
          st = \<lparr>pk_tuple = [], pk_unpack_info = map_option (\<lambda>w. write_uint16 0 (wr_clear w)) unpack_info,
                pk_n_null_fields = 0, pk_unique_sk_pack_size = None\<rparr>
      in case pack_loop tbl kd record is_modifing_unique_sk hidden_pk_id n n 0 st of
           None \<Rightarrow> None
         | Some st \<Rightarrow>
             (case pk_unpack_info st of
                None \<Rightarrow> Some st
              | Some w \<Rightarrow> map_option (\<lambda>w'. st\<lparr>pk_unpack_info := Some w'\<rparr>) (finish_unpack_info w)))"

definition pack_hidden_pk :: "mono_key_def \<Rightarrow> bytes \<Rightarrow> bytes option" where
  "pack_hidden_pk kd hidden_pk_id =
     Option.bind (nth_opt (m_pack_info kd) 0) (\<lambda>fpi. fill_hidden_pk_val fpi hidden_pk_id)"

text \<open>
  \<open>pack_key\<close> packs column values given as byte strings. It passes no packing
  context, which the space-padded pack function dereferences. Columns whose
  value is not in the string (blobs, bits kept beside the NULL bits) are left
  undefined, as is a key longer than \<open>m_maxlength\<close>.
\<close>

definition col_cell :: "bytes \<Rightarrow> cell" where
  "col_cell s = \<lparr>c_null = False, c_img = s, c_blob = [], c_bits = 0\<rparr>"

definition pack_key_part :: "mono_field_packing \<Rightarrow> field \<Rightarrow> bytes \<Rightarrow> bytes option" where
  "pack_key_part fpi f col =
     (if real_maybe_null f \<and> length col = 0 then Some [0]
      else if m_pack_func fpi = Some Pack_varchar_space_pad \<or> m_pack_func fpi = Some Pack_blob \<or> 0 < bit_len f
      then None
      else map_option (\<lambda>(e, _). (if real_maybe_null f then [1] else []) @ e) (pack_part fpi f (col_cell col) None))"

fun pack_key_loop :: "mono_field_packing list \<Rightarrow> key_part_info list \<Rightarrow> bytes list \<Rightarrow> nat \<Rightarrow> bytes option" where
  "pack_key_loop _ _ _ 0 = Some []"
| "pack_key_loop (fpi # fpis) (p # ps) (col # cols) (Suc n) =
     Option.bind (pack_key_part fpi (kp_field p) col) (\<lambda>e. map_option ((@) e) (pack_key_loop fpis ps cols n))"
| "pack_key_loop _ _ _ (Suc n) = None"

definition pack_key :: "mono_key_def \<Rightarrow> key_info \<Rightarrow> bytes list \<Rightarrow> bytes option" where
  "pack_key kd k key_cols =
     (case pack_key_loop (m_pack_info kd) (key_part k) key_cols (user_defined_key_parts k) of
        None \<Rightarrow> None
      | Some buf \<Rightarrow> if length buf \<le> m_maxlength kd then Some buf else None)"

section \<open>The image of a record\<close>

text \<open>
  The part that a descriptor denotes in an open table, and the values of a record
  in the columns of the parts.
\<close>

definition table_part :: "table \<Rightarrow> mono_field_packing \<Rightarrow> part option" where
  "table_part tbl fpi =
     (case (get_original_field_in_table tbl fpi, get_field_in_table tbl fpi) of
        (Some f, Some sf) \<Rightarrow> Some (fpi, f\<lparr>field_length := get_key_part_length fpi\<rparr>, sf)
      | _ \<Rightarrow> None)"

definition key_row :: "rec_buf \<Rightarrow> part list \<Rightarrow> cell list" where
  "key_row record ps = map (\<lambda>(fpi, pf, sf). record (field_index pf)) ps"

text \<open>The unpack information of one column; a NULL column has none.\<close>

definition info_ready :: "mono_field_packing \<Rightarrow> bool" where
  "info_ready fpi \<longleftrightarrow>
     (m_pack_func fpi = Some Pack_varchar_space_pad \<and> \<not> m_unpack_info_stores_value fpi \<longrightarrow>
        space_mb_len fpi \<noteq> 0 \<and> space_xfrm_len fpi \<noteq> 0) \<and>
     (m_make_unpack_info_func fpi \<in> {Some Make_unpack_simple, Some Make_unpack_simple_varchar} \<longrightarrow>
        m_charset_codec fpi \<noteq> None)"

definition make_info :: "mono_field_packing \<Rightarrow> field \<Rightarrow> cell \<Rightarrow> bytes" where
  "make_info fpi f c =
     (if uses_unpack_info fpi
      then (case make_unpack_part fpi f c empty_writer of None \<Rightarrow> [] | Some w \<Rightarrow> wr_data w) else [])"

definition part_info :: "part \<Rightarrow> cell \<Rightarrow> bytes" where
  "part_info p c = (case p of (fpi, pf, sf) \<Rightarrow>
     if real_maybe_null pf \<and> c_null c then []
     else (if m_pack_func fpi = Some Pack_varchar_space_pad then space_pad_info fpi pf c else []) @ make_info fpi pf c)"

lemma writer_eq: "w = \<lparr>wr_data = wr_data w\<rparr>"
  by (cases w) simp

lemma make_unpack_part_appends:
  assumes "info_ready fpi" "uses_unpack_info fpi"
  shows "make_unpack_part fpi f c w = Some \<lparr>wr_data = wr_data w @ make_info fpi f c\<rparr>"
proof -
  obtain m where m: "m_make_unpack_info_func fpi = Some m" using assms(2) by (auto simp: uses_unpack_info_def)
  have "\<exists>w'. make_unpack_part fpi f c w = Some w' \<and> wr_data w' = wr_data w @ make_info fpi f c"
    using assms m
    by (cases m) (auto simp: make_unpack_part_def make_info_def info_ready_def empty_writer_def wr_write_def
        dummy_make_unpack_info_def make_unpack_unknown_def make_unpack_unknown_varchar_def
        make_unpack_simple_varchar_def make_unpack_simple_def write_simple_appends)
  then show ?thesis using writer_eq by metis
qed

lemma pack_part_writes:
  assumes "wf_value (fpi, pf, sf) c" "info_ready fpi"
  shows "pack_part fpi pf c w = Some (part_image (fpi, pf, sf) c,
    map_option (\<lambda>w. \<lparr>wr_data = wr_data w @
      (if m_pack_func fpi = Some Pack_varchar_space_pad then space_pad_info fpi pf c else [])\<rparr>) w)"
proof (cases "m_pack_func fpi = Some Pack_varchar_space_pad")
  case False
  then show ?thesis using assms(1) writer_eq
    by (cases w) (auto simp: part_image_def pack_part_def wf_value_def split: option.splits pack_func.splits)
next
  case True
  then have "wf_space_pad fpi pf c" using assms(1) by (simp add: wf_value_def)
  then obtain p sp n where p: "m_segment_size fpi = Suc p" "space_xfrm fpi = Some sp"
    "space_pad_loop (Suc p) sp (space_pad_xfrm fpi pf c) = Some (space_pad_image fpi pf c, n)"
    by (rule space_pad_image_loop)
  then have "part_image (fpi, pf, sf) c = space_pad_image fpi pf c"
    using True by (simp add: part_image_def pack_part_def pack_with_varchar_space_pad_def)
  then show ?thesis
    using True p assms(2) writer_eq
    by (cases w) (auto simp: pack_part_def pack_with_varchar_space_pad_def space_pad_info_def info_ready_def Let_def
        empty_writer_def write_uint16_append)
qed

text \<open>One column, then the whole loop.\<close>

definition add_image :: "part \<Rightarrow> cell \<Rightarrow> pack_state \<Rightarrow> pack_state" where
  "add_image p c st = (case p of (fpi, pf, sf) \<Rightarrow> st
     \<lparr>pk_tuple := pk_tuple st @ enc_part p c,
      pk_unpack_info := map_option (\<lambda>w. \<lparr>wr_data = wr_data w @ part_info p c\<rparr>) (pk_unpack_info st),
      pk_n_null_fields := pk_n_null_fields st + (if real_maybe_null pf \<and> c_null c then 1 else 0)\<rparr>)"

lemma pack_field_enc:
  assumes "wf_part (fpi, pf, sf) c" "info_ready fpi"
  shows "pack_field pf c fpi st = Some (add_image (fpi, pf, sf) c st)"
proof (cases "real_maybe_null pf \<and> c_null c")
  case True
  then show ?thesis
    by (cases "pk_unpack_info st") (auto simp: pack_field_def add_image_def enc_part_def part_info_def)
next
  case False
  then have wf: "wf_value (fpi, pf, sf) c" using assms(1) by (auto simp: wf_part_def)
  have e: "enc_part (fpi, pf, sf) c = (if real_maybe_null pf then [1] else []) @ part_image (fpi, pf, sf) c"
    using False by (simp add: enc_part_def)
  note pw = pack_part_writes [OF wf assms(2)]
  have n: "(real_maybe_null pf \<and> c_null c) = False" using False by simp
  show ?thesis
  proof (cases "pk_unpack_info st")
    case None
    then show ?thesis by (simp add: pack_field_def add_image_def n pw e Let_def)
  next
    case (Some w)
    show ?thesis
    proof (cases "uses_unpack_info fpi")
      case True
      show ?thesis
        by (simp add: pack_field_def add_image_def part_info_def n pw e Let_def Some True
            make_unpack_part_appends [OF assms(2) True])
    next
      case False
      then show ?thesis
        by (simp add: pack_field_def add_image_def part_info_def make_info_def n pw e Let_def Some)
    qed
  qed
qed

fun add_images :: "part list \<Rightarrow> cell list \<Rightarrow> pack_state \<Rightarrow> pack_state" where
  "add_images (p # ps) (c # cs) st = add_images ps cs (add_image p c st)"
| "add_images _ _ st = st"

lemma add_images_sel:
  "length ps = length cs \<Longrightarrow> pk_tuple (add_images ps cs st) = pk_tuple st @ enc_row enc_part ps cs"
  "length ps = length cs \<Longrightarrow> pk_unpack_info (add_images ps cs st) =
     map_option (\<lambda>w. \<lparr>wr_data = wr_data w @ enc_row part_info ps cs\<rparr>) (pk_unpack_info st)"
  "pk_unique_sk_pack_size (add_images ps cs st) = pk_unique_sk_pack_size st"
  by (induction ps cs st rule: add_images.induct)
    (auto simp: add_image_def option.map_comp o_def split: prod.split intro: option.map_ident_strong [symmetric])

text \<open>
  The parts \<open>i, i + 1, \<dots>\<close> of a key, none of them hidden, and their values.
\<close>

definition parts_at :: "table \<Rightarrow> mono_key_def \<Rightarrow> nat \<Rightarrow> part list \<Rightarrow> bool" where
  "parts_at tbl kd i ps \<longleftrightarrow> i + length ps \<le> length (m_pack_info kd) \<and>
     (\<forall>j < length ps. table_part tbl (m_pack_info kd ! (i + j)) = Some (ps ! j))"

definition row_ok :: "part list \<Rightarrow> cell list \<Rightarrow> bool" where
  "row_ok ps row \<longleftrightarrow> list_all2 wf_part ps row \<and> (\<forall>p \<in> set ps. info_ready (fst p))"

lemma parts_at_Cons:
  "parts_at tbl kd i (p # ps) \<longleftrightarrow>
     i < length (m_pack_info kd) \<and> table_part tbl (m_pack_info kd ! i) = Some p \<and> parts_at tbl kd (Suc i) ps"
  by (auto simp: parts_at_def All_less_Suc2)

lemma row_ok_Cons [simp]: "row_ok (p # ps) (c # cs) \<longleftrightarrow> wf_part p c \<and> info_ready (fst p) \<and> row_ok ps cs"
  by (auto simp: row_ok_def)

lemma row_ok_length: "row_ok ps row \<Longrightarrow> length ps = length row"
  by (auto simp: row_ok_def list_all2_lengthD)

lemma key_row_Cons [simp]: "key_row record (p # ps) = record (field_index (fst (snd p))) # key_row record ps"
  by (cases p) (simp add: key_row_def)

lemma length_key_row [simp]: "length (key_row record ps) = length ps"
  by (simp add: key_row_def)

lemma part_fst: "parts_at tbl kd 0 ps \<Longrightarrow> i < length ps \<Longrightarrow> fst (ps ! i) = m_pack_info kd ! i"
proof -
  assume "parts_at tbl kd 0 ps" "i < length ps"
  then have "table_part tbl (m_pack_info kd ! i) = Some (ps ! i)" by (simp add: parts_at_def)
  then show ?thesis by (cases "ps ! i") (auto simp: table_part_def split: option.splits)
qed

text \<open>The note of the size of a unique key, taken where the loop reaches its end.\<close>

definition note_size :: "mono_key_def \<Rightarrow> bool \<Rightarrow> nat \<Rightarrow> pack_state \<Rightarrow> pack_state" where
  "note_size kd modsk i st =
     (if modsk \<and> i = m_unique_sk_only_key_parts kd then st\<lparr>pk_unique_sk_pack_size := Some (length (pk_tuple st))\<rparr> else st)"

lemma pack_step_visible:
  assumes "i < length (m_pack_info kd)" "table_part tbl (m_pack_info kd ! i) = Some p"
    and "wf_part p (record (field_index (fst (snd p))))" "info_ready (fst p)"
    and "\<not> (table_has_hidden_pk (tbl_s tbl) \<and> hid \<noteq> None \<and> i + 1 = n)"
  shows "pack_step tbl kd record modsk hid n i st =
    Some (add_image p (record (field_index (fst (snd p)))) (note_size kd modsk i st))"
proof -
  let ?fpi = "m_pack_info kd ! i"
  obtain f sf where f: "get_original_field_in_table tbl ?fpi = Some f" "get_field_in_table tbl ?fpi = Some sf"
    and p: "p = (?fpi, f\<lparr>field_length := get_key_part_length ?fpi\<rparr>, sf)"
    using assms(2) by (auto simp: table_part_def split: option.splits)
  show ?thesis
    using assms(1,3-5) f(1) pack_field_enc [of ?fpi "f\<lparr>field_length := get_key_part_length ?fpi\<rparr>" sf]
    by (auto simp: pack_step_def nth_opt_less Let_def note_size_def p)
qed

definition mark_size :: "mono_key_def \<Rightarrow> bool \<Rightarrow> nat \<Rightarrow> part list \<Rightarrow> cell list \<Rightarrow> nat \<Rightarrow> pack_state \<Rightarrow> pack_state" where
  "mark_size kd modsk i ps row len st =
     (let u = m_unique_sk_only_key_parts kd
      in if modsk \<and> i \<le> u \<and> u < i + length ps
         then st\<lparr>pk_unique_sk_pack_size := Some (len + length (enc_row enc_part (take (u - i) ps) (take (u - i) row)))\<rparr>
         else st)"

lemma add_image_size:
  "add_image p c (st\<lparr>pk_unique_sk_pack_size := x\<rparr>) = (add_image p c st)\<lparr>pk_unique_sk_pack_size := x\<rparr>"
  by (simp add: add_image_def split: prod.split)

lemma add_images_size:
  "add_images ps cs (st\<lparr>pk_unique_sk_pack_size := x\<rparr>) = (add_images ps cs st)\<lparr>pk_unique_sk_pack_size := x\<rparr>"
  by (induction ps cs st rule: add_images.induct) (simp_all add: add_image_size)

lemma add_image_tuple [simp]: "pk_tuple (add_image p c st) = pk_tuple st @ enc_part p c"
  by (simp add: add_image_def split: prod.split)

lemma pack_loop_parts:
  assumes "parts_at tbl kd i ps" "row_ok ps (key_row record ps)"
    and "table_has_hidden_pk (tbl_s tbl) \<and> hid \<noteq> None \<longrightarrow> i + length ps < n"
  shows "pack_loop tbl kd record modsk hid n (length ps + k) i st =
    pack_loop tbl kd record modsk hid n k (i + length ps)
      (mark_size kd modsk i ps (key_row record ps) (length (pk_tuple st)) (add_images ps (key_row record ps) st))"
  using assms
proof (induction ps arbitrary: i st)
  case Nil
  then show ?case by (auto simp: mark_size_def Let_def)
next
  case (Cons p ps)
  let ?c = "record (field_index (fst (snd p)))" and ?row = "key_row record ps" and ?u = "m_unique_sk_only_key_parts kd"
  let ?st = "add_image p ?c (note_size kd modsk i st)"
  have step: "pack_step tbl kd record modsk hid n i st = Some ?st"
    using Cons.prems by (intro pack_step_visible) (auto simp: parts_at_Cons)
  have IH: "pack_loop tbl kd record modsk hid n (length ps + k) (Suc i) ?st =
    pack_loop tbl kd record modsk hid n k (Suc i + length ps)
      (mark_size kd modsk (Suc i) ps ?row (length (pk_tuple ?st)) (add_images ps ?row ?st))"
    using Cons.prems by (intro Cons.IH) (auto simp: parts_at_Cons)
  have "mark_size kd modsk (Suc i) ps ?row (length (pk_tuple ?st)) (add_images ps ?row ?st) =
    mark_size kd modsk i (p # ps) (?c # ?row) (length (pk_tuple st)) (add_images (p # ps) (?c # ?row) st)"
  proof (cases "modsk \<and> i = ?u")
    case True
    then show ?thesis by (simp add: mark_size_def Let_def note_size_def add_image_size add_images_size)
  next
    case False
    then have n: "note_size kd modsk i st = st" by (auto simp: note_size_def)
    show ?thesis
    proof (cases "modsk \<and> i < ?u")
      case True
      then have "?u - i = Suc (?u - Suc i)" by auto
      then show ?thesis unfolding n using True by (simp add: mark_size_def Let_def)
    next
      case f: False
      with False have "\<not> (modsk \<and> i \<le> ?u)" by auto
      then show ?thesis by (auto simp: n mark_size_def Let_def)
    qed
  qed
  then show ?case using step IH by simp
qed

text \<open>The unpack information of a whole record, with its length in front.\<close>

definition key_info_bytes :: "bytes \<Rightarrow> bytes" where
  "key_info_bytes info = (if info = [] then [] else be_bytes 2 ((length info + 2) mod 65536) @ info)"

lemma finish_info:
  "finish_unpack_info \<lparr>wr_data = be_bytes 2 0 @ info\<rparr> = Some \<lparr>wr_data = key_info_bytes info\<rparr>"
proof -
  have "mono_netbuf_store_uint16 (be_bytes 2 0 @ info) 0 (of_nat n) = Some (be_bytes 2 (n mod 65536) @ info)" for n
    by (simp add: mono_netbuf_store_uint16_def memcpy_at_def unsigned_of_nat take_bit_nat_def)
  note store = this [of "length info + 2"]
  show ?thesis
  proof (cases "info = []")
    case True
    then show ?thesis
      by (simp add: finish_unpack_info_def get_current_pos_def MONO_UNPACK_DATA_LEN_SIZE_def wr_clear_def key_info_bytes_def)
  next
    case False
    then have "MONO_UNPACK_DATA_LEN_SIZE < get_current_pos \<lparr>wr_data = be_bytes 2 0 @ info\<rparr>"
      and "get_current_pos \<lparr>wr_data = be_bytes 2 0 @ info\<rparr> = length info + 2"
      by (simp_all add: get_current_pos_def MONO_UNPACK_DATA_LEN_SIZE_def)
    then show ?thesis
      using store False by (simp add: finish_unpack_info_def Let_def write_uint16_at_def key_info_bytes_def)
  qed
qed

text \<open>
  The tail that the hidden primary key adds: its last part is packed from the
  identifier that is passed.
\<close>

definition hidden_tail :: "table \<Rightarrow> bytes option \<Rightarrow> bytes" where
  "hidden_tail tbl hid = (case hid of Some h \<Rightarrow> if table_has_hidden_pk (tbl_s tbl) then h else [] | None \<Rightarrow> [])"

definition hidden_ok :: "table \<Rightarrow> mono_key_def \<Rightarrow> bytes option \<Rightarrow> nat \<Rightarrow> nat \<Rightarrow> bool" where
  "hidden_ok tbl kd hid n m \<longleftrightarrow>
     (if table_has_hidden_pk (tbl_s tbl) \<and> hid \<noteq> None
      then n = m + 1 \<and> m < length (m_pack_info kd) \<and> m_max_image_len (m_pack_info kd ! m) = length (the hid)
      else n = m)"

text \<open>The loop reaches the end of the unique columns, which may be the hidden primary key.\<close>

definition size_noted :: "table \<Rightarrow> mono_key_def \<Rightarrow> bytes option \<Rightarrow> part list \<Rightarrow> bool" where
  "size_noted tbl kd hid ps \<longleftrightarrow>
     m_unique_sk_only_key_parts kd < length ps \<or>
     m_unique_sk_only_key_parts kd = length ps \<and> table_has_hidden_pk (tbl_s tbl) \<and> hid \<noteq> None"

lemma pack_record_image:
  assumes parts: "parts_at tbl kd 0 ps" "row_ok ps (key_row record ps)"
    and hid: "hidden_ok tbl kd hid (pack_n_key_parts tbl kd modsk hid nk) (length ps)"
  shows "\<exists>st. pack_record tbl kd record w modsk hid nk = Some st \<and>
      pk_tuple st = enc_row enc_part ps (key_row record ps) @ hidden_tail tbl hid \<and>
      pk_unpack_info st = map_option (\<lambda>_. \<lparr>wr_data = key_info_bytes (enc_row part_info ps (key_row record ps))\<rparr>) w \<and>
      pk_unique_sk_pack_size st =
        (let u = m_unique_sk_only_key_parts kd
         in if modsk \<and> size_noted tbl kd hid ps
            then Some (length (enc_row enc_part (take u ps) (take u (key_row record ps)))) else None)"
proof -
  let ?n = "pack_n_key_parts tbl kd modsk hid nk" and ?row = "key_row record ps"
  let ?st0 = "\<lparr>pk_tuple = [], pk_unpack_info = map_option (\<lambda>w. write_uint16 0 (wr_clear w)) w,
      pk_n_null_fields = 0, pk_unique_sk_pack_size = None\<rparr>"
  let ?h = "table_has_hidden_pk (tbl_s tbl) \<and> hid \<noteq> None"
  define st1 where "st1 = mark_size kd modsk 0 ps ?row 0 (add_images ps ?row ?st0)"
  define st2 where "st2 = (if ?h then (note_size kd modsk (length ps) st1)\<lparr>pk_tuple := pk_tuple st1 @ the hid\<rparr> else st1)"
  have hn: "?h \<longrightarrow> 0 + length ps < ?n" using hid by (simp add: hidden_ok_def)
  have loop: "pack_loop tbl kd record modsk hid ?n (length ps + k) 0 ?st0 =
      pack_loop tbl kd record modsk hid ?n k (length ps) st1" for k
    using pack_loop_parts [OF parts hn, of modsk k ?st0] by (simp add: st1_def)
  have whole: "pack_loop tbl kd record modsk hid ?n ?n 0 ?st0 = Some st2"
  proof (cases ?h)
    case True
    then have n: "?n = length ps + 1" "length ps < length (m_pack_info kd)" "m_max_image_len (m_pack_info kd ! length ps) = length (the hid)"
      using hid by (simp_all add: hidden_ok_def)
    have "pack_step tbl kd record modsk hid ?n (length ps) st1 = Some st2"
      using True n by (auto simp: pack_step_def nth_opt_less fill_hidden_pk_val_def st2_def note_size_def Let_def)
    then show ?thesis using loop [of 1] n(1) by simp
  next
    case False
    then show ?thesis using loop [of 0] hid by (auto simp: hidden_ok_def st2_def)
  qed
  have len: "length ps = length ?row" by simp
  have info: "pk_unpack_info st2 = map_option (\<lambda>_. \<lparr>wr_data = be_bytes 2 0 @ enc_row part_info ps ?row\<rparr>) w"
    using add_images_sel(2) [OF len, of ?st0]
    by (cases w) (auto simp: st2_def st1_def mark_size_def note_size_def Let_def write_uint16_append wr_clear_def)
  have tuple: "pk_tuple st2 = enc_row enc_part ps ?row @ hidden_tail tbl hid"
    using add_images_sel(1) [OF len, of ?st0]
    by (auto simp: st2_def st1_def mark_size_def Let_def hidden_tail_def split: option.splits)
  have size: "pk_unique_sk_pack_size st2 = (let u = m_unique_sk_only_key_parts kd in if modsk \<and> size_noted tbl kd hid ps
      then Some (length (enc_row enc_part (take u ps) (take u ?row))) else None)"
    using add_images_sel(1) [OF len, of ?st0]
    by (auto simp: st2_def st1_def mark_size_def note_size_def size_noted_def Let_def add_images_sel(3))
  show ?thesis
    using whole info tuple size finish_info [of "enc_row part_info ps ?row"]
    by (cases w) (simp_all add: pack_record_def Let_def)
qed

section \<open>Keys sort like records\<close>

lemma row_ok_wf: "row_ok ps row \<Longrightarrow> list_all2 wf_part ps row"
  by (simp add: row_ok_def)

text \<open>The order of two key images, with what follows them.\<close>

lemma key_image_order:
  assumes "list_all2 wf_part ps as" "list_all2 wf_part ps bs"
  shows "lexlt (enc_row enc_part ps as @ s) (enc_row enc_part ps bs @ t) =
    (if row_lt lt_part ps as bs then True else if row_lt lt_part ps bs as then False else lexlt s t)"
proof -
  note less = key_parts.row_lt_prefix_less [OF assms] key_parts.row_lt_prefix_less [OF assms(2,1)]
  show ?thesis
  proof (cases "row_lt lt_part ps as bs \<or> row_lt lt_part ps bs as")
    case True
    then show ?thesis using less lexlt_asym by metis
  next
    case False
    then show ?thesis using key_parts.row_incomparable [OF assms] by simp
  qed
qed

text \<open>
  C1. Packed keys sort like records: for two records of a table, byte-wise
  comparison of their packed keys is the comparison of the records column by
  column in SQL order (NULL first, numbers by value, strings by collation), over
  all parts of the key; records that agree on them are ordered by their hidden
  primary keys. Packing is defined, whatever the writer for unpack information.
\<close>

theorem key_order:
  assumes "parts_at tbl kd 0 ps" "row_ok ps (key_row ra ps)" "row_ok ps (key_row rb ps)"
    and "hidden_ok tbl kd ha (pack_n_key_parts tbl kd modsk ha nk) (length ps)"
    and "hidden_ok tbl kd hb (pack_n_key_parts tbl kd modsk hb nk) (length ps)"
  shows "\<exists>sa sb. pack_record tbl kd ra wa modsk ha nk = Some sa \<and> pack_record tbl kd rb wb modsk hb nk = Some sb \<and>
    lexlt (pk_tuple sa) (pk_tuple sb) =
      (if row_lt lt_part ps (key_row ra ps) (key_row rb ps) then True
       else if row_lt lt_part ps (key_row rb ps) (key_row ra ps) then False
       else lexlt (hidden_tail tbl ha) (hidden_tail tbl hb))"
  using pack_record_image [OF assms(1,2,4), of wa] pack_record_image [OF assms(1,3,5), of wb]
    key_image_order [OF row_ok_wf [OF assms(2)] row_ok_wf [OF assms(3)]] by auto

text \<open>The sample table, its unique index on the nullable column, and two records.\<close>

definition sample_table :: table where
  "sample_table = \<lparr>tbl_s = sample_share, tbl_key_info = ts_key_info sample_share,
     tbl_field = [sample_column 0 False, sample_column 1 True]\<rparr>"

definition sample_sk :: mono_key_def where
  "sample_sk = \<lparr>m_index_type = INDEX_TYPE_SECONDARY, m_unique_sk_only_key_parts = 1, m_pk_key_parts = 1,
     m_pk_part_no = [None, Some 0], m_pack_info = [sample_part 1 2, sample_part 0 1], m_keyno = 1,
     m_key_parts = 2, m_maxlength = 9\<rparr>"

definition sample_record :: "bytes \<Rightarrow> bytes option \<Rightarrow> rec_buf" where
  "sample_record pk v = (\<lambda>i. if i = 0 then example_cell pk
     else case v of None \<Rightarrow> (example_cell [0, 0, 0, 0])\<lparr>c_null := True\<rparr> | Some b \<Rightarrow> example_cell b)"

definition sample_parts :: "part list" where
  "sample_parts = [(sample_part 1 2, sample_column 1 True, sample_column 1 True),
     (sample_part 0 1, sample_column 0 False, sample_column 0 False)]"

lemmas sample_key_defs = sample_table_def sample_sk_def sample_record_def sample_parts_def sample_defs example_defs

lemma sample_parts_at: "parts_at sample_table sample_sk 0 sample_parts"
  by (simp add: parts_at_def table_part_def get_original_field_in_table_def get_field_in_table_def nth_opt_def
      get_key_part_length_def sample_key_defs All_less_Suc2 less_Suc_eq)

lemma sample_row_ok:
  assumes "length pk = 4" "\<forall>b. v = Some b \<longrightarrow> length b = 4"
  shows "row_ok sample_parts (key_row (sample_record pk v) sample_parts)"
  using assms
  by (cases v) (simp_all add: row_ok_def wf_part_def wf_value_def wf_sort_key_def wf_integer_def info_ready_def key_row_def
      sample_key_defs)

lemma sample_hidden_ok: "hidden_ok sample_table sample_sk None (pack_n_key_parts sample_table sample_sk m None 0) (length sample_parts)"
  by (simp add: hidden_ok_def pack_n_key_parts_def sample_key_defs table_has_hidden_pk_def MAX_INDEXES_def)

theorem key_order_witness:
  "\<exists>sa sb. pack_record sample_table sample_sk (sample_record [7, 0, 0, 0] None) None False None 0 = Some sa \<and>
     pack_record sample_table sample_sk (sample_record [3, 0, 0, 0] (Some [255, 255, 255, 255])) None False None 0 = Some sb \<and>
     lexlt (pk_tuple sa) (pk_tuple sb)"
proof -
  have "row_lt lt_part sample_parts (key_row (sample_record [7, 0, 0, 0] None) sample_parts)
      (key_row (sample_record [3, 0, 0, 0] (Some [255, 255, 255, 255])) sample_parts)"
    by (simp add: lt_part_def key_row_def sample_key_defs)
  then show ?thesis
    using key_order [OF sample_parts_at sample_row_ok sample_row_ok sample_hidden_ok sample_hidden_ok,
        of "[7, 0, 0, 0]" None "[3, 0, 0, 0]" "Some [255, 255, 255, 255]" None False None] by simp
qed

section \<open>The prefix of a unique key\<close>

lemma enc_row_take_append:
  "length ps = length cs \<Longrightarrow> enc_row enc ps cs = enc_row enc (take u ps) (take u cs) @ enc_row enc (drop u ps) (drop u cs)"
proof (induction ps cs arbitrary: u rule: list_induct2)
  case (Cons p ps c cs)
  then show ?case by (cases u) auto
qed simp

lemma key_image_eq_iff:
  assumes "list_all2 wf_part ps as" "list_all2 wf_part ps bs"
  shows "enc_row enc_part ps as = enc_row enc_part ps bs \<longleftrightarrow> \<not> row_lt lt_part ps as bs \<and> \<not> row_lt lt_part ps bs as"
  using key_parts.row_incomparable [OF assms] key_parts.row_less_iff [OF assms] key_parts.row_less_iff [OF assms(2,1)]
  by (metis lexlt_in_irrefl)

lemma key_row_take: "key_row record (take u ps) = take u (key_row record ps)"
  by (simp add: key_row_def take_map)

text \<open>
  C10. The prefix of a unique key identifies the unique columns: when a record of a
  unique index is packed for a write, the size that is reported cuts the packed
  key behind its unique columns, and two records have the same prefix exactly when
  they agree on these columns (under their collations), whatever their primary keys.
\<close>

theorem unique_key_prefix:
  assumes "parts_at tbl kd 0 ps" "row_ok ps (key_row ra ps)" "row_ok ps (key_row rb ps)"
    and "hidden_ok tbl kd ha (pack_n_key_parts tbl kd True ha nk) (length ps)"
    and "hidden_ok tbl kd hb (pack_n_key_parts tbl kd True hb nk) (length ps)"
    and "m_unique_sk_only_key_parts kd = u" "size_noted tbl kd ha ps" "size_noted tbl kd hb ps"
  shows "\<exists>sa sb m n. pack_record tbl kd ra wa True ha nk = Some sa \<and> pack_record tbl kd rb wb True hb nk = Some sb \<and>
    pk_unique_sk_pack_size sa = Some m \<and> pk_unique_sk_pack_size sb = Some n \<and>
    m \<le> length (pk_tuple sa) \<and>
    (take m (pk_tuple sa) = take n (pk_tuple sb) \<longleftrightarrow>
       \<not> row_lt lt_part (take u ps) (key_row ra (take u ps)) (key_row rb (take u ps)) \<and>
       \<not> row_lt lt_part (take u ps) (key_row rb (take u ps)) (key_row ra (take u ps)))"
proof -
  let ?e = "\<lambda>r. enc_row enc_part (take u ps) (key_row r (take u ps))"
  have wf: "list_all2 wf_part (take u ps) (key_row ra (take u ps))" "list_all2 wf_part (take u ps) (key_row rb (take u ps))"
    using assms(2,3) by (auto simp: row_ok_def key_row_take)
  have cut: "take (length (?e r)) (enc_row enc_part ps (key_row r ps) @ t) = ?e r"
    "length (?e r) \<le> length (enc_row enc_part ps (key_row r ps) @ t)" for r t
    using enc_row_take_append [of ps "key_row r ps" enc_part u] by (simp_all add: key_row_take)
  obtain sa where a: "pack_record tbl kd ra wa True ha nk = Some sa"
    "pk_tuple sa = enc_row enc_part ps (key_row ra ps) @ hidden_tail tbl ha" "pk_unique_sk_pack_size sa = Some (length (?e ra))"
    using pack_record_image [OF assms(1,2,4), of wa] assms(6,7) by (auto simp: key_row_take Let_def)
  obtain sb where b: "pack_record tbl kd rb wb True hb nk = Some sb"
    "pk_tuple sb = enc_row enc_part ps (key_row rb ps) @ hidden_tail tbl hb" "pk_unique_sk_pack_size sb = Some (length (?e rb))"
    using pack_record_image [OF assms(1,3,5), of wb] assms(6,8) by (auto simp: key_row_take Let_def)
  have "take (length (?e ra)) (pk_tuple sa) = ?e ra" "take (length (?e rb)) (pk_tuple sb) = ?e rb"
    "length (?e ra) \<le> length (pk_tuple sa)" unfolding a(2) b(2) by (rule cut)+
  then show ?thesis using a(1,3) b(1,3) key_image_eq_iff [OF wf] by metis
qed

theorem unique_key_prefix_witness:
  "\<exists>sa sb m. pack_record sample_table sample_sk (sample_record [7, 0, 0, 0] (Some [5, 0, 0, 0])) None True None 0 = Some sa \<and>
     pack_record sample_table sample_sk (sample_record [3, 0, 0, 0] (Some [5, 0, 0, 0])) None True None 0 = Some sb \<and>
     pk_unique_sk_pack_size sa = Some m \<and> take m (pk_tuple sa) = take m (pk_tuple sb)"
proof -
  let ?a = "sample_record [7, 0, 0, 0] (Some [5, 0, 0, 0])" and ?b = "sample_record [3, 0, 0, 0] (Some [5, 0, 0, 0])"
  have u: "m_unique_sk_only_key_parts sample_sk = 1" "size_noted sample_table sample_sk None sample_parts"
    "size_noted sample_table sample_sk None sample_parts" by (simp_all add: size_noted_def sample_key_defs)
  have ok: "row_ok sample_parts (key_row ?a sample_parts)" "row_ok sample_parts (key_row ?b sample_parts)"
    by (simp_all add: sample_row_ok)
  have eq: "key_row ?a (take 1 sample_parts) = key_row ?b (take 1 sample_parts)"
    "\<not> row_lt lt_part (take 1 sample_parts) (key_row ?b (take 1 sample_parts)) (key_row ?b (take 1 sample_parts))"
    by (simp_all add: key_row_def lt_part_def lt_value_def lt_sort_key_def lt_integer_def sample_key_defs)
  have sizes: "length (enc_part (hd sample_parts) (?a 1)) = length (enc_part (hd sample_parts) (?b 1))"
    by (simp add: sample_key_defs)
  obtain sa sb m n where s: "pack_record sample_table sample_sk ?a None True None 0 = Some sa"
    "pack_record sample_table sample_sk ?b None True None 0 = Some sb" "pk_unique_sk_pack_size sa = Some m"
    "pk_unique_sk_pack_size sb = Some n" "take m (pk_tuple sa) = take n (pk_tuple sb)" "m \<le> length (pk_tuple sa)"
    using unique_key_prefix [OF sample_parts_at ok sample_hidden_ok sample_hidden_ok u, of None None] eq by auto
  have "m = n"
    using s(1-4) pack_record_image [OF sample_parts_at ok(1) sample_hidden_ok, of None True]
      pack_record_image [OF sample_parts_at ok(2) sample_hidden_ok, of None True] u eq(1)
    by (auto simp: Let_def key_row_take)
  with s show ?thesis by blast
qed

section \<open>The length of packed keys\<close>

lemma those_map_nth: "those (map f xs) = Some ys \<Longrightarrow> length ys = length xs \<and> (\<forall>i < length xs. f (xs ! i) = Some (ys ! i))"
proof (induction xs arbitrary: ys)
  case (Cons x xs)
  then show ?case by (cases "f x"; cases "those (map f xs)") (auto simp: All_less_Suc2)
qed simp

lemma length_enc_row:
  "length ps = length cs \<Longrightarrow> (\<forall>i < length ps. length (enc (ps ! i) (cs ! i)) \<le> b (ps ! i)) \<Longrightarrow>
   length (enc_row enc ps cs) \<le> sum_list (map b ps)"
proof (induction ps cs rule: list_induct2)
  case (Cons p ps c cs)
  then show ?case by (auto simp: All_less_Suc2 intro: add_mono)
qed simp

text \<open>A value within the bounds that its column's collation announces.\<close>

definition slot_ok :: "field \<Rightarrow> part \<Rightarrow> cell \<Rightarrow> bool" where
  "slot_ok f p c = (case p of (fpi, pf, sf) \<Rightarrow>
     real_maybe_null pf = real_maybe_null f \<and>
     length (varchar_xfrm fpi pf c) \<le> cs_strnxfrmlen (field_charset f) (field_length f) \<and>
     length (space_pad_xfrm fpi pf c) \<le> cs_strnxfrmlen (field_charset f) (field_length f) \<and>
     0 < cs_strnxfrmlen (field_charset f) (field_length f))"

text \<open>Packing does not read the offset that the setup of the index sets.\<close>

abbreviation no_offset :: "mono_field_packing \<Rightarrow> mono_field_packing" where
  "no_offset fpi \<equiv> fpi\<lparr>m_unpack_data_offset := 0\<rparr>"

lemma xfrm_offset:
  "varchar_xfrm (no_offset fpi) = varchar_xfrm fpi" "space_pad_xfrm (no_offset fpi) = space_pad_xfrm fpi"
  by (simp_all add: varchar_xfrm_def space_pad_xfrm_def fun_eq_iff)

lemma image_offset:
  "pack_with_make_sort_key (no_offset fpi) = pack_with_make_sort_key fpi" "pack_blob (no_offset fpi) = pack_blob fpi"
  "pack_with_varchar_encoding (no_offset fpi) = pack_with_varchar_encoding fpi"
  "pack_with_varchar_space_pad (no_offset fpi) f c None = pack_with_varchar_space_pad fpi f c None"
  by (simp_all add: pack_with_make_sort_key_def pack_blob_def pack_with_varchar_encoding_def pack_with_varchar_space_pad_def
      xfrm_offset fun_eq_iff split: option.split)

lemma part_image_offset: "part_image (no_offset fpi, pf, sf) = part_image (fpi, pf, sf)"
  by (auto simp: part_image_def pack_part_def image_offset fun_eq_iff split: option.split pack_func.split)

lemma wf_offset:
  "wf_integer (no_offset fpi) = wf_integer fpi" "wf_float (no_offset fpi) = wf_float fpi"
  "wf_bit (no_offset fpi) = wf_bit fpi" "wf_unsigned (no_offset fpi) = wf_unsigned fpi"
  "wf_memcpy (no_offset fpi) = wf_memcpy fpi" "wf_fixed_image (no_offset fpi) = wf_fixed_image fpi"
  "wf_varchar (no_offset fpi) = wf_varchar fpi" "wf_space_pad (no_offset fpi) = wf_space_pad fpi"
  by (simp_all add: wf_integer_def wf_float_def wf_bit_def wf_unsigned_def wf_memcpy_def wf_fixed_image_def fixed_image_def
      wf_varchar_def wf_space_pad_def wf_spaces_def space_unit_def xfrm_offset image_offset fun_eq_iff split: option.split)

lemma wf_part_offset: "wf_part (no_offset fpi, pf, sf) c = wf_part (fpi, pf, sf) c"
  by (simp add: wf_part_def wf_value_def wf_sort_key_def wf_offset xfrm_offset split: option.split pack_func.split)

lemma slot_bound:
  assumes "layout_fpi raw (keyno, i, Some q) = Some fpi" "wf_part (fpi, pf, sf) c" "slot_ok (kp_field q) (fpi, pf, sf) c"
  shows "length (enc_part (fpi, pf, sf) c) \<le> part_max_len fpi"
proof -
  obtain b g where g: "packing_setup True (Some (kp_field q)) keyno i (kp_length q) raw = Some (b, g)" "fpi = no_offset g"
    using assms(1) by (auto simp: layout_fpi_def)
  have e: "enc_part (no_offset g, pf, sf) c = enc_part (g, pf, sf) c" "part_max_len (no_offset g) = part_max_len g"
    by (simp_all add: enc_part_def part_image_offset part_max_len_def)
  show ?thesis
    using part_image_le [OF g(1)] assms(2,3) unfolding g(2) e by (simp add: slot_ok_def wf_part_offset xfrm_offset)
qed

lemma key_def_setup_Some:
  assumes "share_ok s kd0 k pk" "m_maxlength kd0 = 0" "m_index_type kd0 \<noteq> INDEX_TYPE_HIDDEN_PRIMARY"
    "key_def_setup raw s kd0 = Some kd"
  shows "\<exists>fpis. those (map (layout_fpi raw) (key_layout s kd0 k pk)) = Some fpis \<and> m_pack_info kd = fpis \<and>
    m_maxlength kd = sum_list (map part_max_len fpis) \<and> m_key_parts kd = length fpis"
  using key_def_setup_eq [OF assms(1-3), of raw] assms(4)
  by (cases "those (map (layout_fpi raw) (key_layout s kd0 k pk))") auto

text \<open>
  C11. Packed keys fit the reserved space: if an index is set up from the table
  share and a record's values are within the bounds of their columns, packing the
  record is defined and the packed key, with the hidden primary key if there is
  one, is not longer than the maximal length that setup computed.
\<close>

theorem packed_key_bound:
  assumes init: "share_ok s kd0 k pk" "m_maxlength kd0 = 0" "m_index_type kd0 \<noteq> INDEX_TYPE_HIDDEN_PRIMARY"
      "key_def_setup raw s kd0 = Some kd"
    and rec: "parts_at tbl kd 0 ps" "row_ok ps (key_row record ps)"
      "hidden_ok tbl kd hid (pack_n_key_parts tbl kd modsk hid nk) (length ps)"
    and slots: "\<forall>i < length ps. \<exists>keyno j q. key_layout s kd0 k pk ! i = (keyno, j, Some q) \<and>
      slot_ok (kp_field q) (ps ! i) (key_row record ps ! i)"
  shows "\<exists>st. pack_record tbl kd record w modsk hid nk = Some st \<and> length (pk_tuple st) \<le> m_maxlength kd"
proof -
  let ?L = "key_layout s kd0 k pk" and ?row = "key_row record ps"
  obtain fpis where f: "those (map (layout_fpi raw) ?L) = Some fpis" "m_pack_info kd = fpis"
    "m_maxlength kd = sum_list (map part_max_len fpis)"
    using key_def_setup_Some [OF init] by blast
  note nth = those_map_nth [OF f(1)]
  have len: "length ps \<le> length fpis" using rec(1) f(2) by (simp add: parts_at_def)
  have b: "length (enc_part (ps ! i) (?row ! i)) \<le> part_max_len (fst (ps ! i)) \<and> fst (ps ! i) = fpis ! i"
    if i: "i < length ps" for i
  proof -
    obtain keyno j q where q: "?L ! i = (keyno, j, Some q)" "slot_ok (kp_field q) (ps ! i) (?row ! i)"
      using slots i by blast
    obtain pf sf where p: "ps ! i = (fpis ! i, pf, sf)"
      using part_fst [OF rec(1) i] f(2) by (cases "ps ! i") auto
    have "layout_fpi raw (keyno, j, Some q) = Some (fpis ! i)" using nth i len q(1) by (metis less_le_trans)
    moreover have "wf_part (ps ! i) (?row ! i)" using rec(2) i by (auto simp: row_ok_def list_all2_conv_all_nth)
    ultimately show ?thesis using slot_bound q(2) p by simp
  qed
  have "map fst ps = take (length ps) fpis" using b len by (intro nth_equalityI) auto
  then have sums: "map (\<lambda>p. part_max_len (fst p)) ps = map part_max_len (take (length ps) fpis)"
    using map_map [of part_max_len fst ps] by (simp add: o_def)
  have e: "length (enc_row enc_part ps ?row) \<le> sum_list (map part_max_len (take (length ps) fpis))"
    unfolding sums [symmetric] by (rule length_enc_row) (simp, use b in blast)
  have "length (hidden_tail tbl hid) \<le> sum_list (map part_max_len (drop (length ps) fpis))"
  proof (cases "table_has_hidden_pk (tbl_s tbl) \<and> hid \<noteq> None")
    case True
    then have "length ps < length fpis" "m_max_image_len (fpis ! length ps) = length (the hid)"
      using rec(3) f(2) by (simp_all add: hidden_ok_def)
    then show ?thesis using True
      by (auto simp: Cons_nth_drop_Suc [symmetric] hidden_tail_def part_max_len_def)
  next
    case False
    then show ?thesis by (auto simp: hidden_tail_def split: option.splits)
  qed
  moreover have "sum_list (map part_max_len fpis) =
      sum_list (map part_max_len (take (length ps) fpis)) + sum_list (map part_max_len (drop (length ps) fpis))"
    by (metis append_take_drop_id map_append sum_list.append)
  ultimately show ?thesis using pack_record_image [OF rec, of w] e f(3) by auto
qed

lemma sample_setup:
  "key_def_setup (example_packing 0 Unpack_integer) sample_share (new_key_def sample_raw_key 1 INDEX_TYPE_SECONDARY) =
   Some sample_sk"
proof -
  have l: "key_layout sample_share (new_key_def sample_raw_key 1 INDEX_TYPE_SECONDARY)
      (sample_key [sample_column 1 True]) (Some (sample_key [sample_column 0 False])) =
      [(1, 0, Some \<lparr>kp_field = sample_column 1 True, kp_length = 4\<rparr>), (0, 0, Some \<lparr>kp_field = sample_column 0 False, kp_length = 4\<rparr>)]"
    by (simp add: key_layout_def sample_defs found_in_key_def example_field_def)
  show ?thesis
    using key_def_setup_eq [OF sample_share_ok, of "example_packing 0 Unpack_integer"] unfolding l
    by (simp add: layout_fpi_def packing_setup_def setup_defaults_def layout_pk_no_def part_max_len_def sample_key_defs)
qed

theorem packed_key_bound_witness:
  "\<exists>st. pack_record sample_table sample_sk (sample_record [7, 0, 0, 0] None) None True None 0 = Some st \<and>
     length (pk_tuple st) \<le> m_maxlength sample_sk"
proof -
  let ?r = "sample_record [7, 0, 0, 0] None"
  have new: "m_maxlength (new_key_def sample_raw_key 1 INDEX_TYPE_SECONDARY) = 0"
    "m_index_type (new_key_def sample_raw_key 1 INDEX_TYPE_SECONDARY) \<noteq> INDEX_TYPE_HIDDEN_PRIMARY"
    by (simp_all add: sample_defs)
  have ok: "row_ok sample_parts (key_row ?r sample_parts)" by (simp add: sample_row_ok)
  have slots: "\<forall>i < length sample_parts. \<exists>keyno j q.
      key_layout sample_share (new_key_def sample_raw_key 1 INDEX_TYPE_SECONDARY)
        (sample_key [sample_column 1 True]) (Some (sample_key [sample_column 0 False])) ! i = (keyno, j, Some q) \<and>
      slot_ok (kp_field q) (sample_parts ! i) (key_row ?r sample_parts ! i)"
    by (auto simp: less_Suc_eq key_layout_def found_in_key_def slot_ok_def key_row_def varchar_xfrm_def space_pad_xfrm_def
        my_strnxfrm_8bit_bin_def my_strnxfrmlen_simple_def char_length_def varchar_data_def my_charset_bin_def sample_key_defs)
  show ?thesis
    by (rule packed_key_bound [OF sample_share_ok new sample_setup sample_parts_at ok sample_hidden_ok slots])
qed

end
