(* ===== verification/Part_Unpack.thy ===== *)
theory Part_Unpack
  imports Key_Pack
begin

text \<open>
  One contract for unpacking: the unpack function that a descriptor selects
  rebuilds a value from the image that its pack function writes and from the
  unpack information that goes with it, for every column family. The families'
  contracts are brought together here behind the function pointers.
\<close>

section \<open>Values that can be rebuilt\<close>

fun wf_unpack :: "unpack_func \<Rightarrow> mono_field_packing \<Rightarrow> field \<Rightarrow> cell \<Rightarrow> bool" where
  "wf_unpack Unpack_integer fpi f v = wf_integer fpi f v"
| "wf_unpack Unpack_unsigned fpi f v = (wf_unsigned fpi f v \<and> real_type f \<noteq> MYSQL_TYPE_NEWDATE)"
| "wf_unpack Unpack_newdate fpi f v = (wf_unsigned fpi f v \<and> real_type f = MYSQL_TYPE_NEWDATE)"
| "wf_unpack Unpack_double fpi f v = (wf_float_exact fpi f v \<and> real_type f = MYSQL_TYPE_DOUBLE)"
| "wf_unpack Unpack_float fpi f v = (wf_float_exact fpi f v \<and> real_type f \<noteq> MYSQL_TYPE_DOUBLE)"
| "wf_unpack Unpack_binary_str fpi f v = wf_memcpy fpi f v"
| "wf_unpack Unpack_bit fpi f v = wf_bit fpi f v"
| "wf_unpack Unpack_binary_or_utf8_varchar fpi f v = wf_varbinary fpi f v"
| "wf_unpack Unpack_binary_varchar_space_pad fpi f v = wf_space_pad_text 1 fpi f v"
| "wf_unpack Unpack_utf8_varchar_space_pad fpi f v = wf_space_pad_text 2 fpi f v"
| "wf_unpack Unpack_utf8mb4_varchar_space_pad fpi f v = wf_space_pad_text 3 fpi f v"
| "wf_unpack Unpack_utf8_str fpi f v = wf_utf8_char 2 fpi f v"
| "wf_unpack Unpack_utf8mb4_str fpi f v = wf_utf8_char 3 fpi f v"
| "wf_unpack Unpack_unknown fpi f v = wf_unknown_char fpi f v"
| "wf_unpack Unpack_unknown_varchar fpi f v =
     (if m_pack_func fpi = Some Pack_varchar_space_pad then wf_space_pad fpi f v else wf_varchar fpi f v)"
| "wf_unpack Unpack_simple_varchar_space_pad fpi f v = wf_simple_varchar fpi f v"
| "wf_unpack Unpack_simple fpi f v = wf_simple_char fpi f v"

text \<open>The size of the destination and what it means that the value came back.\<close>

fun unpack_dest :: "unpack_func \<Rightarrow> mono_field_packing \<Rightarrow> field \<Rightarrow> nat" where
  "unpack_dest Unpack_bit fpi f = bytes_in_rec f"
| "unpack_dest Unpack_unknown fpi f = m_unpack_data_len fpi"
| "unpack_dest u fpi f =
     (if u \<in> {Unpack_integer, Unpack_unsigned, Unpack_newdate, Unpack_double, Unpack_float, Unpack_binary_str, Unpack_simple}
      then m_max_image_len fpi else field_pack_length f)"

fun same_value :: "unpack_func \<Rightarrow> field \<Rightarrow> cell \<Rightarrow> cell \<Rightarrow> bool" where
  "same_value Unpack_bit f v c = same_bits f v c"
| "same_value u f v c =
     (if u \<in> {Unpack_binary_or_utf8_varchar, Unpack_binary_varchar_space_pad, Unpack_utf8_varchar_space_pad,
             Unpack_utf8mb4_varchar_space_pad, Unpack_unknown_varchar, Unpack_simple_varchar_space_pad}
      then same_varchar f v c else same_image v c)"

definition value_info :: "mono_field_packing \<Rightarrow> field \<Rightarrow> cell \<Rightarrow> bytes" where
  "value_info fpi f v =
     (if m_pack_func fpi = Some Pack_varchar_space_pad then space_pad_info fpi f v else []) @ make_info fpi f v"

definition value_image :: "mono_field_packing \<Rightarrow> field \<Rightarrow> cell \<Rightarrow> bytes" where
  "value_image fpi f v = part_image (fpi, f, f) v"

section \<open>The contract\<close>

lemma unpack_codec_restrict:
  assumes "unpack_codec wf0 dest enc info unpack same"
    and "\<And>v. wf' v \<Longrightarrow> wf0 v \<and> enc' v = enc v \<and> info' v = info v \<and> unpack' = unpack" "dest' = dest" "same' = same"
  shows "unpack_codec wf' dest' enc' info' unpack' same'"
proof (rule unpack_codec.intro)
  fix v c r rest ur urest
  assume a: "wf' v" "dest' c" "rd_at r (enc' v @ rest)" "info_at ur (info' v @ urest)"
  show "\<exists>c' ur'. unpack' c r ur = Some (c', rd_adv (length (enc' v)) r, ur') \<and> same' v c' \<and> info_at ur' urest"
    using unpack_codec.unpack_enc [OF assms(1), of v c r rest ur urest] a assms(2) [OF a(1)] assms(3,4) by simp
qed

lemma make_info_none: "\<not> uses_unpack_info fpi \<Longrightarrow> make_info fpi f v = []"
  by (simp add: make_info_def)

text \<open>Parts with a sort image and no unpack information, and the others with a sort image.\<close>

lemma sort_key_view:
  assumes "m_pack_func fpi = Some Pack_make_sort_key"
  shows "value_image fpi f v = pack_with_make_sort_key fpi f v" "fixed_image fpi f v = pack_with_make_sort_key fpi f v"
    "value_info fpi f v = make_info fpi f v"
  using assms by (simp_all add: value_image_def part_image_def pack_part_def fixed_image_def value_info_def)

lemma varchar_view:
  assumes "m_pack_func fpi = Some Pack_varchar_encoding"
  shows "value_image fpi f v = pack_with_varchar_encoding fpi f v" "value_info fpi f v = make_info fpi f v"
  using assms by (simp_all add: value_image_def part_image_def pack_part_def value_info_def)

lemma space_pad_view:
  assumes "m_pack_func fpi = Some Pack_varchar_space_pad"
  shows "value_image fpi f v = space_pad_image fpi f v" "value_info fpi f v = space_pad_info fpi f v @ make_info fpi f v"
  using assms by (simp_all add: value_image_def part_image_def pack_part_def space_pad_image_def value_info_def)

text \<open>What the unpack information functions add.\<close>

lemma make_info_cases:
  "m_make_unpack_info_func fpi = Some Make_unpack_dummy \<Longrightarrow> make_info fpi f v = []"
  "m_make_unpack_info_func fpi = Some Make_unpack_unknown \<Longrightarrow> make_info fpi f v = unknown_char_info f v"
  "m_make_unpack_info_func fpi = Some Make_unpack_unknown_varchar \<Longrightarrow> make_info fpi f v = unknown_varchar_info f v"
  "m_make_unpack_info_func fpi = Some Make_unpack_simple \<Longrightarrow> make_info fpi f v = simple_char_info fpi f v"
  by (simp_all add: make_info_def uses_unpack_info_def make_unpack_part_def dummy_make_unpack_info_def empty_writer_def
      unknown_char_info_def unknown_varchar_info_def simple_char_info_def split: option.split)

lemma simple_varchar_info_split:
  assumes "wf_space_pad fpi f v" "info_ready fpi" "m_pack_func fpi = Some Pack_varchar_space_pad"
    "m_make_unpack_info_func fpi = Some Make_unpack_simple_varchar"
  shows "simple_varchar_info fpi f v = space_pad_info fpi f v @ make_info fpi f v"
proof -
  obtain codec where codec: "m_charset_codec fpi = Some codec"
    using assms(2,4) by (auto simp: info_ready_def)
  obtain p sp n where p: "m_segment_size fpi = Suc p" "space_xfrm fpi = Some sp"
    "space_pad_loop (Suc p) sp (space_pad_xfrm fpi f v) = Some (space_pad_image fpi f v, n)"
    using space_pad_image_loop [OF assms(1)] by metis
  show ?thesis
    using codec p assms(2-4)
    by (auto simp: simple_varchar_info_def space_pad_info_def pack_with_varchar_space_pad_def make_info_def
        uses_unpack_info_def make_unpack_part_def make_unpack_simple_varchar_def write_simple_appends empty_writer_def
        info_ready_def Let_def)
qed

lemma stored_value_no_spaces:
  assumes "m_unpack_info_stores_value fpi"
  shows "space_pad_info fpi f v = []"
  using assms
  by (auto simp: space_pad_info_def pack_with_varchar_space_pad_def empty_writer_def split: option.split)

definition unpack_ready :: "unpack_func \<Rightarrow> mono_field_packing \<Rightarrow> bool" where
  "unpack_ready u fpi \<longleftrightarrow> m_unpack_func fpi = Some u \<and> unpack_fits fpi \<and> skip_fits fpi \<and> info_ready fpi"

lemma plain_sort_key:
  assumes "unpack_ready u fpi"
    and "u \<in> {Unpack_integer, Unpack_unsigned, Unpack_newdate, Unpack_double, Unpack_float, Unpack_binary_str, Unpack_bit,
           Unpack_utf8_str, Unpack_utf8mb4_str}"
  shows "m_pack_func fpi = Some Pack_make_sort_key" "\<not> uses_unpack_info fpi"
  using assms by (auto simp: unpack_ready_def unpack_fits_def)

lemma fixed_unpack_codec:
  assumes "unpack_ready u fpi"
    and "u \<in> {Unpack_integer, Unpack_unsigned, Unpack_newdate, Unpack_double, Unpack_float, Unpack_binary_str, Unpack_bit,
           Unpack_utf8_str, Unpack_utf8mb4_str}"
  shows "unpack_codec (wf_unpack u fpi f) (dest_len (unpack_dest u fpi f)) (value_image fpi f) (value_info fpi f)
    (unpack_part fpi f) (same_value u f)"
proof -
  note pk = plain_sort_key [OF assms]
  have u: "m_unpack_func fpi = Some u" using assms(1) by (simp add: unpack_ready_def)
  note view = sort_key_view [OF pk(1)] make_info_none [OF pk(2)] u
  note rules = unpack_codec_restrict [OF integer_unpack.unpack_codec_axioms [of fpi f]]
    unpack_codec_restrict [OF unsigned_unpack.unpack_codec_axioms [of fpi f]]
    unpack_codec_restrict [OF float_unpack.unpack_codec_axioms [of fpi f]]
    unpack_codec_restrict [OF memcpy_unpack.unpack_codec_axioms [of fpi f]]
    unpack_codec_restrict [OF bit_unpack.unpack_codec_axioms [of fpi f]]
    unpack_codec_restrict [OF utf8_char_unpack.unpack_codec_axioms [of 2 fpi f]]
    unpack_codec_restrict [OF utf8_char_unpack.unpack_codec_axioms [of 3 fpi f]]
  show ?thesis
  proof (cases u)
    case Unpack_integer
    then show ?thesis by (intro rules(1)) (auto simp: view unpack_part_def fun_eq_iff)
  next
    case Unpack_unsigned
    then show ?thesis by (intro rules(2)) (auto simp: view unpack_part_def fun_eq_iff)
  next
    case Unpack_newdate
    then show ?thesis by (intro rules(2)) (auto simp: view unpack_part_def fun_eq_iff)
  next
    case Unpack_double
    then show ?thesis by (intro rules(3)) (auto simp: view unpack_part_def fun_eq_iff)
  next
    case Unpack_float
    then show ?thesis by (intro rules(3)) (auto simp: view unpack_part_def fun_eq_iff)
  next
    case Unpack_binary_str
    then show ?thesis by (intro rules(4)) (auto simp: view unpack_part_def fun_eq_iff)
  next
    case Unpack_bit
    then show ?thesis by (intro rules(5)) (auto simp: view unpack_part_def fun_eq_iff)
  next
    case Unpack_utf8_str
    then show ?thesis by (intro rules(6)) (auto simp: view unpack_part_def fun_eq_iff)
  next
    case Unpack_utf8mb4_str
    then show ?thesis by (intro rules(7)) (auto simp: view unpack_part_def fun_eq_iff)
  qed (use assms(2) in auto)
qed

lemma char_unpack_codec:
  assumes "unpack_ready u fpi" "u = Unpack_unknown \<or> u = Unpack_simple"
  shows "unpack_codec (wf_unpack u fpi f) (dest_len (unpack_dest u fpi f)) (value_image fpi f) (value_info fpi f)
    (unpack_part fpi f) (same_value u f)"
proof -
  have pk: "m_pack_func fpi = Some Pack_make_sort_key" and u: "m_unpack_func fpi = Some u"
    using assms by (auto simp: unpack_ready_def unpack_fits_def)
  note view = sort_key_view [OF pk] u
  show ?thesis
    using assms(2)
  proof
    assume ty: "u = Unpack_unknown"
    then have "m_make_unpack_info_func fpi = Some Make_unpack_unknown" using assms(1) by (auto simp: unpack_ready_def unpack_fits_def)
    then show ?thesis using ty
      by (intro unpack_codec_restrict [OF unknown_char_unpack.unpack_codec_axioms [of fpi f]])
        (auto simp: view make_info_cases unpack_part_def fun_eq_iff)
  next
    assume ty: "u = Unpack_simple"
    then have "m_make_unpack_info_func fpi = Some Make_unpack_simple" using assms(1) by (auto simp: unpack_ready_def unpack_fits_def)
    then show ?thesis using ty
      by (intro unpack_codec_restrict [OF simple_char_unpack.unpack_codec_axioms [of fpi f]])
        (auto simp: view make_info_cases unpack_part_def fun_eq_iff)
  qed
qed

lemma space_pad_unpack_codec:
  assumes "unpack_ready u fpi"
    and "u \<in> {Unpack_binary_varchar_space_pad, Unpack_utf8_varchar_space_pad, Unpack_utf8mb4_varchar_space_pad,
           Unpack_simple_varchar_space_pad}"
  shows "unpack_codec (wf_unpack u fpi f) (dest_len (unpack_dest u fpi f)) (value_image fpi f) (value_info fpi f)
    (unpack_part fpi f) (same_value u f)"
proof -
  have pk: "m_pack_func fpi = Some Pack_varchar_space_pad" and u: "m_unpack_func fpi = Some u"
    and mk: "m_make_unpack_info_func fpi =
      Some (if u = Unpack_simple_varchar_space_pad then Make_unpack_simple_varchar else Make_unpack_dummy)"
    using assms by (auto simp: unpack_ready_def unpack_fits_def)
  note view = space_pad_view [OF pk] u
  show ?thesis
  proof (cases "u = Unpack_simple_varchar_space_pad")
    case True
    then have "value_info fpi f v = simple_varchar_info fpi f v" if "wf_simple_varchar fpi f v" for v
      using simple_varchar_info_split [of fpi f v] that pk mk assms(1)
      by (simp add: view wf_simple_varchar_def unpack_ready_def)
    then show ?thesis using True
      by (intro unpack_codec_restrict [OF simple_varchar_unpack.unpack_codec_axioms [of fpi f]])
        (auto simp: view(1,3) unpack_part_def fun_eq_iff)
  next
    case False
    then have i: "value_info fpi f v = space_pad_info fpi f v" for v using mk by (simp add: view make_info_cases)
    define b where "b = (if u = Unpack_binary_varchar_space_pad then 1 else if u = Unpack_utf8_varchar_space_pad then 2 else 3 :: nat)"
    show ?thesis using False assms(2)
      by (intro unpack_codec_restrict [OF space_pad_unpack.unpack_codec_axioms [of b fpi f]])
        (auto simp: i view(1,3) unpack_part_def b_def fun_eq_iff)
  qed
qed

lemma varchar_unpack_codec:
  assumes "unpack_ready u fpi" "u = Unpack_binary_or_utf8_varchar \<or> u = Unpack_unknown_varchar"
  shows "unpack_codec (wf_unpack u fpi f) (dest_len (unpack_dest u fpi f)) (value_image fpi f) (value_info fpi f)
    (unpack_part fpi f) (same_value u f)"
proof -
  have u: "m_unpack_func fpi = Some u" using assms(1) by (simp add: unpack_ready_def)
  show ?thesis
    using assms(2)
  proof
    assume ty: "u = Unpack_binary_or_utf8_varchar"
    then have pk: "m_pack_func fpi = Some Pack_varchar_encoding" "\<not> uses_unpack_info fpi"
      using assms(1) by (auto simp: unpack_ready_def unpack_fits_def)
    then show ?thesis using ty u
      by (intro unpack_codec_restrict [OF varbinary_unpack.unpack_codec_axioms [of fpi f]])
        (auto simp: varchar_view make_info_none unpack_part_def fun_eq_iff)
  next
    assume ty: "u = Unpack_unknown_varchar"
    then have pk: "m_pack_func fpi = Some Pack_varchar_space_pad \<or> m_pack_func fpi = Some Pack_varchar_encoding"
      and mk: "m_make_unpack_info_func fpi = Some Make_unpack_unknown_varchar" "m_unpack_info_stores_value fpi"
      using assms(1) by (auto simp: unpack_ready_def unpack_fits_def)
    show ?thesis
      using pk
    proof
      assume sp: "m_pack_func fpi = Some Pack_varchar_space_pad"
      then have "m_skip_func fpi = Skip_variable_space_pad" using assms(1) by (auto simp: unpack_ready_def skip_fits_def)
      then show ?thesis using ty u sp mk
        by (intro unpack_codec_restrict [OF unknown_varchar_unpack.unpack_codec_axioms [of fpi f]])
          (auto simp: space_pad_view stored_value_no_spaces make_info_cases unpack_part_def fun_eq_iff)
    next
      assume en: "m_pack_func fpi = Some Pack_varchar_encoding"
      then have "m_skip_func fpi = Skip_variable_length" using assms(1) by (auto simp: unpack_ready_def skip_fits_def)
      then show ?thesis using ty u en mk
        by (intro unpack_codec_restrict [OF unknown_nopad_unpack.unpack_codec_axioms [of fpi f]])
          (auto simp: varchar_view make_info_cases unpack_part_def fun_eq_iff)
    qed
  qed
qed

lemma value_unpack_codec:
  assumes "unpack_ready u fpi"
  shows "unpack_codec (wf_unpack u fpi f) (dest_len (unpack_dest u fpi f)) (value_image fpi f) (value_info fpi f)
    (unpack_part fpi f) (same_value u f)"
  using fixed_unpack_codec [OF assms] char_unpack_codec [OF assms] space_pad_unpack_codec [OF assms]
    varchar_unpack_codec [OF assms] by (cases u) auto

end
