(* ===== verification/Key_Unpack.thy ===== *)
theory Key_Unpack
  imports Part_Unpack
begin

text \<open>
  \<open>mono_key_def::unpack_record\<close>, the iterator over the parts of a key and the
  decoders it calls: a record is rebuilt from its key and the unpack information.
\<close>

section \<open>Unpacking\<close>

text \<open>
  The error code of the decoders; \<open>UNDEFINED\<close> stands for an access outside an
  array of the table.
\<close>

datatype key_error = HA_ERR_TABLE_CORRUPT | UNDEFINED

text \<open>
  \<open>decode_field\<close>: a NULL byte sets the NULL bit and copies the default value of
  the column. The results are the column and both readers.
\<close>

definition decode_field ::
  "mono_field_packing \<Rightarrow> field \<Rightarrow> cell \<Rightarrow> mono_string_reader \<Rightarrow> cell \<Rightarrow> mono_string_reader option \<Rightarrow> unpack_result" where
  "decode_field fpi f c reader default_value unpack_reader =
     (if m_maybe_null fpi
      then (case read_bytes 1 reader of
              (None, _) \<Rightarrow> None
            | (Some nullp, r) \<Rightarrow>
                if hd nullp = 0 then Some (c\<lparr>c_null := True, c_img := c_img default_value\<rparr>, r, unpack_reader)
                else if hd nullp = 1 then unpack_part fpi f (c\<lparr>c_null := False\<rparr>) r unpack_reader
                else None)
      else unpack_part fpi f c reader unpack_reader)"

text \<open>
  The iterator over the parts of a key: the next part, both readers and the
  record buffer. A part that needs unpack information when there is none gets no
  reader.
\<close>

record key_iter =
  m_iter_index :: nat
  m_reader :: mono_string_reader
  m_unp_reader :: mono_string_reader
  m_buf :: rec_buf

definition decode ::
  "table \<Rightarrow> bool \<Rightarrow> mono_field_packing \<Rightarrow> field \<Rightarrow> key_iter \<Rightarrow> key_error + key_iter" where
  "decode tbl has_unpack_info fpi f it =
     (let maybe_missing_unpack = \<not> has_unpack_info \<and> uses_unpack_info fpi;
          ur = (if maybe_missing_unpack then None else Some (m_unp_reader it))
      in case decode_field fpi f (m_buf it (field_index f)) (m_reader it)
                (ts_default_values (tbl_s tbl) (field_index f)) ur of
           None \<Rightarrow> Inl HA_ERR_TABLE_CORRUPT
         | Some (c, r, ur') \<Rightarrow>
             Inr (it\<lparr>m_buf := (m_buf it)(field_index f := c), m_reader := r,
                     m_unp_reader := (case ur' of None \<Rightarrow> m_unp_reader it | Some u \<Rightarrow> u)\<rparr>))"

text \<open>A column that cannot be unpacked is skipped, with the space count that goes with it.\<close>

definition decoder_skip :: "mono_field_packing \<Rightarrow> field \<Rightarrow> key_iter \<Rightarrow> key_error + key_iter" where
  "decoder_skip fpi f it =
     (let skip_value = (\<lambda>r.
            case skip_part fpi (Some f) r of
              None \<Rightarrow> Inl HA_ERR_TABLE_CORRUPT
            | Some r' \<Rightarrow>
                Inr (it\<lparr>m_reader := r',
                        m_unp_reader :=
                          (if m_skip_func fpi = Skip_variable_space_pad \<and> \<not> m_unpack_info_stores_value fpi
                           then snd (rd_read (if m_unpack_info_uses_two_bytes fpi then 2 else 1) (m_unp_reader it))
                           else m_unp_reader it)\<rparr>))
      in if m_maybe_null fpi
         then (case read_bytes 1 (m_reader it) of
                 (None, _) \<Rightarrow> Inl HA_ERR_TABLE_CORRUPT
               | (Some nullp, r) \<Rightarrow>
                   if hd nullp = 0 then Inr (it\<lparr>m_reader := r\<rparr>)
                   else if hd nullp \<noteq> 1 then Inl HA_ERR_TABLE_CORRUPT
                   else skip_value r)
         else skip_value (m_reader it))"

text \<open>One key part: the result tells whether \<open>next\<close> returns behind it.\<close>

definition iter_part :: "table \<Rightarrow> mono_key_def \<Rightarrow> bool \<Rightarrow> key_iter \<Rightarrow> key_error + bool \<times> key_iter" where
  "iter_part tbl kd has_unpack_info it =
     (let curr_index = m_iter_index it; it = it\<lparr>m_iter_index := curr_index + 1\<rparr>
      in case nth_opt (m_pack_info kd) curr_index of
           None \<Rightarrow> Inl UNDEFINED
         | Some fpi \<Rightarrow>
             if m_index_type kd = INDEX_TYPE_SECONDARY \<and> table_has_hidden_pk (tbl_s tbl) \<and>
                curr_index + 1 = m_key_parts kd \<or> m_index_type kd = INDEX_TYPE_HIDDEN_PRIMARY
             then (case skip_part fpi None (m_reader it) of
                     None \<Rightarrow> Inl HA_ERR_TABLE_CORRUPT
                   | Some r \<Rightarrow> Inr (True, it\<lparr>m_reader := r\<rparr>))
             else (case get_field_in_table tbl fpi of
                     None \<Rightarrow> Inl UNDEFINED
                   | Some f \<Rightarrow>
                       if m_unpack_func fpi \<noteq> None
                       then map_sum id (Pair True) (decode tbl has_unpack_info fpi f it)
                       else map_sum id (Pair False) (decoder_skip fpi f it)))"

lemma iter_part_index: "iter_part tbl kd has it = Inr (b, it') \<Longrightarrow> m_iter_index it' = m_iter_index it + 1"
  by (auto simp: iter_part_def decode_def decoder_skip_def Let_def split: option.splits if_splits prod.splits)

text \<open>\<open>mono_key_field_iterator::next\<close>.\<close>

function iter_next :: "table \<Rightarrow> mono_key_def \<Rightarrow> bool \<Rightarrow> key_iter \<Rightarrow> key_error + key_iter" where
  "iter_next tbl kd has it =
     (if m_iter_index it < m_key_parts kd
      then (case iter_part tbl kd has it of
              Inl e \<Rightarrow> Inl e
            | Inr (True, it') \<Rightarrow> Inr it'
            | Inr (False, it') \<Rightarrow> iter_next tbl kd has it')
      else Inr it)"
  by pat_completeness auto
termination
  by (relation "measure (\<lambda>(tbl, kd, has, it). m_key_parts kd - m_iter_index it)")
    (auto dest: iter_part_index)

declare iter_next.simps [simp del]

lemma iter_next_index:
  "iter_next tbl kd has it = Inr it' \<Longrightarrow> m_iter_index it < m_key_parts kd \<Longrightarrow> m_iter_index it < m_iter_index it'"
proof (induction tbl kd has it rule: iter_next.induct)
  case (1 tbl kd has it)
  obtain b it1 where p: "iter_part tbl kd has it = Inr (b, it1)"
    using 1(2,3) by (auto simp: iter_next.simps [of tbl kd has it] split: sum.splits)
  have lt: "m_iter_index it < m_iter_index it1" using iter_part_index [OF p] by simp
  show ?case
  proof (cases b)
    case True
    then show ?thesis using 1(2,3) p lt by (simp add: iter_next.simps [of tbl kd has it])
  next
    case False
    then have n: "iter_next tbl kd has it1 = Inr it'"
      using 1(2,3) p by (simp add: iter_next.simps [of tbl kd has it])
    have "m_iter_index it1 < m_iter_index it' \<or> it' = it1"
      using 1(1) [OF 1(3) p _ _ n] False n by (cases "m_iter_index it1 < m_key_parts kd")
        (auto simp: iter_next.simps [of tbl kd has it1])
    then show ?thesis using lt by auto
  qed
qed

text \<open>The loop of \<open>unpack_record\<close> and the function.\<close>

function unpack_loop :: "table \<Rightarrow> mono_key_def \<Rightarrow> bool \<Rightarrow> key_iter \<Rightarrow> key_error + key_iter" where
  "unpack_loop tbl kd has it =
     (if m_iter_index it < m_key_parts kd
      then (case iter_next tbl kd has it of Inl e \<Rightarrow> Inl e | Inr it' \<Rightarrow> unpack_loop tbl kd has it')
      else Inr it)"
  by pat_completeness auto
termination
  by (relation "measure (\<lambda>(tbl, kd, has, it). m_key_parts kd - m_iter_index it)")
    (auto dest: iter_next_index)

declare unpack_loop.simps [simp del]

definition unpack_record ::
  "table \<Rightarrow> mono_key_def \<Rightarrow> rec_buf \<Rightarrow> bytes \<Rightarrow> bytes option \<Rightarrow> key_error + rec_buf" where
  "unpack_record tbl kd buf packed_key unpack_info =
     (let reader = reader_of_slice packed_key;
          unp_reader = read_or_empty unpack_info;
          unp_len = remaining_bytes unp_reader;
          (record_unp_len, unp_reader') = (if unp_len \<noteq> 0 then read_uint16 unp_reader else (Some unp_len, unp_reader))
      in if record_unp_len \<noteq> Some unp_len then Inl HA_ERR_TABLE_CORRUPT
         else case unpack_loop tbl kd (unp_len \<noteq> 0)
                     \<lparr>m_iter_index = 0, m_reader = reader, m_unp_reader = unp_reader', m_buf = buf\<rparr> of
                Inl e \<Rightarrow> Inl e
              | Inr it \<Rightarrow> if remaining_bytes (m_reader it) \<noteq> 0 then Inl HA_ERR_TABLE_CORRUPT else Inr (m_buf it))"

section \<open>The loops as one pass over the parts\<close>

lemma unpack_loop_part:
  "unpack_loop tbl kd has it =
     (if m_iter_index it < m_key_parts kd
      then (case iter_part tbl kd has it of Inl e \<Rightarrow> Inl e | Inr (_, it') \<Rightarrow> unpack_loop tbl kd has it')
      else Inr it)"
proof (cases "m_iter_index it < m_key_parts kd")
  case True
  show ?thesis
  proof (cases "iter_part tbl kd has it")
    case (Inl e)
    then show ?thesis using True by (simp add: unpack_loop.simps [of tbl kd has it] iter_next.simps [of tbl kd has it])
  next
    case (Inr r)
    obtain b it' where r: "iter_part tbl kd has it = Inr (b, it')" using Inr by (cases r) auto
    show ?thesis
    proof (cases b)
      case True
      with r \<open>m_iter_index it < _\<close> show ?thesis
        by (simp add: unpack_loop.simps [of tbl kd has it] iter_next.simps [of tbl kd has it])
    next
      case False
      have "unpack_loop tbl kd has it = (case iter_next tbl kd has it' of Inl e \<Rightarrow> Inl e | Inr it'' \<Rightarrow> unpack_loop tbl kd has it'')"
        using r \<open>m_iter_index it < _\<close> False
        by (simp add: unpack_loop.simps [of tbl kd has it] iter_next.simps [of tbl kd has it])
      also have "\<dots> = unpack_loop tbl kd has it'"
        by (cases "m_iter_index it' < m_key_parts kd")
          (simp_all add: unpack_loop.simps [of tbl kd has it'] iter_next.simps [of tbl kd has it'])
      finally show ?thesis using r \<open>m_iter_index it < _\<close> by simp
    qed
  qed
next
  case False
  then show ?thesis by (simp add: unpack_loop.simps [of tbl kd has it])
qed

section \<open>Unpacking one part\<close>

text \<open>
  Unpacking writes the bytes of the value, never the NULL bit, and returns a
  reader of unpack information exactly when it got one.
\<close>

definition keeps_shape :: "cell \<Rightarrow> mono_string_reader option \<Rightarrow> unpack_result \<Rightarrow> bool" where
  "keeps_shape c ur res \<longleftrightarrow>
     (\<forall>c' r' ur'. res = Some (c', r', ur') \<longrightarrow> c_null c' = c_null c \<and> (ur' = None \<longleftrightarrow> ur = None))"

lemma keeps_shape_None [simp]: "keeps_shape c ur None"
  by (simp add: keeps_shape_def)

lemma put_image_shape [simp]: "keeps_shape c ur (map_option (\<lambda>c'. (c', r', u)) (put_image c bs))" if "(u = None) = (ur = None)"
  using that by (auto simp: keeps_shape_def put_image_def)

lemma store_varchar_shape [simp]: "keeps_shape c ur (map_option (\<lambda>c'. (c', r', u)) (store_varchar f c bs))" if "(u = None) = (ur = None)"
  using that by (auto simp: keeps_shape_def store_varchar_def split: option.splits)

lemma store_spaces_shape [simp]: "keeps_shape c ur (map_option (\<lambda>c'. (c', r', u)) (store_spaces fpi f c e bs))" if "(u = None) = (ur = None)"
  using that by (auto simp: store_spaces_def split: option.split)

lemma read_simple_reader:
  "mono_read_unpack_simple codec ptr rb = Some (bs, rb') \<Longrightarrow> rb' = None \<longleftrightarrow> rb = None"
  by (induction ptr arbitrary: rb bs)
    (auto simp: read_simple_char_def split: option.splits prod.splits if_splits)

lemma unpack_fixed_shape: "keeps_shape c ur (unpack_fixed n dec c r ur)"
  by (simp add: unpack_fixed_def split: prod.split option.split)

lemma unpack_part_shape: "keeps_shape c ur (unpack_part fpi f c r ur)"
proof (cases "m_unpack_func fpi")
  case None
  then show ?thesis by (simp add: unpack_part_def)
next
  case (Some u)
  have bit: "keeps_shape c ur (unpack_bit fpi f c r ur)"
    by (auto simp: unpack_bit_def keeps_shape_def put_image_def Let_def split: prod.splits option.splits if_splits)
  have simple: "keeps_shape c ur (unpack_simple fpi f c r ur)"
    by (auto simp: unpack_simple_def split: prod.split option.split dest: read_simple_reader)
  have unk: "keeps_shape c ur (unpack_unknown_varchar fpi f c r ur)"
    by (auto simp: unpack_unknown_varchar_def keeps_shape_def put_image_def split: prod.splits option.splits)
  show ?thesis
    using Some bit simple unk
    by (cases u) (auto simp: unpack_part_def unpack_integer_def unpack_unsigned_def unpack_double_def unpack_float_def
        unpack_floating_point_def unpack_binary_str_def unpack_newdate_def unpack_fixed_shape
        unpack_binary_or_utf8_varchar_def unpack_binary_or_utf8_varchar_space_pad_def unpack_utf8_str_def unpack_unknown_def
        unpack_simple_varchar_space_pad_def split: prod.split option.split)
qed

text \<open>
  Packing sees a column with the length of its key part, unpacking the column of
  the key part. Where the column can be unpacked they are the same column, or the
  length plays no role.
\<close>

definition fixed_funcs :: "unpack_func set" where
  "fixed_funcs = {Unpack_integer, Unpack_unsigned, Unpack_newdate, Unpack_double, Unpack_float, Unpack_binary_str, Unpack_bit}"

definition columns_agree :: "unpack_func \<Rightarrow> field \<Rightarrow> field \<Rightarrow> bool" where
  "columns_agree u pf sf \<longleftrightarrow> pf = sf \<or>
     pf = sf\<lparr>field_length := field_length pf\<rparr> \<and> real_type sf \<noteq> MYSQL_TYPE_STRING \<and> u \<in> fixed_funcs"

lemma sort_string_field_length:
  "real_type f \<noteq> MYSQL_TYPE_STRING \<Longrightarrow> sort_string (f\<lparr>field_length := n\<rparr>) c len = sort_string f c len"
  by (auto simp: sort_string_def sort_string_tiny_def sort_string_short_def sort_string_medium_def sort_string_long_def
      sort_string_longlong_def sort_string_enum_def sort_string_bit_def flip_sign_def split: enum_field_types.split)

lemma agree_image:
  assumes "unpack_ready u fpi" "columns_agree u pf sf"
  shows "part_image (fpi, pf, sf) v = value_image fpi sf v"
    "\<not> (real_maybe_null pf \<and> c_null v) \<Longrightarrow> part_info (fpi, pf, sf) v = value_info fpi sf v"
    "real_maybe_null pf = real_maybe_null sf" "field_index pf = field_index sf"
proof -
  have eq: "part_image (fpi, pf, sf) v = value_image fpi sf v \<and> value_info fpi pf v = value_info fpi sf v \<and>
      real_maybe_null pf = real_maybe_null sf \<and> field_index pf = field_index sf"
  proof (cases "pf = sf")
    case True
    then show ?thesis by (simp add: value_image_def part_image_def)
  next
    case False
    then have pf: "pf = sf\<lparr>field_length := field_length pf\<rparr>" and u: "real_type sf \<noteq> MYSQL_TYPE_STRING" "u \<in> fixed_funcs"
      using assms(2) by (simp_all add: columns_agree_def)
    have pk: "m_pack_func fpi = Some Pack_make_sort_key" "\<not> uses_unpack_info fpi"
      using plain_sort_key [OF assms(1)] u(2) by (auto simp: fixed_funcs_def)
    have "pack_with_make_sort_key fpi pf v = pack_with_make_sort_key fpi sf v"
      using sort_string_field_length [OF u(1), of "field_length pf"] by (subst pf) (simp add: pack_with_make_sort_key_def)
    moreover have "real_maybe_null pf = real_maybe_null sf \<and> field_index pf = field_index sf" by (subst (1 2) pf) simp
    ultimately show ?thesis
      using pk by (simp add: sort_key_view make_info_none part_image_def pack_part_def)
  qed
  then show "part_image (fpi, pf, sf) v = value_image fpi sf v" "real_maybe_null pf = real_maybe_null sf"
    "field_index pf = field_index sf" by simp_all
  show "part_info (fpi, pf, sf) v = value_info fpi sf v" if "\<not> (real_maybe_null pf \<and> c_null v)"
    using eq that by (auto simp: part_info_def value_info_def)
qed

text \<open>What makes a part and its value fit for unpacking, and what comes back.\<close>

definition unpack_value_ok :: "part \<Rightarrow> cell \<Rightarrow> bool" where
  "unpack_value_ok p v = (case p of (fpi, pf, sf) \<Rightarrow>
     (case m_unpack_func fpi of
        None \<Rightarrow> \<not> uses_unpack_info fpi
      | Some u \<Rightarrow> unpack_ready u fpi \<and> columns_agree u pf sf \<and> (\<not> (real_maybe_null pf \<and> c_null v) \<longrightarrow> wf_unpack u fpi sf v)))"

definition cell_back :: "cell \<Rightarrow> unpack_func \<Rightarrow> field \<Rightarrow> cell \<Rightarrow> cell \<Rightarrow> cell \<Rightarrow> bool" where
  "cell_back dflt u f v c c' \<longleftrightarrow>
     (if real_maybe_null f \<and> c_null v then c' = c\<lparr>c_null := True, c_img := c_img dflt\<rparr>
      else same_value u f v c' \<and> (real_maybe_null f \<longrightarrow> \<not> c_null c'))"

lemma dest_len_null [simp]: "dest_len n (c\<lparr>c_null := b\<rparr>) = dest_len n c"
  by (simp add: dest_len_def)

lemma decode_field_ok:
  assumes wf: "wf_part (fpi, pf, sf) v" and ok: "unpack_ready u fpi" "columns_agree u pf sf"
      "\<not> (real_maybe_null pf \<and> c_null v) \<longrightarrow> wf_unpack u fpi sf v"
    and dest: "dest_len (unpack_dest u fpi sf) c"
    and r: "rd_at r (enc_part (fpi, pf, sf) v @ rest)" and ur: "info_at ur (part_info (fpi, pf, sf) v @ urest)"
  shows "\<exists>c' ur'. decode_field fpi sf c r dflt ur = Some (c', rd_adv (length (enc_part (fpi, pf, sf) v)) r, ur') \<and>
    cell_back dflt u sf v c c' \<and> info_at ur' urest \<and> (ur' = None \<longleftrightarrow> ur = None)"
proof -
  note ag = agree_image [OF ok(1,2)]
  have mn: "m_maybe_null fpi = real_maybe_null sf" using wf ag(3) by (simp add: wf_part_def)
  have restored: "\<exists>c' ur'. unpack_part fpi sf c0 r0 ur = Some (c', rd_adv (length (part_image (fpi, pf, sf) v)) r0, ur') \<and>
      same_value u sf v c' \<and> c_null c' = c_null c0 \<and> info_at ur' urest \<and> (ur' = None \<longleftrightarrow> ur = None)"
    if n: "\<not> (real_maybe_null pf \<and> c_null v)" and c0: "dest_len (unpack_dest u fpi sf) c0"
      and r0: "rd_at r0 (part_image (fpi, pf, sf) v @ rest)" for c0 r0
  proof -
    have r1: "rd_at r0 (value_image fpi sf v @ rest)" and u1: "info_at ur (value_info fpi sf v @ urest)"
      using r0 ur ag(1) ag(2) [OF n] by simp_all
    obtain c' ur' where res: "unpack_part fpi sf c0 r0 ur = Some (c', rd_adv (length (value_image fpi sf v)) r0, ur')"
      "same_value u sf v c'" "info_at ur' urest"
      using unpack_codec.unpack_enc [OF value_unpack_codec [OF ok(1)] _ c0 r1 u1] ok(3) n by blast
    then show ?thesis using unpack_part_shape [of c0 ur fpi sf r0] by (simp add: keeps_shape_def ag(1))
  qed
  show ?thesis
  proof (cases "real_maybe_null sf")
    case False
    then show ?thesis
      using restored [of c r] dest r mn ag(3) by (auto simp: decode_field_def enc_part_def cell_back_def)
  next
    case True
    let ?b = "if c_null v then 0 else 1 :: byte" and ?xs = "if c_null v then [] else part_image (fpi, pf, sf) v"
    have e: "enc_part (fpi, pf, sf) v = ?b # ?xs" using True ag(3) by (simp add: enc_part_def)
    have r1: "rd_at r ([?b] @ ?xs @ rest)" using r unfolding e by simp
    have rd: "read_bytes 1 r = (Some [?b], rd_adv 1 r)" by (rule read_bytes_append [OF r1]) simp_all
    have at: "rd_at (rd_adv 1 r) (?xs @ rest)" by (rule rd_at_adv_append [OF r1]) simp
    show ?thesis
    proof (cases "c_null v")
      case null: True
      then have "info_at ur urest" using ur True ag(3) by (simp add: part_info_def)
      then show ?thesis using rd mn True null e by (simp add: decode_field_def cell_back_def)
    next
      case False
      then show ?thesis using restored [of "c\<lparr>c_null := False\<rparr>" "rd_adv 1 r"] rd at mn True dest e
        by (auto simp: decode_field_def cell_back_def)
    qed
  qed
qed

lemma decode_ok:
  assumes "wf_part (fpi, pf, sf) v" "unpack_value_ok (fpi, pf, sf) v" "m_unpack_func fpi = Some u"
    and "dest_len (unpack_dest u fpi sf) (m_buf it (field_index sf))"
    and r: "rd_at (m_reader it) (enc_part (fpi, pf, sf) v @ rest)"
    and ur: "rd_at (m_unp_reader it) (part_info (fpi, pf, sf) v @ urest)" "\<not> has \<longrightarrow> part_info (fpi, pf, sf) v @ urest = []"
  shows "\<exists>c' u'. decode tbl has fpi sf it =
      Inr (it\<lparr>m_buf := (m_buf it)(field_index sf := c'), m_reader := rd_adv (length (enc_part (fpi, pf, sf) v)) (m_reader it),
               m_unp_reader := u'\<rparr>) \<and>
    cell_back (ts_default_values (tbl_s tbl) (field_index sf)) u sf v (m_buf it (field_index sf)) c' \<and> rd_at u' urest"
proof -
  let ?ur = "if \<not> has \<and> uses_unpack_info fpi then None else Some (m_unp_reader it)"
  have ok: "unpack_ready u fpi" "columns_agree u pf sf" "\<not> (real_maybe_null pf \<and> c_null v) \<longrightarrow> wf_unpack u fpi sf v"
    using assms(2,3) by (simp_all add: unpack_value_ok_def)
  have "info_at ?ur (part_info (fpi, pf, sf) v @ urest)" using ur by auto
  from decode_field_ok [OF assms(1) ok assms(4) r this]
  obtain c' ur' where d: "decode_field fpi sf (m_buf it (field_index sf)) (m_reader it)
      (ts_default_values (tbl_s tbl) (field_index sf)) ?ur =
      Some (c', rd_adv (length (enc_part (fpi, pf, sf) v)) (m_reader it), ur')"
    "cell_back (ts_default_values (tbl_s tbl) (field_index sf)) u sf v (m_buf it (field_index sf)) c'"
    "info_at ur' urest" "ur' = None \<longleftrightarrow> ?ur = None" by blast
  have "rd_at (case ur' of None \<Rightarrow> m_unp_reader it | Some u \<Rightarrow> u) urest"
    using d(3,4) ur by (auto split: option.splits if_splits)
  then show ?thesis using d(1,2) by (auto simp: decode_def Let_def)
qed

lemma space_pad_info_length:
  assumes "wf_space_pad fpi f v" "info_ready fpi" "m_pack_func fpi = Some Pack_varchar_space_pad" "\<not> m_unpack_info_stores_value fpi"
  shows "length (space_pad_info fpi f v) = (if m_unpack_info_uses_two_bytes fpi then 2 else 1)"
proof -
  obtain p sp n where p: "m_segment_size fpi = Suc p" "space_xfrm fpi = Some sp"
    "space_pad_loop (Suc p) sp (space_pad_xfrm fpi f v) = Some (space_pad_image fpi f v, n)"
    using space_pad_image_loop [OF assms(1)] by metis
  show ?thesis
    using p assms(2-4)
    by (simp add: space_pad_info_def pack_with_varchar_space_pad_def info_ready_def Let_def empty_writer_def write_uint16_append)
qed

lemma decoder_skip_ok:
  assumes wf: "wf_part (fpi, pf, sf) v" and info: "info_ready fpi" "\<not> uses_unpack_info fpi"
    and r: "rd_at (m_reader it) (enc_part (fpi, pf, sf) v @ rest)"
    and ur: "rd_at (m_unp_reader it) (part_info (fpi, pf, sf) v @ urest)"
  shows "\<exists>u'. decoder_skip fpi sf it =
      Inr (it\<lparr>m_reader := rd_adv (length (enc_part (fpi, pf, sf) v)) (m_reader it), m_unp_reader := u'\<rparr>) \<and> rd_at u' urest"
proof -
  let ?cnt = "m_skip_func fpi = Skip_variable_space_pad \<and> \<not> m_unpack_info_stores_value fpi"
  define u' where "u' = (if ?cnt then snd (rd_read (if m_unpack_info_uses_two_bytes fpi then 2 else 1) (m_unp_reader it))
      else m_unp_reader it)"
  have mn: "m_maybe_null fpi = real_maybe_null pf" using wf by (simp add: wf_part_def)
  have u': "rd_at u' urest" if n: "\<not> (real_maybe_null pf \<and> c_null v)"
  proof -
    have v: "wf_value (fpi, pf, sf) v" using wf n by (auto simp: wf_part_def)
    then have sp: "m_skip_func fpi = Skip_variable_space_pad \<longleftrightarrow> m_pack_func fpi = Some Pack_varchar_space_pad"
      by (auto simp: wf_value_def split: option.splits pack_func.splits)
    have i: "part_info (fpi, pf, sf) v = (if m_pack_func fpi = Some Pack_varchar_space_pad then space_pad_info fpi pf v else [])"
      using n info(2) by (auto simp: part_info_def make_info_none)
    show ?thesis
    proof (cases ?cnt)
      case True
      then have l: "length (space_pad_info fpi pf v) = (if m_unpack_info_uses_two_bytes fpi then 2 else 1)"
        using v sp by (intro space_pad_info_length info) (auto simp: wf_value_def)
      have at: "rd_at (m_unp_reader it) (space_pad_info fpi pf v @ urest)" using ur i True sp by simp
      let ?n = "length (space_pad_info fpi pf v)"
      have n0: "?n \<le> length (space_pad_info fpi pf v @ urest)" "0 < ?n" using l by simp_all
      obtain q where q: "rd_read ?n (m_unp_reader it) = (Some q, rd_adv ?n (m_unp_reader it))" by (rule rd_read_ok [OF at n0])
      have "u' = rd_adv ?n (m_unp_reader it)" using True q by (simp add: u'_def l)
      then show ?thesis using rd_at_adv_append [OF at] by simp
    next
      case False
      then have "part_info (fpi, pf, sf) v = []" using i sp stored_value_no_spaces by auto
      then show ?thesis using ur unfolding u'_def if_not_P [OF False] by simp
    qed
  qed
  show ?thesis
  proof (cases "real_maybe_null pf \<and> c_null v")
    case True
    then have e: "enc_part (fpi, pf, sf) v = [0]" and i: "part_info (fpi, pf, sf) v = []"
      by (simp_all add: enc_part_def part_info_def)
    have "read_bytes 1 (m_reader it) = (Some [0], rd_adv 1 (m_reader it))"
      using read_bytes_append [of "m_reader it" "[0]" rest 1] r e by simp
    then show ?thesis using True mn ur i e by (auto simp: decoder_skip_def intro!: exI [of _ "m_unp_reader it"])
  next
    case n: False
    have v: "wf_value (fpi, pf, sf) v" using wf n by (auto simp: wf_part_def)
    note skip = key_codec.skip_enc [OF value_codec [of fpi pf sf True] v, simplified]
    show ?thesis
    proof (cases "real_maybe_null pf")
      case False
      then have "enc_part (fpi, pf, sf) v = part_image (fpi, pf, sf) v" by (simp add: enc_part_def)
      then show ?thesis using skip [of "m_reader it" rest] r mn False u' [OF n]
        by (auto simp: decoder_skip_def u'_def intro!: exI [of _ u'])
    next
      case True
      then have e: "enc_part (fpi, pf, sf) v = 1 # part_image (fpi, pf, sf) v" using n by (simp add: enc_part_def)
      have r1: "rd_at (m_reader it) ([1] @ part_image (fpi, pf, sf) v @ rest)" using r unfolding e by simp
      have rd: "read_bytes 1 (m_reader it) = (Some [1], rd_adv 1 (m_reader it))" by (rule read_bytes_append [OF r1]) simp_all
      have at: "rd_at (rd_adv 1 (m_reader it)) (part_image (fpi, pf, sf) v @ rest)" by (rule rd_at_adv_append [OF r1]) simp
      show ?thesis using skip [OF at] rd mn True u' [OF n] e
        by (auto simp: decoder_skip_def u'_def intro!: exI [of _ u'])
    qed
  qed
qed

section \<open>Unpacking a record\<close>

text \<open>
  What the passed buffer becomes: the columns of the parts that can be unpacked
  are restored one after the other, nothing else changes.
\<close>

fun unpacked :: "rec_buf \<Rightarrow> part list \<Rightarrow> cell list \<Rightarrow> rec_buf \<Rightarrow> rec_buf \<Rightarrow> bool" where
  "unpacked dflt (p # ps) (v # vs) b b' =
     (case p of (fpi, pf, sf) \<Rightarrow>
        (case m_unpack_func fpi of
           None \<Rightarrow> unpacked dflt ps vs b b'
         | Some u \<Rightarrow> \<exists>c. cell_back (dflt (field_index sf)) u sf v (b (field_index sf)) c \<and>
                        unpacked dflt ps vs (b(field_index sf := c)) b'))"
| "unpacked dflt _ _ b b' = (b' = b)"

text \<open>The destination columns have the size that their unpack function fills.\<close>

definition dests_ok :: "part list \<Rightarrow> rec_buf \<Rightarrow> bool" where
  "dests_ok ps b \<longleftrightarrow>
     (\<forall>(fpi, pf, sf) \<in> set ps. \<forall>u. m_unpack_func fpi = Some u \<longrightarrow> dest_len (unpack_dest u fpi sf) (b (field_index sf)))"

definition distinct_columns :: "part list \<Rightarrow> bool" where
  "distinct_columns ps \<longleftrightarrow>
     distinct (map (\<lambda>(fpi, pf, sf). field_index sf) (filter (\<lambda>(fpi, _). m_unpack_func fpi \<noteq> None) ps))"

definition plain_part :: "table \<Rightarrow> mono_key_def \<Rightarrow> nat \<Rightarrow> bool" where
  "plain_part tbl kd i \<longleftrightarrow>
     \<not> (m_index_type kd = INDEX_TYPE_SECONDARY \<and> table_has_hidden_pk (tbl_s tbl) \<and> i + 1 = m_key_parts kd \<or>
        m_index_type kd = INDEX_TYPE_HIDDEN_PRIMARY)"

lemma iter_part_ok:
  assumes part: "m_iter_index it < length (m_pack_info kd)" "table_part tbl (m_pack_info kd ! m_iter_index it) = Some (fpi, pf, sf)"
      "plain_part tbl kd (m_iter_index it)"
    and wf: "wf_part (fpi, pf, sf) v" "info_ready fpi" "unpack_value_ok (fpi, pf, sf) v"
    and dest: "\<forall>u. m_unpack_func fpi = Some u \<longrightarrow> dest_len (unpack_dest u fpi sf) (m_buf it (field_index sf))"
    and r: "rd_at (m_reader it) (enc_part (fpi, pf, sf) v @ rest)"
    and ur: "rd_at (m_unp_reader it) (part_info (fpi, pf, sf) v @ urest)" "\<not> has \<longrightarrow> part_info (fpi, pf, sf) v @ urest = []"
  shows "\<exists>q it'. iter_part tbl kd has it = Inr (q, it') \<and> m_iter_index it' = m_iter_index it + 1 \<and>
    m_reader it' = rd_adv (length (enc_part (fpi, pf, sf) v)) (m_reader it) \<and> rd_at (m_unp_reader it') urest \<and>
    (case m_unpack_func fpi of
       None \<Rightarrow> m_buf it' = m_buf it
     | Some u \<Rightarrow> \<exists>c. cell_back (ts_default_values (tbl_s tbl) (field_index sf)) u sf v (m_buf it (field_index sf)) c \<and>
                    m_buf it' = (m_buf it)(field_index sf := c))"
proof -
  have f: "get_field_in_table tbl fpi = Some sf" "nth_opt (m_pack_info kd) (m_iter_index it) = Some fpi"
    using part(1,2) by (auto simp: table_part_def nth_opt_less split: option.splits)
  let ?it = "it\<lparr>m_iter_index := m_iter_index it + 1\<rparr>"
  show ?thesis
  proof (cases "m_unpack_func fpi")
    case None
    then have "\<not> uses_unpack_info fpi" using wf(3) by (simp add: unpack_value_ok_def)
    from decoder_skip_ok [OF wf(1,2) this, of ?it rest urest] show ?thesis
      using None f part(3) r ur by (auto simp: iter_part_def plain_part_def Let_def)
  next
    case (Some u)
    from decode_ok [OF wf(1,3) Some, of ?it rest urest has tbl] show ?thesis
      using Some f part(3) r ur dest by (auto simp: iter_part_def plain_part_def Let_def)
  qed
qed

lemma dests_ok_upd:
  assumes "dests_ok ((fpi, pf, sf) # ps) b" "distinct_columns ((fpi, pf, sf) # ps)" "m_unpack_func fpi = Some u"
  shows "dests_ok ps (b(field_index sf := c))"
proof -
  have "field_index g \<noteq> field_index sf" if "(q, qf, g) \<in> set ps" "m_unpack_func q \<noteq> None" for q qf g
    using assms(2,3) that by (force simp: distinct_columns_def)
  then show ?thesis using assms(1) by (fastforce simp: dests_ok_def)
qed

lemma distinct_columns_Cons: "distinct_columns (p # ps) \<Longrightarrow> distinct_columns ps"
  by (auto simp: distinct_columns_def split: if_splits)

lemma unpack_loop_ok:
  assumes "parts_at tbl kd (m_iter_index it) ps" "m_iter_index it + length ps \<le> m_key_parts kd"
    and "\<forall>j < length ps. plain_part tbl kd (m_iter_index it + j)"
    and "row_ok ps vs" "list_all2 unpack_value_ok ps vs" "dests_ok ps (m_buf it)" "distinct_columns ps"
    and "rd_at (m_reader it) (enc_row enc_part ps vs @ rest)"
    and "rd_at (m_unp_reader it) (enc_row part_info ps vs)" "\<not> has \<longrightarrow> enc_row part_info ps vs = []"
  shows "\<exists>it'. unpack_loop tbl kd has it = unpack_loop tbl kd has it' \<and> m_iter_index it' = m_iter_index it + length ps \<and>
    m_reader it' = rd_adv (length (enc_row enc_part ps vs)) (m_reader it) \<and>
    unpacked (ts_default_values (tbl_s tbl)) ps vs (m_buf it) (m_buf it')"
  using assms
proof (induction ps arbitrary: it vs)
  case Nil
  then show ?case using row_ok_length [OF Nil.prems(4)] by (intro exI [of _ it]) simp
next
  case (Cons p ps)
  obtain fpi pf sf where p: "p = (fpi, pf, sf)" by (cases p)
  obtain v vs' where vs: "vs = v # vs'" using row_ok_length [OF Cons.prems(4)] by (cases vs) auto
  obtain q it1 where it1: "iter_part tbl kd has it = Inr (q, it1)" "m_iter_index it1 = m_iter_index it + 1"
    "m_reader it1 = rd_adv (length (enc_part p v)) (m_reader it)" "rd_at (m_unp_reader it1) (enc_row part_info ps vs')"
    "case m_unpack_func fpi of None \<Rightarrow> m_buf it1 = m_buf it
     | Some u \<Rightarrow> \<exists>c. cell_back (ts_default_values (tbl_s tbl) (field_index sf)) u sf v (m_buf it (field_index sf)) c \<and>
                    m_buf it1 = (m_buf it)(field_index sf := c)"
    using iter_part_ok [of it kd tbl fpi pf sf v "enc_row enc_part ps vs' @ rest" "enc_row part_info ps vs'" has] Cons.prems
    by (force simp: p vs parts_at_Cons row_ok_def dests_ok_def)
  have d1: "dests_ok ps (m_buf it1)"
  proof (cases "m_unpack_func fpi")
    case None
    then show ?thesis using it1(5) Cons.prems(6) by (simp add: p dests_ok_def)
  next
    case (Some u)
    then show ?thesis using it1(5) dests_ok_upd [OF Cons.prems(6,7) [unfolded p] Some] by auto
  qed
  have "\<exists>it'. unpack_loop tbl kd has it1 = unpack_loop tbl kd has it' \<and> m_iter_index it' = m_iter_index it1 + length ps \<and>
    m_reader it' = rd_adv (length (enc_row enc_part ps vs')) (m_reader it1) \<and>
    unpacked (ts_default_values (tbl_s tbl)) ps vs' (m_buf it1) (m_buf it')"
  proof (rule Cons.IH)
    show "\<forall>j < length ps. plain_part tbl kd (m_iter_index it1 + j)" using Cons.prems(3) it1(2) by (auto simp: All_less_Suc2)
    show "rd_at (m_reader it1) (enc_row enc_part ps vs' @ rest)"
      unfolding it1(3) by (rule rd_at_adv_append) (use Cons.prems(8) vs in simp_all)
  qed (use Cons.prems d1 it1 vs distinct_columns_Cons in \<open>auto simp: parts_at_Cons\<close>)
  then obtain it' where it': "unpack_loop tbl kd has it1 = unpack_loop tbl kd has it'" "m_iter_index it' = m_iter_index it1 + length ps"
    "m_reader it' = rd_adv (length (enc_row enc_part ps vs')) (m_reader it1)"
    "unpacked (ts_default_values (tbl_s tbl)) ps vs' (m_buf it1) (m_buf it')" by blast
  have "unpack_loop tbl kd has it = unpack_loop tbl kd has it'"
    using it1(1) it'(1) Cons.prems(2) by (subst unpack_loop_part) simp
  moreover have "unpacked (ts_default_values (tbl_s tbl)) (p # ps) vs (m_buf it) (m_buf it')"
    using it1(5) it'(4) by (cases "m_unpack_func fpi") (auto simp: p vs)
  ultimately show ?case using it1(2,3) it'(2,3) by (intro exI [of _ it']) (simp add: vs)
qed

text \<open>
  The parts are the whole key: every column part is unpacked or skipped as such,
  and only the hidden primary key comes behind them.
\<close>

definition whole_key :: "table \<Rightarrow> mono_key_def \<Rightarrow> bytes option \<Rightarrow> part list \<Rightarrow> bool" where
  "whole_key tbl kd hid ps \<longleftrightarrow>
     (\<forall>j < length ps. plain_part tbl kd j) \<and>
     (if table_has_hidden_pk (tbl_s tbl) \<and> hid \<noteq> None
      then m_key_parts kd = length ps + 1 \<and> \<not> plain_part tbl kd (length ps) \<and>
           m_skip_func (m_pack_info kd ! length ps) = Skip_max_length \<and> the hid \<noteq> []
      else m_key_parts kd = length ps)"

lemma unpack_loop_tail:
  assumes "whole_key tbl kd hid ps" "hidden_ok tbl kd hid n (length ps)"
    and it: "m_iter_index it = length ps" "rd_at (m_reader it) (hidden_tail tbl hid)"
  shows "\<exists>it'. unpack_loop tbl kd has it = Inr it' \<and> remaining_bytes (m_reader it') = 0 \<and> m_buf it' = m_buf it"
proof (cases "table_has_hidden_pk (tbl_s tbl) \<and> hid \<noteq> None")
  case True
  let ?fpi = "m_pack_info kd ! length ps" and ?n = "length (the hid)"
  have w: "m_key_parts kd = length ps + 1" "\<not> plain_part tbl kd (length ps)" "m_skip_func ?fpi = Skip_max_length" "the hid \<noteq> []"
    "length ps < length (m_pack_info kd)" "m_max_image_len ?fpi = ?n"
    using assms(1,2) True by (simp_all add: whole_key_def hidden_ok_def)
  have r: "rd_at (m_reader it) (the hid @ [])" using it(2) True by (auto simp: hidden_tail_def)
  obtain q where q: "rd_read ?n (m_reader it) = (Some q, rd_adv ?n (m_reader it))"
    by (rule rd_read_ok [OF r, of ?n]) (use w(4) in auto)
  have e: "remaining_bytes (rd_adv ?n (m_reader it)) = 0" using rd_at_remaining [OF rd_at_adv_append [OF r refl]] by simp
  have p: "iter_part tbl kd has it = Inr (True, it\<lparr>m_iter_index := length ps + 1, m_reader := rd_adv ?n (m_reader it)\<rparr>)"
    using w q it(1) by (auto simp: iter_part_def plain_part_def Let_def nth_opt_less skip_part_def skip_max_length_def)
  show ?thesis
    by (subst unpack_loop_part) (use p w(1) it(1) e in \<open>simp add: unpack_loop.simps\<close>)
next
  case False
  then have "m_key_parts kd = length ps" "hidden_tail tbl hid = []"
    using assms(1) by (auto simp: whole_key_def hidden_tail_def split: option.splits)
  then show ?thesis using it rd_at_remaining [OF it(2)] by (simp add: unpack_loop.simps)
qed

text \<open>What restoring the columns one after the other amounts to when they are distinct.\<close>

lemma unpacked_frame:
  "unpacked dflt ps vs b b' \<Longrightarrow> (\<forall>(fpi, pf, sf) \<in> set ps. m_unpack_func fpi \<noteq> None \<longrightarrow> field_index sf \<noteq> i) \<Longrightarrow> b' i = b i"
proof (induction dflt ps vs b b' rule: unpacked.induct)
  case (1 dflt p ps v vs b b')
  obtain fpi pf sf where p: "p = (fpi, pf, sf)" by (cases p)
  show ?case using 1 by (cases "m_unpack_func fpi") (auto simp: p fun_upd_def)
qed simp_all

lemma unpacked_back:
  assumes "unpacked dflt ps vs b b'" "distinct_columns ps" "length ps = length vs" "j < length ps"
    "ps ! j = (fpi, pf, sf)" "m_unpack_func fpi = Some u"
  shows "cell_back (dflt (field_index sf)) u sf (vs ! j) (b (field_index sf)) (b' (field_index sf))"
  using assms
proof (induction dflt ps vs b b' arbitrary: j rule: unpacked.induct)
  case (1 dflt p ps v vs b b')
  obtain qi qf g where p: "p = (qi, qf, g)" by (cases p)
  show ?case
  proof (cases "m_unpack_func qi")
    case None
    then show ?thesis using 1 distinct_columns_Cons [OF 1(4)] by (cases j) (auto simp: p)
  next
    case (Some w)
    then obtain c where c: "cell_back (dflt (field_index g)) w g v (b (field_index g)) c"
      "unpacked dflt ps vs (b(field_index g := c)) b'" using 1(3) by (auto simp: p)
    have new: "field_index h \<noteq> field_index g" if "(q, hf, h) \<in> set ps" "m_unpack_func q \<noteq> None" for q hf h
      using 1(4) Some that by (force simp: distinct_columns_def p)
    show ?thesis
    proof (cases j)
      case 0
      have "b' (field_index g) = c" using unpacked_frame [OF c(2), of "field_index g"] new by fastforce
      then show ?thesis using 0 1(7,8) c(1) Some by (simp add: p)
    next
      case (Suc k)
      have "field_index sf \<noteq> field_index g" using new [of fpi pf sf] 1(6-8) Suc nth_mem [of k ps] by (auto simp: p)
      then show ?thesis using 1(2) [OF p [symmetric] refl Some, of c k] c(2) 1(4-8) Suc distinct_columns_Cons [OF 1(4)] by (simp add: fun_upd_def)
    qed
  qed
qed simp_all



section \<open>Arbitrary bytes\<close>

text \<open>The columns that the parts of a key write.\<close>

definition writes_column :: "table \<Rightarrow> mono_key_def \<Rightarrow> nat \<Rightarrow> bool" where
  "writes_column tbl kd j \<longleftrightarrow>
     (\<exists>i < m_key_parts kd. plain_part tbl kd i \<and>
        (\<exists>fpi f. nth_opt (m_pack_info kd) i = Some fpi \<and> m_unpack_func fpi \<noteq> None \<and>
                 get_field_in_table tbl fpi = Some f \<and> field_index f = j))"

definition parts_defined :: "table \<Rightarrow> mono_key_def \<Rightarrow> bool" where
  "parts_defined tbl kd \<longleftrightarrow>
     (\<forall>i < m_key_parts kd. \<exists>fpi. nth_opt (m_pack_info kd) i = Some fpi \<and>
        (plain_part tbl kd i \<longrightarrow> get_field_in_table tbl fpi \<noteq> None))"

lemma decoder_skip_buf: "decoder_skip fpi f it = Inr it' \<Longrightarrow> m_buf it' = m_buf it"
  by (auto simp: decoder_skip_def Let_def split: option.splits if_splits prod.splits)

lemma iter_part_safe:
  assumes "parts_defined tbl kd" "m_iter_index it < m_key_parts kd"
  shows "iter_part tbl kd has it \<noteq> Inl UNDEFINED"
    and "iter_part tbl kd has it = Inr (b, it') \<Longrightarrow> \<not> writes_column tbl kd j \<Longrightarrow> m_buf it' j = m_buf it j"
proof -
  obtain fpi where f: "nth_opt (m_pack_info kd) (m_iter_index it) = Some fpi"
    "plain_part tbl kd (m_iter_index it) \<longrightarrow> get_field_in_table tbl fpi \<noteq> None"
    using assms by (auto simp: parts_defined_def)
  have d: "decode tbl has fpi g i \<noteq> Inl UNDEFINED" "decoder_skip fpi g i \<noteq> Inl UNDEFINED" for g i
    by (auto simp: decode_def decoder_skip_def Let_def split: option.splits if_splits prod.splits)
  show "iter_part tbl kd has it \<noteq> Inl UNDEFINED"
    using f d by (auto simp: iter_part_def Let_def plain_part_def map_sum_def split: option.splits sum.splits)
  show "m_buf it' j = m_buf it j" if r: "iter_part tbl kd has it = Inr (b, it')" and n: "\<not> writes_column tbl kd j"
  proof (cases "plain_part tbl kd (m_iter_index it)")
    case False
    then show ?thesis using r f(1) by (auto simp: iter_part_def Let_def plain_part_def split: option.splits)
  next
    case True
    then obtain g where g: "get_field_in_table tbl fpi = Some g" using f(2) by auto
    have "m_unpack_func fpi \<noteq> None \<longrightarrow> field_index g \<noteq> j" using n True f(1) g assms(2) by (auto simp: writes_column_def)
    then show ?thesis using r f(1) True g
      by (auto simp: iter_part_def Let_def plain_part_def decode_def map_sum_def dest: decoder_skip_buf
          split: option.splits sum.splits if_splits)
  qed
qed

lemma unpack_loop_safe:
  assumes "parts_defined tbl kd"
  shows "unpack_loop tbl kd has it \<noteq> Inl UNDEFINED \<and>
    (\<forall>it'. unpack_loop tbl kd has it = Inr it' \<longrightarrow> \<not> writes_column tbl kd j \<longrightarrow> m_buf it' j = m_buf it j)"
proof (induction "m_key_parts kd - m_iter_index it" arbitrary: it rule: less_induct)
  case less
  show ?case
  proof (cases "m_iter_index it < m_key_parts kd")
    case True
    note safe = iter_part_safe [OF assms True, of has]
    show ?thesis
    proof (cases "iter_part tbl kd has it")
      case (Inl e)
      then show ?thesis using safe(1) True unpack_loop_part [of tbl kd has it] by auto
    next
      case (Inr r)
      obtain b it1 where r: "iter_part tbl kd has it = Inr (b, it1)" using Inr by (cases r) auto
      have "m_key_parts kd - m_iter_index it1 < m_key_parts kd - m_iter_index it" using iter_part_index [OF r] True by simp
      from less [OF this] show ?thesis using safe(2) [OF r] r True unpack_loop_part [of tbl kd has it] by auto
    qed
  next
    case False
    then show ?thesis by (simp add: unpack_loop.simps)
  qed
qed



end
