(* ===== verification/Slice_Ops.thy ===== *)
theory Slice_Ops
  imports Eloq_Prelude "HOL-Library.Sublist"
begin

text \<open>
  \<open>storage/eloq/slice.h\<close> and \<open>slice.cc\<close>. A \<open>Slice\<close> is a pointer and a size;
  the model keeps the bytes it refers to. An operation whose \<open>assert\<close> fails is
  \<open>None\<close>.
\<close>

unbundle bit_operations_syntax

type_synonym slice = bytes

definition slice_empty :: "slice \<Rightarrow> bool" where
  "slice_empty s = (length s = 0)"

definition slice_at :: "slice \<Rightarrow> nat \<Rightarrow> byte option" where
  "slice_at s n = (if n < length s then Some (s ! n) else None)"

definition slice_clear :: "slice \<Rightarrow> slice" where
  "slice_clear s = []"

definition remove_prefix :: "slice \<Rightarrow> nat \<Rightarrow> slice option" where
  "remove_prefix s n = (if n \<le> length s then Some (drop n s) else None)"

definition remove_suffix :: "slice \<Rightarrow> nat \<Rightarrow> slice option" where
  "remove_suffix s n = (if n \<le> length s then Some (take (length s - n) s) else None)"

definition starts_with :: "slice \<Rightarrow> slice \<Rightarrow> bool" where
  "starts_with s x = (length s \<ge> length x \<and> memcmp (length x) s x = 0)"

definition ends_with :: "slice \<Rightarrow> slice \<Rightarrow> bool" where
  "ends_with s x =
     (length s \<ge> length x \<and> memcmp (length x) (drop (length s - length x) s) x = 0)"

definition slice_eq :: "slice \<Rightarrow> slice \<Rightarrow> bool" where
  "slice_eq x y = (length x = length y \<and> memcmp (length x) x y = 0)"

definition slice_compare :: "slice \<Rightarrow> slice \<Rightarrow> int" where
  "slice_compare a b =
     (let min_len = (if length a < length b then length a else length b);
          r = memcmp min_len a b
      in if r = 0 then (if length a < length b then - 1
                        else if length a > length b then 1 else r)
         else r)"

function difference_from :: "slice \<Rightarrow> slice \<Rightarrow> nat \<Rightarrow> nat \<Rightarrow> nat" where
  "difference_from a b len off =
     (if off < len then (if a ! off \<noteq> b ! off then off else difference_from a b len (off + 1))
      else off)"
  by pat_completeness auto
termination
  by (relation "measure (\<lambda>(_, _, len, off). len - off)") auto

declare difference_from.simps [simp del]

definition difference_offset :: "slice \<Rightarrow> slice \<Rightarrow> nat" where
  "difference_offset a b =
     difference_from a b (if length a < length b then length a else length b) 0"

text \<open>
  \<open>char\<close> is signed on the supported platforms: a byte above \<open>0x7f\<close> is negative
  and fails the first test of the validation.
\<close>

definition toHex :: "byte \<Rightarrow> byte" where
  "toHex v = (if v \<le> 9 then 48 + v else 65 + v - 10)"

definition fromHex :: "byte \<Rightarrow> int" where
  "fromHex c0 =
     (let c = (if 97 \<le> sint c0 \<and> sint c0 \<le> 102 then sint c0 - (97 - 65) else sint c0)
      in if c < 48 \<or> (c > 57 \<and> (c < 65 \<or> c > 70)) then - 1
         else if c \<le> 57 then c - 48 else c - 65 + 10)"

fun hex_digits :: "slice \<Rightarrow> bytes" where
  "hex_digits [] = []"
| "hex_digits (c # cs) = toHex (drop_bit 4 c) # toHex (c AND 15) # hex_digits cs"

definition slice_ToString :: "bool \<Rightarrow> slice \<Rightarrow> bytes" where
  "slice_ToString hex s = (if hex then hex_digits s else s)"

text \<open>
  The loop of \<open>DecodeHex\<close> with the string built so far; on an invalid digit the
  bytes decoded before it stay in \<open>result\<close>.
\<close>

fun decode_hex_loop :: "bytes \<Rightarrow> bytes \<Rightarrow> bool \<times> bytes" where
  "decode_hex_loop (c1 # c2 # cs) acc =
     (let h1 = fromHex c1 in if h1 < 0 then (False, acc)
      else let h2 = fromHex c2 in if h2 < 0 then (False, acc)
      else decode_hex_loop cs (acc @ [of_int (or (push_bit 4 h1) h2)]))"
| "decode_hex_loop _ acc = (True, acc)"

definition DecodeHex :: "slice \<Rightarrow> bytes option \<Rightarrow> bool \<times> bytes option" where
  "DecodeHex s result =
     (if length s mod 2 \<noteq> 0 then (False, result)
      else case result of None \<Rightarrow> (False, None)
        | Some _ \<Rightarrow> (case decode_hex_loop s [] of (ok, r) \<Rightarrow> (ok, Some r)))"

section \<open>Comparison\<close>

lemma slice_eq_iff: "slice_eq x y \<longleftrightarrow> x = y"
  by (auto simp: slice_eq_def memcmp_zero_iff)

lemma starts_with_iff: "starts_with s x \<longleftrightarrow> take (length x) s = x"
proof (cases "length x \<le> length s")
  case True
  then show ?thesis by (simp add: starts_with_def memcmp_zero_iff)
next
  case False
  then show ?thesis using arg_cong [of "take (length x) s" x length]
    by (auto simp: starts_with_def)
qed

lemma slice_compare_rec [simp]:
  "slice_compare [] [] = 0" "slice_compare [] (y # ys) = - 1" "slice_compare (x # xs) [] = 1"
  "slice_compare (x # xs) (y # ys) =
     (if x < y then - 1 else if y < x then 1 else slice_compare xs ys)"
  by (simp_all add: slice_compare_def Let_def)

lemma slice_compare_less: "slice_compare a b < 0 \<longleftrightarrow> lexlt a b"
  by (induction a b rule: list_induct2') auto

lemma slice_compare_greater: "slice_compare a b > 0 \<longleftrightarrow> lexlt b a"
  by (induction a b rule: list_induct2') auto

lemma slice_compare_eq: "slice_compare a b = 0 \<longleftrightarrow> a = b"
  by (induction a b rule: list_induct2') auto

lemma min_if_less: "min m n = (if m < n then m else n)" for m n :: nat
  by (simp add: min_def)

lemma difference_from_prefix:
  assumes "len = min (length a) (length b)" "off \<le> len"
  shows "difference_from a b len off = off + length (longest_common_prefix (drop off a) (drop off b))"
  using assms
proof (induction a b len off rule: difference_from.induct)
  case (1 a b len off)
  show ?case
  proof (cases "off < len")
    case True
    then have "drop off a = a ! off # drop (Suc off) a" "drop off b = b ! off # drop (Suc off) b"
      using "1.prems" by (simp_all add: Cons_nth_drop_Suc)
    then show ?thesis
      using True 1 by (simp add: difference_from.simps [of a b "min (length a) (length b)" off])
  next
    case False
    then have "drop off a = [] \<or> drop off b = []"
      using "1.prems" by (auto simp: min_def split: if_splits)
    then show ?thesis
      using False by (auto simp: difference_from.simps [of a b len off])
  qed
qed

lemma difference_offset_prefix: "difference_offset a b = length (longest_common_prefix a b)"
  using difference_from_prefix [of "min (length a) (length b)" a b 0]
  by (simp add: difference_offset_def min_def not_less split: if_splits)

section \<open>Hexadecimal text\<close>

lemma nibble_bounds: "drop_bit 4 (c :: byte) < 16" "c AND 15 < 16"
proof -
  show "drop_bit 4 c < 16"
    by (simp add: word_less_nat_alt unat_drop_bit_eq drop_bit_nat_def less_mult_imp_div_less)
  have "c AND 15 \<le> 15" by (rule word_and_le1)
  then show "c AND 15 < 16" by (simp add: word_less_nat_alt word_le_nat_alt)
qed

lemma fromHex_toHex: "(v :: byte) < 16 \<Longrightarrow> fromHex (toHex v) = int (unat v)"
proof -
  assume "v < 16"
  then have "v \<in> set [0,1,2,3,4,5,6,7,8,9,10,11,12,13,14,15]"
    using unat_byte_less [of v]
    by (simp add: word_less_nat_alt word_unat_eq_iff) arith
  then show ?thesis by (auto simp: fromHex_def toHex_def Let_def)
qed

lemma nibbles_join:
  "word_of_int (or (push_bit 4 (uint (drop_bit 4 (c :: byte)))) (uint (c AND 15))) = c"
proof -
  have "word_of_int (or (push_bit 4 (uint (drop_bit 4 c))) (uint (c AND 15)))
          = push_bit 4 (drop_bit 4 c) OR (c AND mask 4)"
    by (simp add: of_int_or_eq of_int_push_bit mask_numeral)
  also have "\<dots> = c"
    by (rule bit_word_eqI) (auto simp: bit_simps)
  finally show ?thesis .
qed

lemma decode_hex_digits: "decode_hex_loop (hex_digits s) acc = (True, acc @ s)"
  by (induction s arbitrary: acc)
     (simp_all add: fromHex_toHex nibble_bounds nibbles_join Let_def)

lemma length_hex_digits: "length (hex_digits s) = 2 * length s"
  by (induction s) auto

text \<open>
  Hexadecimal text round-trips: \<open>DecodeHex\<close> accepts what \<open>ToString(true)\<close>
  prints for any slice, whatever \<open>result\<close> held before, and gives the bytes back.
\<close>

lemma DecodeHex_ToString: "DecodeHex (slice_ToString True s) (Some r) = (True, Some s)"
  by (simp add: DecodeHex_def slice_ToString_def decode_hex_digits length_hex_digits)

text \<open>
  \<open>Slice::compare\<close> is the three-way comparison of the byte order on strings,
  \<open>operator==\<close> agrees with its zero, and \<open>difference_offset\<close> is the length of the
  longest common prefix.
\<close>

lemma slice_compare_spec:
  "(slice_compare a b < 0) = lexlt a b \<and> (slice_compare a b > 0) = lexlt b a \<and>
   (slice_compare a b = 0) = slice_eq a b \<and>
   difference_offset a b = length (longest_common_prefix a b)"
  by (simp add: slice_compare_less slice_compare_greater slice_compare_eq slice_eq_iff
      difference_offset_prefix)

end
