(* ===== verification/Key_Slices.thy ===== *)
theory Key_Slices
  imports Key_Pack
begin

text \<open>
  Operations on packed keys as byte strings: taking the primary key or the
  columns of a secondary key out of a key, comparing keys part by part, the
  length of a padded key, and the keys next to a given one that bound a scan.
\<close>

section \<open>Parts of a packed key\<close>

text \<open>
  \<open>FORMAT_ERROR\<close> is the value by which a function reports a malformed key (1,
  \<open>MONO_INVALID_KEY_LEN\<close>, \<open>HA_EXIT_FAILURE\<close> or \<open>size_t(-1)\<close>); \<open>OUT_OF_BOUNDS\<close>
  stands for an undefined access to an array.
\<close>

datatype slice_error = FORMAT_ERROR | OUT_OF_BOUNDS

text \<open>\<open>Inr (True, r)\<close> is the result -1 (NULL), \<open>Inr (False, r)\<close> the result 0.\<close>

definition read_memcmp_key_part ::
  "table \<Rightarrow> mono_key_def \<Rightarrow> mono_string_reader \<Rightarrow> nat \<Rightarrow> slice_error + bool \<times> mono_string_reader" where
  "read_memcmp_key_part tbl kd reader part_num =
     (case nth_opt (m_pack_info kd) part_num of
        None \<Rightarrow> Inl OUT_OF_BOUNDS
      | Some fpi \<Rightarrow>
          let is_hidden_pk_part = part_num + 1 = m_key_parts kd \<and> ts_primary_key (tbl_s tbl) = MAX_INDEXES;
              f = get_field_in_table tbl fpi
          in if \<not> is_hidden_pk_part \<and> f = None then Inl OUT_OF_BOUNDS
             else case read_memcmp_part fpi (if is_hidden_pk_part then None else f) reader of
                    None \<Rightarrow> Inl FORMAT_ERROR
                  | Some res \<Rightarrow> Inr res)"

text \<open>
  The two loops of \<open>get_primary_key_tuple\<close>. The arrays of start and end
  offsets have room for \<open>MAX_REF_PARTS\<close> entries and are not initialised.
\<close>

fun pk_offsets ::
  "table \<Rightarrow> mono_key_def \<Rightarrow> nat \<Rightarrow> nat \<Rightarrow> mono_string_reader \<Rightarrow> (nat \<rightharpoonup> nat \<times> nat) \<Rightarrow>
   slice_error + (nat \<rightharpoonup> nat \<times> nat)" where
  "pk_offsets tbl kd 0 i reader offs = Inr offs"
| "pk_offsets tbl kd (Suc n) i reader offs =
     (case nth_opt (m_pk_part_no kd) i of
        None \<Rightarrow> Inl OUT_OF_BOUNDS
      | Some pk_key_part \<Rightarrow>
          (case read_memcmp_key_part tbl kd reader i of
             Inl e \<Rightarrow> Inl e
           | Inr (_, reader') \<Rightarrow>
               (case pk_key_part of
                  None \<Rightarrow> pk_offsets tbl kd n (i + 1) reader' offs
                | Some j \<Rightarrow>
                    (case (get_current_ptr reader, get_current_ptr reader') of
                       (Some s, Some e) \<Rightarrow>
                         if j < MAX_REF_PARTS then pk_offsets tbl kd n (i + 1) reader' (offs(j \<mapsto> (s, e)))
                         else Inl OUT_OF_BOUNDS
                     | _ \<Rightarrow> Inl OUT_OF_BOUNDS))))"

fun pk_copy :: "bytes \<Rightarrow> (nat \<rightharpoonup> nat \<times> nat) \<Rightarrow> nat \<Rightarrow> nat \<Rightarrow> slice_error + bytes" where
  "pk_copy key offs 0 i = Inr []"
| "pk_copy key offs (Suc n) i =
     (case offs i of
        None \<Rightarrow> Inl OUT_OF_BOUNDS
      | Some (s, e) \<Rightarrow> map_sum id ((@) (take (e - s) (drop s key))) (pk_copy key offs n (i + 1)))"

definition get_primary_key_tuple :: "table \<Rightarrow> mono_key_def \<Rightarrow> bytes \<Rightarrow> slice_error + bytes" where
  "get_primary_key_tuple tbl kd key =
     (case pk_offsets tbl kd (m_key_parts kd) 0 (reader_of_slice key) Map.empty of
        Inl e \<Rightarrow> Inl e
      | Inr offs \<Rightarrow> pk_copy key offs (m_pk_key_parts kd) 0)"

text \<open>\<open>get_memcmp_sk_parts\<close>: the key without its tail and the number of NULL columns.\<close>

fun sk_parts_loop ::
  "table \<Rightarrow> mono_key_def \<Rightarrow> nat \<Rightarrow> nat \<Rightarrow> mono_string_reader \<Rightarrow> nat \<Rightarrow> slice_error + nat \<times> mono_string_reader" where
  "sk_parts_loop tbl kd 0 i reader n_null = Inr (n_null, reader)"
| "sk_parts_loop tbl kd (Suc n) i reader n_null =
     (case read_memcmp_key_part tbl kd reader i of
        Inl e \<Rightarrow> Inl e
      | Inr (is_null, reader') \<Rightarrow>
          sk_parts_loop tbl kd n (i + 1) reader' (if is_null then n_null + 1 else n_null))"

definition get_memcmp_sk_parts :: "table \<Rightarrow> mono_key_def \<Rightarrow> bytes \<Rightarrow> nat \<Rightarrow> slice_error + bytes \<times> nat" where
  "get_memcmp_sk_parts tbl kd key n_null_fields =
     (case nth_opt (tbl_key_info tbl) (m_keyno kd) of
        None \<Rightarrow> Inl OUT_OF_BOUNDS
      | Some k \<Rightarrow>
          (case sk_parts_loop tbl kd (user_defined_key_parts k) 0 (reader_of_slice key) n_null_fields of
             Inl e \<Rightarrow> Inl e
           | Inr (n_null, reader) \<Rightarrow>
               (case get_current_ptr reader of
                  None \<Rightarrow> Inl OUT_OF_BOUNDS
                | Some p \<Rightarrow> Inr (take p key, n_null))))"

section \<open>Comparing keys and their length\<close>

text \<open>
  \<open>compare_keys\<close>: \<open>None\<close> for a format error, the index of the first different
  part otherwise, the number of parts if there is none.
\<close>

fun compare_loop :: "mono_field_packing list \<Rightarrow> nat \<Rightarrow> mono_string_reader \<Rightarrow> mono_string_reader \<Rightarrow> nat option" where
  "compare_loop [] i r1 r2 = Some i"
| "compare_loop (fpi # fpis) i r1 r2 =
     (let cmp_value = (\<lambda>r1 r2.
            case (skip_part fpi None r1, skip_part fpi None r2) of
              (Some r1', Some r2') \<Rightarrow>
                let size1 = remaining_bytes r1 - remaining_bytes r1'; size2 = remaining_bytes r2 - remaining_bytes r2'
                in if size1 \<noteq> size2 \<or> fst (read_bytes size1 r1) \<noteq> fst (read_bytes size2 r2) then Some i
                   else compare_loop fpis (i + 1) r1' r2'
            | _ \<Rightarrow> None)
      in if m_maybe_null fpi
         then (case (read_bytes 1 r1, read_bytes 1 r2) of
                 ((Some n1, r1'), (Some n2, r2')) \<Rightarrow>
                   if hd n1 \<noteq> hd n2 then Some i
                   else if hd n1 = 0 then compare_loop fpis (i + 1) r1' r2'
                   else cmp_value r1' r2'
               | _ \<Rightarrow> None)
         else cmp_value r1 r2)"

definition compare_keys :: "mono_key_def \<Rightarrow> bytes \<Rightarrow> bytes \<Rightarrow> nat option" where
  "compare_keys kd key1 key2 =
     compare_loop (take (m_key_parts kd) (m_pack_info kd)) 0 (reader_of_slice key1) (reader_of_slice key2)"

text \<open>\<open>key_length\<close> does not look for NULL bytes; it is for primary keys.\<close>

fun key_length_loop ::
  "table \<Rightarrow> mono_key_def \<Rightarrow> mono_field_packing list \<Rightarrow> mono_string_reader \<Rightarrow> slice_error + mono_string_reader" where
  "key_length_loop tbl kd [] r = Inr r"
| "key_length_loop tbl kd (fpi # fpis) r =
     (if m_index_type kd \<noteq> INDEX_TYPE_HIDDEN_PRIMARY \<and> get_field_in_table tbl fpi = None then Inl OUT_OF_BOUNDS
      else case skip_part fpi (if m_index_type kd \<noteq> INDEX_TYPE_HIDDEN_PRIMARY
                               then get_field_in_table tbl fpi else None) r of
             None \<Rightarrow> Inl FORMAT_ERROR
           | Some r' \<Rightarrow> key_length_loop tbl kd fpis r')"

definition key_length :: "table \<Rightarrow> mono_key_def \<Rightarrow> bytes \<Rightarrow> slice_error + nat" where
  "key_length tbl kd key =
     map_sum id (\<lambda>r. length key - remaining_bytes r)
       (key_length_loop tbl kd (take (m_key_parts kd) (m_pack_info kd)) (reader_of_slice key))"

section \<open>Keys that bound a scan\<close>

text \<open>
  \<open>successor\<close> and \<open>predecessor\<close> run from the last byte to the first; the loops
  are on the reversed key. The results are the new bytes and the number of bytes
  that changed.
\<close>

fun successor_rev :: "bytes \<Rightarrow> bytes \<times> nat" where
  "successor_rev [] = ([], 0)"
| "successor_rev (b # bs) =
     (if b \<noteq> 0xFF then ((b + 1) # bs, 1)
      else case successor_rev bs of (bs', n) \<Rightarrow> (0 # bs', n + 1))"

definition successor :: "bytes \<Rightarrow> bytes \<times> nat" where
  "successor packed_tuple = (case successor_rev (rev packed_tuple) of (bs, n) \<Rightarrow> (rev bs, n))"

fun predecessor_rev :: "bytes \<Rightarrow> bytes \<times> nat" where
  "predecessor_rev [] = ([], 0)"
| "predecessor_rev (b # bs) =
     (if b \<noteq> 0 then ((b - 1) # bs, 1)
      else case predecessor_rev bs of (bs', n) \<Rightarrow> (0xFF # bs', n + 1))"

definition predecessor :: "bytes \<Rightarrow> bytes \<times> nat" where
  "predecessor packed_tuple = (case predecessor_rev (rev packed_tuple) of (bs, n) \<Rightarrow> (rev bs, n))"

text \<open>The key is resized to the maximal length and filled with 0xFF.\<close>

definition get_ceiling_key :: "mono_key_def \<Rightarrow> bytes \<Rightarrow> bytes" where
  "get_ceiling_key kd packed = vec_resize (m_maxlength kd) 0xFF packed"

definition cmp_full_keys :: "bytes \<Rightarrow> bytes \<Rightarrow> int" where
  "cmp_full_keys a b = memcmp (min (length a) (length b)) a b"

definition value_matches_prefix :: "bytes \<Rightarrow> bytes \<Rightarrow> bool" where
  "value_matches_prefix v pre \<longleftrightarrow> cmp_full_keys v pre = 0"

section \<open>Smaller queries\<close>

definition can_unpack :: "mono_key_def \<Rightarrow> nat \<Rightarrow> bool option" where
  "can_unpack kd kp = map_option (\<lambda>fpi. m_unpack_func fpi \<noteq> None) (nth_opt (m_pack_info kd) kp)"

definition has_unpack_info :: "mono_key_def \<Rightarrow> nat \<Rightarrow> bool option" where
  "has_unpack_info kd kp = map_option uses_unpack_info (nth_opt (m_pack_info kd) kp)"

definition get_table_field_for_part_no :: "mono_key_def \<Rightarrow> table \<Rightarrow> nat \<Rightarrow> field option" where
  "get_table_field_for_part_no kd tbl part_no =
     Option.bind (nth_opt (m_pack_info kd) part_no) (get_field_in_table tbl)"

definition index_format_min_check :: "mono_key_def \<Rightarrow> bool" where
  "index_format_min_check kd =
     (case m_index_type kd of INDEX_TYPE_PRIMARY \<Rightarrow> True | INDEX_TYPE_HIDDEN_PRIMARY \<Rightarrow> True
      | INDEX_TYPE_SECONDARY \<Rightarrow> True)"

definition MONO_CHECKSUM_CHUNK_SIZE :: nat where "MONO_CHECKSUM_CHUNK_SIZE = 2 * 4 + 1"

definition MONO_CHECKSUM_DATA_TAG :: byte where "MONO_CHECKSUM_DATA_TAG = 0x01"

definition MONO_UNPACK_DATA_TAG :: byte where "MONO_UNPACK_DATA_TAG = 0x02"

definition MONO_UNPACK_COVERED_DATA_TAG :: byte where "MONO_UNPACK_COVERED_DATA_TAG = 0x03"

definition is_unpack_data_tag :: "byte \<Rightarrow> bool" where
  "is_unpack_data_tag c \<longleftrightarrow> c = MONO_UNPACK_DATA_TAG \<or> c = MONO_UNPACK_COVERED_DATA_TAG"

text \<open>A tag without a header raises \<open>std::out_of_range\<close>.\<close>

definition get_unpack_header_size :: "byte \<Rightarrow> nat option" where
  "get_unpack_header_size tag =
     (if tag = MONO_UNPACK_DATA_TAG then Some 3 else if tag = MONO_UNPACK_COVERED_DATA_TAG then Some 5 else None)"

definition unpack_info_has_checksum :: "bytes \<Rightarrow> bool" where
  "unpack_info_has_checksum unpack_info =
     (case unpack_info of
        [] \<Rightarrow> False
      | tag # rest \<Rightarrow>
          let size0 = length unpack_info;
              skip_len = (case get_unpack_header_size tag of
                            None \<Rightarrow> 0
                          | Some h \<Rightarrow> if h \<le> size0 then be_val (take 2 rest) else 0);
              size1 = (size0 + 2 ^ 64 - skip_len) mod 2 ^ 64
          in size1 = MONO_CHECKSUM_CHUNK_SIZE \<and> nth_opt unpack_info skip_len = Some MONO_CHECKSUM_DATA_TAG)"

section \<open>The neighbours of a key\<close>

lemma successor_rev_val:
  "successor_rev bs = (bs', n) \<Longrightarrow>
   length bs' = length bs \<and> le_val bs' = (le_val bs + 1) mod 256 ^ length bs \<and> (bs \<noteq> [] \<longrightarrow> 0 < n) \<and> n \<le> length bs"
proof (induction bs arbitrary: bs' n)
  case (Cons b bs)
  note lt = le_val_less [of "b # bs"]
  show ?case
  proof (cases "b = 0xFF")
    case False
    then have "unat b \<noteq> 255" by (auto simp: word_unat_eq_iff)
    then have "unat b < 255" using unat_byte_less [of b] by linarith
    then have "unat (b + 1) = unat b + 1" "unat b + 1 < 256" by (simp_all add: unat_word_ariths)
    moreover have "256 * le_val bs + 256 \<le> 256 * 256 ^ length bs" using le_val_less [of bs] by simp
    ultimately show ?thesis using Cons.prems False by auto
  next
    case True
    obtain cs m where r: "successor_rev bs = (cs, m)" by fastforce
    have "le_val (b # bs) + 1 = 256 * (le_val bs + 1)" using True by simp
    then show ?thesis using Cons.prems True r Cons.IH [OF r] by (auto simp: mult_mod_right)
  qed
qed simp

lemma predecessor_rev_successor: "successor_rev bs = (bs', n) \<Longrightarrow> predecessor_rev bs' = (bs, n)"
proof (induction bs arbitrary: bs' n)
  case (Cons b bs)
  have "b + 1 \<noteq> 0" if "b \<noteq> 0xFF"
  proof
    assume "b + 1 = 0"
    then have "b = - 1" by (simp add: eq_neg_iff_add_eq_0)
    then show False using that by simp
  qed
  then show ?case using Cons by (auto split: prod.splits if_splits)
qed simp

text \<open>
  \<open>successor\<close> is the addition of 1 to the key as a big-endian number, modulo its
  width, and \<open>predecessor\<close> undoes it.
\<close>

lemma successor_val: "length (fst (successor p)) = length p" "be_val (fst (successor p)) = (be_val p + 1) mod 256 ^ length p"
  using successor_rev_val [of "rev p"] by (auto simp: successor_def be_val_def split: prod.split)

lemma be_val_Nil [simp]: "be_val [] = 0"
  by (simp add: be_val_def)

lemma all_FF_val: "be_val (replicate n 0xFF) = 256 ^ n - 1"
  by (induction n) (auto simp: be_val_Cons)

lemma successor_val_less:
  assumes "p \<noteq> replicate (length p) 0xFF"
  shows "be_val (fst (successor p)) = be_val p + 1"
proof -
  have "be_val p \<noteq> 256 ^ length p - 1"
    using assms be_val_inj [of p "replicate (length p) 0xFF"] by (auto simp: all_FF_val)
  then have "be_val p + 1 < 256 ^ length p" using be_val_less [of p] by linarith
  then show ?thesis by (simp add: successor_val)
qed



text \<open>
  The successor wraps around: a key of bytes 0xFF, the greatest of its length,
  gets the least key of that length; and \<open>predecessor\<close> undoes \<open>successor\<close> on every
  key, with the same number of changed bytes.
\<close>

lemma successor_wraps:
  "fst (successor (replicate n 0xFF)) = replicate n 0 \<and> predecessor (fst (successor p)) = (p, snd (successor p))"
proof
  have "be_val (replicate n 0 :: bytes) = 0" by (induction n) (auto simp: be_val_Cons)
  then show "fst (successor (replicate n 0xFF)) = replicate n 0"
    using be_val_inj [of "fst (successor (replicate n 0xFF))" "replicate n 0"] by (simp add: successor_val all_FF_val)
  obtain bs m where r: "successor_rev (rev p) = (bs, m)" by fastforce
  then show "predecessor (fst (successor p)) = (p, snd (successor p))"
    using predecessor_rev_successor [OF r] by (simp add: successor_def predecessor_def)
qed

lemma not_less_FF: "length d \<le> m \<Longrightarrow> \<not> lexlt (replicate m 0xFF) d"
proof (induction d arbitrary: m)
  case (Cons b d)
  have "\<not> (0xFF :: byte) < b" using less_Suc_eq_le [of "unat b" 255] unat_byte_less [of b] by (simp add: word_less_nat_alt not_less del: unat_byte_less)
  with Cons show ?case by (cases m) auto
qed simp

lemma lexlt_cases: "lexlt xs ys \<longleftrightarrow> lexlt_in xs ys \<or> length xs < length ys \<and> take (length xs) ys = xs"
  by (induction xs ys rule: lexlt.induct) auto

text \<open>
  The ceiling key ends the range of a prefix: among the keys that are not longer
  than the maximal length of the index, those that start with a prefix are exactly
  those from the prefix up to its ceiling key.
\<close>

lemma ceiling_range:
  assumes "length p \<le> m_maxlength kd" "length k \<le> m_maxlength kd"
  shows "take (length p) k = p \<longleftrightarrow> \<not> lexlt k p \<and> \<not> lexlt (get_ceiling_key kd p) k"
proof (cases "length p \<le> length k")
  case True
  define t where "t = take (length p) k"
  define d where "d = drop (length p) k"
  let ?F = "replicate (m_maxlength kd - length p) (0xFF :: byte)"
  have k: "k = t @ d" and len: "length t = length p" and ld: "length d \<le> m_maxlength kd - length p"
    using assms True by (simp_all add: t_def d_def)
  have c: "get_ceiling_key kd p = p @ ?F" using assms by (simp add: get_ceiling_key_def vec_resize_def)
  have "lexlt k p \<longleftrightarrow> lexlt_in t p"
    using lexlt_append_eq_length [OF len, of d "[]"] by (cases d) (auto simp: k)
  moreover have "lexlt (p @ ?F) k \<longleftrightarrow> lexlt_in p t"
    using lexlt_append_eq_length [OF len [symmetric], of ?F d] not_less_FF [OF ld] by (auto simp: k)
  ultimately show ?thesis
    using lexlt_in_total_eq_length [OF len] by (auto simp: c t_def [symmetric])
next
  case False
  have c: "get_ceiling_key kd p = p @ replicate (m_maxlength kd - length p) 0xFF"
    using assms by (simp add: get_ceiling_key_def vec_resize_def)
  have "take (length p) k \<noteq> p" using False by (metis length_take min.cobounded1 min.commute)
  moreover have "lexlt (get_ceiling_key kd p) k" if "\<not> lexlt k p"
  proof -
    have "lexlt p k" using that lexlt_total [of k p] False by auto
    then have "lexlt_in p k" using False by (simp add: lexlt_cases)
    then show ?thesis using lexlt_in_imp_lexlt [of p k _ "[]"] by (simp add: c)
  qed
  ultimately show ?thesis by blast
qed

section \<open>Walking over the parts of a packed key\<close>

lemma read_memcmp_part_ok:
  assumes "wf_part (fpi, pf, sf) v" "rd_at r (enc_part (fpi, pf, sf) v @ rest)"
  shows "read_memcmp_part fpi (if known then Some sf else None) r =
    Some (real_maybe_null pf \<and> c_null v, rd_adv (length (enc_part (fpi, pf, sf) v)) r)"
proof -
  let ?e = "enc_part (fpi, pf, sf) v"
  have "skip_nullable known (fpi, pf, sf) r = Some (rd_adv (length ?e) r)"
    by (rule key_codec.skip_enc [OF part_key_codec assms])
  then obtain b where b: "read_memcmp_part fpi (if known then Some sf else None) r = Some (b, rd_adv (length ?e) r)"
    by (auto simp: skip_nullable_def)
  have mn: "m_maybe_null fpi = real_maybe_null pf" using assms(1) by (simp add: wf_part_def)
  have "b = (real_maybe_null pf \<and> c_null v)"
  proof (cases "real_maybe_null pf")
    case True
    let ?b = "if c_null v then 0 else 1 :: byte" and ?xs = "if c_null v then [] else part_image (fpi, pf, sf) v"
    have r: "rd_at r ([?b] @ ?xs @ rest)" using assms(2) True by (auto simp: enc_part_def split: if_splits)
    show ?thesis using b mn True read_bytes_append [OF r, of 1] by (auto simp: read_memcmp_part_def split: if_splits)
  qed (use b mn in \<open>auto simp: read_memcmp_part_def\<close>)
  with b show ?thesis by simp
qed

text \<open>
  The images of the parts of a packed key, the hidden primary key as the last of
  them; \<open>walks\<close> says that reading a part stops behind its image.
\<close>

definition key_images :: "table \<Rightarrow> bytes option \<Rightarrow> part list \<Rightarrow> cell list \<Rightarrow> bytes list" where
  "key_images tbl hid ps row = map2 enc_part ps row @
     (case hid of Some h \<Rightarrow> if table_has_hidden_pk (tbl_s tbl) then [h] else [] | None \<Rightarrow> [])"

lemma concat_key_images: "concat (key_images tbl hid ps row) = enc_row enc_part ps row @ hidden_tail tbl hid"
proof -
  have "concat (map2 enc_part ps row) = enc_row enc_part ps row"
    by (induction enc_part ps row rule: enc_row.induct) auto
  then show ?thesis by (auto simp: key_images_def hidden_tail_def split: option.split)
qed

definition walks :: "table \<Rightarrow> mono_key_def \<Rightarrow> bytes list \<Rightarrow> bool" where
  "walks tbl kd es \<longleftrightarrow> (\<forall>i < length es. \<forall>r rest. rd_at r (es ! i @ rest) \<longrightarrow>
     (\<exists>b. read_memcmp_key_part tbl kd r i = Inr (b, rd_adv (length (es ! i)) r)))"

text \<open>The key has no other parts than those given, and the hidden one is not nullable.\<close>

definition full_key :: "table \<Rightarrow> mono_key_def \<Rightarrow> bytes option \<Rightarrow> part list \<Rightarrow> bool" where
  "full_key tbl kd hid ps \<longleftrightarrow>
     (if table_has_hidden_pk (tbl_s tbl)
      then hid \<noteq> None \<and> the hid \<noteq> [] \<and> m_key_parts kd = length ps + 1 \<and>
           m_skip_func (m_pack_info kd ! length ps) = Skip_max_length \<and> \<not> m_maybe_null (m_pack_info kd ! length ps)
      else m_key_parts kd = length ps)"

lemma read_visible_part:
  assumes "parts_at tbl kd 0 ps" "i < length ps" "full_key tbl kd hid ps"
    and "ps ! i = (fpi, pf, sf)" "wf_part (fpi, pf, sf) v" "rd_at r (enc_part (fpi, pf, sf) v @ rest)"
  shows "read_memcmp_key_part tbl kd r i =
    Inr (real_maybe_null pf \<and> c_null v, rd_adv (length (enc_part (fpi, pf, sf) v)) r)"
proof -
  have t: "table_part tbl (m_pack_info kd ! i) = Some (fpi, pf, sf)" "i < length (m_pack_info kd)"
    using assms(1,2,4) by (auto simp: parts_at_def)
  then have f: "m_pack_info kd ! i = fpi" "get_field_in_table tbl fpi = Some sf"
    by (auto simp: table_part_def split: option.splits)
  have "\<not> (i + 1 = m_key_parts kd \<and> ts_primary_key (tbl_s tbl) = MAX_INDEXES)"
    using assms(2,3) by (auto simp: full_key_def table_has_hidden_pk_def)
  then show ?thesis
    using f t(2) read_memcmp_part_ok [OF assms(5,6), of True] by (auto simp: read_memcmp_key_part_def nth_opt_less Let_def)
qed

lemma key_images_walk:
  assumes "parts_at tbl kd 0 ps" "list_all2 wf_part ps row" "full_key tbl kd hid ps"
    "hidden_ok tbl kd hid n (length ps)"
  shows "walks tbl kd (key_images tbl hid ps row)" "length (key_images tbl hid ps row) = m_key_parts kd"
proof -
  have len: "length ps = length row" using assms(2) by (rule list_all2_lengthD)
  then show "length (key_images tbl hid ps row) = m_key_parts kd"
    using assms(3) by (auto simp: key_images_def full_key_def split: option.splits if_splits)
  show "walks tbl kd (key_images tbl hid ps row)" unfolding walks_def
  proof (intro allI impI)
    fix i r rest assume i: "i < length (key_images tbl hid ps row)" and r: "rd_at r (key_images tbl hid ps row ! i @ rest)"
    show "\<exists>b. read_memcmp_key_part tbl kd r i = Inr (b, rd_adv (length (key_images tbl hid ps row ! i)) r)"
    proof (cases "i < length ps")
      case True
      obtain fpi pf sf where p: "ps ! i = (fpi, pf, sf)" by (cases "ps ! i")
      have "wf_part (fpi, pf, sf) (row ! i)" using assms(2) True p by (metis list_all2_nthD)
      moreover have "key_images tbl hid ps row ! i = enc_part (fpi, pf, sf) (row ! i)"
        using True len p by (simp add: key_images_def nth_append)
      ultimately show ?thesis using read_visible_part [OF assms(1) True assms(3) p] r by auto
    next
      case False
      let ?fpi = "m_pack_info kd ! length ps"
      have h: "table_has_hidden_pk (tbl_s tbl)" "hid \<noteq> None" "i = length ps" "key_images tbl hid ps row ! i = the hid"
        using i False len by (auto simp: key_images_def nth_append split: option.splits if_splits)
      have hp: "m_key_parts kd = length ps + 1" "m_skip_func ?fpi = Skip_max_length" "\<not> m_maybe_null ?fpi"
        "length ps < length (m_pack_info kd)" "m_max_image_len ?fpi = length (the hid)" "the hid \<noteq> []"
        using assms(3,4) h(1,2) by (simp_all add: full_key_def hidden_ok_def)
      obtain q where "rd_read (length (the hid)) r = (Some q, rd_adv (length (the hid)) r)"
        by (rule rd_read_ok [OF r [unfolded h(4)], of "length (the hid)"]) (use hp(6) in auto)
      then show ?thesis unfolding h(4)
        using h(1,3) hp by (auto simp: read_memcmp_key_part_def read_memcmp_part_def skip_part_def skip_max_length_def nth_opt_less
            table_has_hidden_pk_def Let_def)
    qed
  qed
qed

section \<open>The primary key inside a secondary key\<close>

text \<open>Where the image of a part starts.\<close>

definition image_start :: "bytes list \<Rightarrow> nat \<Rightarrow> nat" where
  "image_start es i = length (concat (take i es))"

lemma image_start_Suc: "i < length es \<Longrightarrow> image_start es (Suc i) = image_start es i + length (es ! i)"
  by (simp add: image_start_def take_Suc_conv_app_nth)

lemma image_at: "i < length es \<Longrightarrow> take (length (es ! i)) (drop (image_start es i) (concat es @ rest)) = es ! i"
proof -
  assume i: "i < length es"
  have "concat es = concat (take i es) @ es ! i @ concat (drop (Suc i) es)"
    using id_take_nth_drop [OF i] by (metis concat.simps(2) concat_append)
  then show ?thesis by (simp add: image_start_def)
qed

lemma pk_offsets_walk:
  assumes "walks tbl kd es" "length (m_pk_part_no kd) = length es"
    "\<forall>i < length es. \<forall>j. m_pk_part_no kd ! i = Some j \<longrightarrow> j < MAX_REF_PARTS"
    and "i + n = length es" "rd_at r (concat (drop i es))" "m_ptr r = Some (image_start es i)"
  shows "\<exists>offs'. pk_offsets tbl kd n i r offs = Inr offs' \<and>
    (\<forall>j. offs' j = (case filter (\<lambda>k. m_pk_part_no kd ! k = Some j) (rev [i..<length es]) of
                      [] \<Rightarrow> offs j | k # _ \<Rightarrow> Some (image_start es k, image_start es (Suc k))))"
  using assms(4-)
proof (induction n arbitrary: i r offs)
  case (Suc n)
  have i: "i < length es" using Suc.prems(1) by simp
  have r: "rd_at r (es ! i @ concat (drop (Suc i) es))" using Suc.prems(2) Cons_nth_drop_Suc [OF i] by (metis concat.simps(2))
  let ?r = "rd_adv (length (es ! i)) r"
  obtain b where b: "read_memcmp_key_part tbl kd r i = Inr (b, ?r)" using assms(1) i r unfolding walks_def by blast
  have ptr: "m_ptr ?r = Some (image_start es (Suc i))" using Suc.prems(3) by (simp add: rd_adv_def image_start_Suc [OF i])
  have at: "rd_at ?r (concat (drop (Suc i) es))" by (rule rd_at_adv_append [OF r refl])
  note IH = Suc.IH [OF _ at ptr]
  have up: "rev [i..<length es] = rev [Suc i..<length es] @ [i]" using i by (simp add: upt_conv_Cons)
  show ?case
  proof (cases "m_pk_part_no kd ! i")
    case None
    then show ?thesis using IH [of offs] Suc.prems(1) b i assms(2) unfolding up by (auto simp: nth_opt_less)
  next
    case (Some j)
    then have "pk_offsets tbl kd (Suc n) i r offs =
        pk_offsets tbl kd n (Suc i) ?r (offs(j \<mapsto> (image_start es i, image_start es (Suc i))))"
      using b i assms(2,3) ptr Suc.prems(3) by (simp add: nth_opt_less get_current_ptr_def)
    moreover obtain offs' where o: "pk_offsets tbl kd n (Suc i) ?r (offs(j \<mapsto> (image_start es i, image_start es (Suc i)))) = Inr offs'"
      "\<forall>ja. offs' ja = (case filter (\<lambda>k. m_pk_part_no kd ! k = Some ja) (rev [Suc i..<length es]) of
          [] \<Rightarrow> (offs(j \<mapsto> (image_start es i, image_start es (Suc i)))) ja | k # _ \<Rightarrow> Some (image_start es k, image_start es (Suc k)))"
      using IH [of "offs(j \<mapsto> (image_start es i, image_start es (Suc i)))"] Suc.prems(1) unfolding add_Suc_shift by blast
    ultimately show ?thesis using Some unfolding up
      by (intro exI [of _ offs']) (auto simp del: pk_offsets.simps split: list.split)
  qed
qed simp

lemma pk_copy_images:
  assumes "\<forall>j. i \<le> j \<longrightarrow> j < i + n \<longrightarrow> offs j = Some (s j, e j)"
  shows "pk_copy key offs n i = Inr (concat (map (\<lambda>j. take (e j - s j) (drop (s j) key)) [i..<i + n]))"
  using assms
proof (induction n arbitrary: i)
  case (Suc n)
  have "pk_copy key offs n (Suc i) = Inr (concat (map (\<lambda>j. take (e j - s j) (drop (s j) key)) [Suc i..<Suc i + n]))"
    by (rule Suc.IH) (use Suc.prems in auto)
  moreover have "offs i = Some (s i, e i)" using Suc.prems by simp
  moreover have "[i..<i + Suc n] = i # [Suc i..<Suc i + n]" by (simp add: upt_conv_Cons)
  ultimately show ?case by simp
qed simp

text \<open>
  The part numbers point to the images of the primary key: every primary key part
  has one part of the secondary key with the same image.
\<close>

definition pk_inside :: "mono_key_def \<Rightarrow> bytes list \<Rightarrow> bytes list \<Rightarrow> bool" where
  "pk_inside kd es qs \<longleftrightarrow>
     length (m_pk_part_no kd) = length es \<and> m_pk_key_parts kd = length qs \<and>
     (\<forall>i < length es. \<forall>j. m_pk_part_no kd ! i = Some j \<longrightarrow> j < MAX_REF_PARTS \<and> j < length qs \<and> es ! i = qs ! j) \<and>
     (\<forall>j < length qs. \<exists>i < length es. m_pk_part_no kd ! i = Some j)"

lemma map_nth': "(\<And>j. j < length xs \<Longrightarrow> f j = xs ! j) \<Longrightarrow> map f [0..<length xs] = xs"
  by (rule nth_equalityI) auto

lemma get_primary_key_images:
  assumes "walks tbl kd es" "length es = m_key_parts kd" "pk_inside kd es qs" "length (concat es) < 2 ^ 32"
  shows "get_primary_key_tuple tbl kd (concat es) = Inr (concat qs)"
proof -
  define last where "last j = hd (filter (\<lambda>k. m_pk_part_no kd ! k = Some j) (rev [0..<length es]))" for j
  have r: "rd_at (reader_of_slice (concat es)) (concat (drop 0 es))" "m_ptr (reader_of_slice (concat es)) = Some (image_start es 0)"
    using rd_at_of_slice [OF assms(4)] by (simp_all add: reader_of_slice_def image_start_def)
  obtain offs where offs: "pk_offsets tbl kd (length es) 0 (reader_of_slice (concat es)) Map.empty = Inr offs"
    "\<forall>j. offs j = (case filter (\<lambda>k. m_pk_part_no kd ! k = Some j) (rev [0..<length es]) of
          [] \<Rightarrow> None | k # _ \<Rightarrow> Some (image_start es k, image_start es (Suc k)))"
    using pk_offsets_walk [OF assms(1) _ _ _ r, of "length es" Map.empty] assms(3) by (auto simp: pk_inside_def)
  have pos: "last j < length es \<and> es ! last j = qs ! j \<and> offs j = Some (image_start es (last j), image_start es (Suc (last j)))"
    if j: "j < length qs" for j
  proof -
    let ?F = "filter (\<lambda>k. m_pk_part_no kd ! k = Some j) (rev [0..<length es])"
    have "\<exists>k \<in> set [0..<length es]. m_pk_part_no kd ! k = Some j" using assms(3) j unfolding pk_inside_def by fastforce
    then have "?F \<noteq> []" by (auto simp: filter_empty_conv)
    then obtain k ks where F: "?F = k # ks" by (cases ?F) auto
    then have "k \<in> set ?F" by simp
    then have "k < length es" "m_pk_part_no kd ! k = Some j" by auto
    then show ?thesis using F offs(2) assms(3) by (simp add: last_def pk_inside_def)
  qed
  have cut: "take (image_start es (Suc (last j)) - image_start es (last j)) (drop (image_start es (last j)) (concat es)) = qs ! j"
    if "j < length qs" for j
    using pos [OF that] image_at [of "last j" es "[]"] by (simp add: image_start_Suc)
  have "pk_copy (concat es) offs (length qs) 0 = Inr (concat (map (\<lambda>j.
      take (image_start es (Suc (last j)) - image_start es (last j)) (drop (image_start es (last j)) (concat es))) [0..<0 + length qs]))"
    by (rule pk_copy_images) (use pos in auto)
  also have "map (\<lambda>j. take (image_start es (Suc (last j)) - image_start es (last j)) (drop (image_start es (last j)) (concat es)))
      [0..<0 + length qs] = qs"
    using map_nth' [of qs, OF cut] by simp
  finally show ?thesis using offs(1) assms(2,3) by (simp add: get_primary_key_tuple_def pk_inside_def)
qed

text \<open>Where a part stands in its key plays no role for its image.\<close>

abbreviation relabel :: "nat \<Rightarrow> nat \<Rightarrow> nat \<Rightarrow> mono_field_packing \<Rightarrow> mono_field_packing" where
  "relabel a b c fpi \<equiv> fpi\<lparr>m_keynr := a, m_key_part := b, m_unpack_data_offset := c\<rparr>"

lemma relabel_xfrm:
  "varchar_xfrm (relabel a b c fpi) = varchar_xfrm fpi" "space_pad_xfrm (relabel a b c fpi) = space_pad_xfrm fpi"
  by (simp_all add: varchar_xfrm_def space_pad_xfrm_def fun_eq_iff)

lemma relabel_image:
  "pack_with_make_sort_key (relabel a b c fpi) = pack_with_make_sort_key fpi" "pack_blob (relabel a b c fpi) = pack_blob fpi"
  "pack_with_varchar_encoding (relabel a b c fpi) = pack_with_varchar_encoding fpi"
  "pack_with_varchar_space_pad (relabel a b c fpi) f v None = pack_with_varchar_space_pad fpi f v None"
  by (simp_all add: pack_with_make_sort_key_def pack_blob_def pack_with_varchar_encoding_def pack_with_varchar_space_pad_def
      relabel_xfrm fun_eq_iff split: option.split)

definition same_part :: "part \<Rightarrow> part \<Rightarrow> bool" where
  "same_part p q \<longleftrightarrow> fst (snd p) = fst (snd q) \<and> (\<exists>a b c. fst q = relabel a b c (fst p))"

lemma same_part_image: "same_part p q \<Longrightarrow> enc_part p v = enc_part q v"
  by (cases p; cases q) (auto simp: same_part_def enc_part_def part_image_def pack_part_def relabel_image
      split: option.split pack_func.split)

text \<open>The columns of the primary key among the parts of a secondary key.\<close>

definition pk_columns :: "mono_key_def \<Rightarrow> part list \<Rightarrow> part list \<Rightarrow> bool" where
  "pk_columns kd ps qs \<longleftrightarrow>
     length (m_pk_part_no kd) = length ps \<and> m_pk_key_parts kd = length qs \<and>
     (\<forall>i < length ps. \<forall>j. m_pk_part_no kd ! i = Some j \<longrightarrow> j < MAX_REF_PARTS \<and> j < length qs \<and> same_part (ps ! i) (qs ! j)) \<and>
     (\<forall>j < length qs. \<exists>i < length ps. m_pk_part_no kd ! i = Some j)"

lemma key_row_nth: "i < length ps \<Longrightarrow> key_row record ps ! i = record (field_index (fst (snd (ps ! i))))"
  by (cases "ps ! i") (simp add: key_row_def)

lemma pk_columns_inside:
  assumes "pk_columns kd ps qs" "\<not> table_has_hidden_pk (tbl_s tbl)"
  shows "pk_inside kd (key_images tbl None ps (key_row record ps)) (map2 enc_part qs (key_row record qs))"
proof -
  have "enc_part (ps ! i) (key_row record ps ! i) = enc_part (qs ! j) (key_row record qs ! j)"
    if "i < length ps" "j < length qs" "same_part (ps ! i) (qs ! j)" for i j
    using that same_part_image [OF that(3)] by (simp add: key_row_nth same_part_def)
  then show ?thesis using assms(1) unfolding pk_inside_def pk_columns_def by (auto simp: key_images_def)
qed

text \<open>
  C8. The primary key inside a secondary key: for a table with a primary key,
  \<open>get_primary_key_tuple\<close> on the packed secondary key of a record gives exactly the
  packed primary key of the record, so a secondary index entry leads to its row.
\<close>

theorem primary_key_of_secondary:
  assumes sk: "parts_at tbl kd 0 ps" "row_ok ps (key_row record ps)"
      "hidden_ok tbl kd None (pack_n_key_parts tbl kd modsk None nk) (length ps)" "m_key_parts kd = length ps"
    and pk: "parts_at tbl pkd 0 qs" "row_ok qs (key_row record qs)"
      "hidden_ok tbl pkd None (pack_n_key_parts tbl pkd False None 0) (length qs)"
    and cols: "pk_columns kd ps qs" "\<not> table_has_hidden_pk (tbl_s tbl)"
    and len: "length (enc_row enc_part ps (key_row record ps)) < 2 ^ 32"
  shows "\<exists>st pst. pack_record tbl kd record w modsk None nk = Some st \<and> pack_record tbl pkd record None False None 0 = Some pst \<and>
    get_primary_key_tuple tbl kd (pk_tuple st) = Inr (pk_tuple pst)"
proof -
  let ?es = "key_images tbl None ps (key_row record ps)" and ?qs = "map2 enc_part qs (key_row record qs)"
  have f: "full_key tbl kd None ps" using cols(2) sk(4) by (simp add: full_key_def)
  note walk = key_images_walk [OF sk(1) row_ok_wf [OF sk(2)] f sk(3)]
  have "concat ?qs = enc_row enc_part qs (key_row record qs)"
    using concat_key_images [of tbl None qs "key_row record qs"] by (simp add: key_images_def hidden_tail_def)
  moreover have "concat ?es = enc_row enc_part ps (key_row record ps)" by (simp add: concat_key_images hidden_tail_def)
  ultimately show ?thesis
    using get_primary_key_images [OF walk pk_columns_inside [OF cols]] len pack_record_image [OF sk(1-3), of w]
      pack_record_image [OF pk, of None] by (auto simp: hidden_tail_def)
qed

text \<open>The primary key of the sample table.\<close>

definition sample_pk :: mono_key_def where
  "sample_pk = \<lparr>m_index_type = INDEX_TYPE_PRIMARY, m_unique_sk_only_key_parts = 0, m_pk_key_parts = 0,
     m_pk_part_no = [], m_pack_info = [sample_part 0 1], m_keyno = 0, m_key_parts = 1, m_maxlength = 4\<rparr>"

lemma sample_row_length:
  "length (enc_row enc_part sample_parts (key_row (sample_record [a, b, c, d] (Some [e, f, g, h])) sample_parts)) = 9"
  by (simp add: enc_part_def part_image_def pack_part_def pack_with_make_sort_key_def sort_string_def sort_string_long_def
      key_row_def sample_key_defs)

theorem primary_key_of_secondary_witness:
  "\<exists>st pst. pack_record sample_table sample_sk (sample_record [7, 0, 0, 0] (Some [5, 0, 0, 0])) None True None 0 = Some st \<and>
     pack_record sample_table sample_pk (sample_record [7, 0, 0, 0] (Some [5, 0, 0, 0])) None False None 0 = Some pst \<and>
     get_primary_key_tuple sample_table sample_sk (pk_tuple st) = Inr (pk_tuple pst)"
proof -
  let ?r = "sample_record [7, 0, 0, 0] (Some [5, 0, 0, 0])" and ?q = "[sample_parts ! 1]"
  have sk: "row_ok sample_parts (key_row ?r sample_parts)" "m_key_parts sample_sk = length sample_parts"
    by (simp_all add: sample_row_ok) (simp add: sample_key_defs)
  have pk: "parts_at sample_table sample_pk 0 ?q" "row_ok ?q (key_row ?r ?q)"
    "hidden_ok sample_table sample_pk None (pack_n_key_parts sample_table sample_pk False None 0) (length ?q)"
    using sample_parts_at sk(1)
    by (auto simp: parts_at_def sample_pk_def sample_parts_def sample_sk_def sample_row_ok hidden_ok_def pack_n_key_parts_def
        sample_table_def sample_defs table_has_hidden_pk_def MAX_INDEXES_def All_less_Suc2)
  have c: "pk_columns sample_sk sample_parts ?q" "\<not> table_has_hidden_pk (tbl_s sample_table)"
    by (auto simp: pk_columns_def same_part_def sample_key_defs MAX_REF_PARTS_def table_has_hidden_pk_def MAX_INDEXES_def
        less_Suc_eq intro: exI [of _ 0])
  have len: "length (enc_row enc_part sample_parts (key_row ?r sample_parts)) < 2 ^ 32" by (simp add: sample_row_length)
  show ?thesis
    by (rule primary_key_of_secondary [OF sample_parts_at sk(1) sample_hidden_ok sk(2) pk c len])
qed

text \<open>
  C9. The hidden primary key inside a secondary key: for a table without primary
  key, \<open>get_primary_key_tuple\<close> on a packed secondary key gives back the hidden
  primary key that was packed as its last part.
\<close>

theorem hidden_key_of_secondary:
  assumes sk: "parts_at tbl kd 0 ps" "row_ok ps (key_row record ps)" "full_key tbl kd (Some h) ps"
      "hidden_ok tbl kd (Some h) (pack_n_key_parts tbl kd modsk (Some h) nk) (length ps)"
    and hidden: "table_has_hidden_pk (tbl_s tbl)" "m_pk_key_parts kd = 1" "m_pk_part_no kd = replicate (length ps) None @ [Some 0]"
    and len: "length (enc_row enc_part ps (key_row record ps) @ h) < 2 ^ 32"
  shows "\<exists>st. pack_record tbl kd record w modsk (Some h) nk = Some st \<and>
    get_primary_key_tuple tbl kd (pk_tuple st) = Inr h"
proof -
  let ?es = "key_images tbl (Some h) ps (key_row record ps)"
  note walk = key_images_walk [OF sk(1) row_ok_wf [OF sk(2)] sk(3,4)]
  have e: "concat ?es = enc_row enc_part ps (key_row record ps) @ h" using hidden(1) by (simp add: concat_key_images hidden_tail_def)
  have "pk_inside kd ?es [h]"
    using hidden by (auto simp: pk_inside_def key_images_def nth_append MAX_REF_PARTS_def split: if_splits)
  from get_primary_key_images [OF walk this] e len pack_record_image [OF sk(1,2,4), of w] hidden(1)
  show ?thesis by (auto simp: hidden_tail_def)
qed

text \<open>The sample table without its primary key, and its secondary key with a hidden primary key of 16 bytes.\<close>

definition hidden_table :: table where
  "hidden_table = sample_table\<lparr>tbl_s := sample_share\<lparr>ts_primary_key := MAX_INDEXES\<rparr>\<rparr>"

definition hidden_sk :: mono_key_def where
  "hidden_sk = sample_sk\<lparr>m_pack_info := [sample_part 1 2, (sample_part 0 1)\<lparr>m_max_image_len := 16\<rparr>]\<rparr>"

theorem hidden_key_of_secondary_witness:
  "\<exists>st. pack_record hidden_table hidden_sk (sample_record [7, 0, 0, 0] (Some [5, 0, 0, 0])) None True (Some (replicate 16 9)) 0 = Some st \<and>
     get_primary_key_tuple hidden_table hidden_sk (pk_tuple st) = Inr (replicate 16 9)"
proof -
  let ?r = "sample_record [7, 0, 0, 0] (Some [5, 0, 0, 0])" and ?p = "[sample_parts ! 0]" and ?h = "replicate 16 9 :: bytes"
  have sk: "parts_at hidden_table hidden_sk 0 ?p" "row_ok ?p (key_row ?r ?p)" "full_key hidden_table hidden_sk (Some ?h) ?p"
    "hidden_ok hidden_table hidden_sk (Some ?h) (pack_n_key_parts hidden_table hidden_sk True (Some ?h) 0) (length ?p)"
    by (simp_all add: parts_at_def table_part_def get_original_field_in_table_def get_field_in_table_def nth_opt_def
        get_key_part_length_def row_ok_def wf_part_def wf_value_def wf_sort_key_def wf_integer_def info_ready_def key_row_def
        full_key_def hidden_ok_def pack_n_key_parts_def table_has_hidden_pk_def hidden_table_def hidden_sk_def
        sample_key_defs All_less_Suc2)
  have hid: "table_has_hidden_pk (tbl_s hidden_table)" "m_pk_key_parts hidden_sk = 1"
    "m_pk_part_no hidden_sk = replicate (length ?p) None @ [Some 0]"
    by (simp_all add: hidden_table_def hidden_sk_def sample_table_def sample_sk_def table_has_hidden_pk_def)
  have len: "length (enc_row enc_part ?p (key_row ?r ?p) @ ?h) < 2 ^ 32"
    using sample_row_length [of 7 0 0 0 5 0 0 0] by (simp add: sample_parts_def)
  show ?thesis by (rule hidden_key_of_secondary [OF sk hid len])
qed

section \<open>The columns of a secondary key\<close>

definition null_count :: "part list \<Rightarrow> cell list \<Rightarrow> nat" where
  "null_count ps row = length (filter (\<lambda>((fpi, pf, sf), c). real_maybe_null pf \<and> c_null c) (zip ps row))"

lemma sk_parts_walk:
  assumes "parts_at tbl kd 0 ps" "list_all2 wf_part ps row" "full_key tbl kd hid ps" "i + n \<le> length ps"
    and "rd_at r (enc_row enc_part (drop i ps) (drop i row) @ rest)"
  shows "sk_parts_loop tbl kd n i r c = Inr (c + null_count (take n (drop i ps)) (take n (drop i row)),
    rd_adv (length (enc_row enc_part (take n (drop i ps)) (take n (drop i row)))) r)"
  using assms(4,5)
proof (induction n arbitrary: i r c)
  case (Suc n)
  have len: "length ps = length row" using assms(2) by (rule list_all2_lengthD)
  have i: "i < length ps" "i < length row" using Suc.prems(1) len by simp_all
  obtain fpi pf sf where p: "ps ! i = (fpi, pf, sf)" by (cases "ps ! i")
  let ?e = "enc_part (fpi, pf, sf) (row ! i)" and ?null = "real_maybe_null pf \<and> c_null (row ! i)"
  have d: "drop i ps = (fpi, pf, sf) # drop (Suc i) ps" "drop i row = row ! i # drop (Suc i) row"
    using i p by (simp_all add: Cons_nth_drop_Suc [symmetric])
  have r: "rd_at r (?e @ enc_row enc_part (drop (Suc i) ps) (drop (Suc i) row) @ rest)" using Suc.prems(2) d by simp
  have "wf_part (fpi, pf, sf) (row ! i)" using assms(2) i(1) p by (metis list_all2_nthD)
  note rd = read_visible_part [OF assms(1) i(1) assms(3) p this r]
  have "sk_parts_loop tbl kd n (Suc i) (rd_adv (length ?e) r) (if ?null then c + 1 else c) =
      Inr ((if ?null then c + 1 else c) + null_count (take n (drop (Suc i) ps)) (take n (drop (Suc i) row)),
        rd_adv (length (enc_row enc_part (take n (drop (Suc i) ps)) (take n (drop (Suc i) row)))) (rd_adv (length ?e) r))"
    by (rule Suc.IH) (use Suc.prems(1) rd_at_adv_append [OF r] in auto)
  then show ?case using rd unfolding d by (simp add: null_count_def)
qed (simp add: null_count_def)



section \<open>The first different column\<close>

definition first_diff :: "part list \<Rightarrow> cell list \<Rightarrow> cell list \<Rightarrow> nat" where
  "first_diff ps as bs =
     length (takeWhile (\<lambda>(p, a, b). \<not> lt_part p a b \<and> \<not> lt_part p b a) (zip ps (zip as bs)))"

text \<open>The comparison of the images of one value.\<close>

lemma compare_value:
  assumes "wf_value (fpi, pf, sf) a" "wf_value (fpi, pf, sf) b"
    and "rd_at r1 (part_image (fpi, pf, sf) a @ s)" "rd_at r2 (part_image (fpi, pf, sf) b @ t)"
    and "m_ptr r1 \<noteq> None" "m_ptr r2 \<noteq> None"
  shows "(case (skip_part fpi None r1, skip_part fpi None r2) of
      (Some r1', Some r2') \<Rightarrow>
        let size1 = remaining_bytes r1 - remaining_bytes r1'; size2 = remaining_bytes r2 - remaining_bytes r2'
        in if size1 \<noteq> size2 \<or> fst (read_bytes size1 r1) \<noteq> fst (read_bytes size2 r2) then Some i
           else cont r1' r2'
    | _ \<Rightarrow> None) =
    (if part_image (fpi, pf, sf) a \<noteq> part_image (fpi, pf, sf) b then Some i
     else cont (rd_adv (length (part_image (fpi, pf, sf) a)) r1) (rd_adv (length (part_image (fpi, pf, sf) b)) r2))"
proof -
  let ?a = "part_image (fpi, pf, sf) a" and ?b = "part_image (fpi, pf, sf) b"
  note skip = key_codec.skip_enc [OF value_codec [of fpi pf sf False], simplified]
  have s: "skip_part fpi None r1 = Some (rd_adv (length ?a) r1)" "skip_part fpi None r2 = Some (rd_adv (length ?b) r2)"
    using skip [OF assms(1,3)] skip [OF assms(2,4)] by simp_all
  have l: "remaining_bytes r1 - remaining_bytes (rd_adv (length ?a) r1) = length ?a"
    "remaining_bytes r2 - remaining_bytes (rd_adv (length ?b) r2) = length ?b"
    using rd_at_remaining [OF assms(3)] rd_at_remaining [OF rd_at_adv_append [OF assms(3) refl]]
      rd_at_remaining [OF assms(4)] rd_at_remaining [OF rd_at_adv_append [OF assms(4) refl]] by simp_all
  have rd: "fst (read_bytes (length xs) r) = Some xs" if "rd_at r (xs @ ys)" "m_ptr r \<noteq> None" for xs ys r
    using that rd_at_len [OF that(1)]
    by (cases "xs = []") (auto simp: read_bytes_append, auto simp: read_bytes_def rd_read_def)
  show ?thesis using s l rd [OF assms(3,5)] rd [OF assms(4,6)] by (auto simp: Let_def)
qed

lemma m_ptr_adv: "m_ptr (rd_adv n r) = None \<longleftrightarrow> m_ptr r = None"
  by (simp add: rd_adv_def)

lemma compare_loop_parts:
  assumes "list_all2 wf_part ps as" "list_all2 wf_part ps bs"
    and "rd_at r1 (enc_row enc_part ps as @ s)" "rd_at r2 (enc_row enc_part ps bs @ t)" "m_ptr r1 \<noteq> None" "m_ptr r2 \<noteq> None"
  shows "compare_loop (map fst ps) i r1 r2 = Some (i + first_diff ps as bs)"
  using assms
proof (induction ps arbitrary: as bs i r1 r2)
  case (Cons p ps)
  obtain fpi pf sf where p: "p = (fpi, pf, sf)" by (cases p)
  obtain a as' b bs' where v: "as = a # as'" "bs = b # bs'" "wf_part p a" "wf_part p b" "list_all2 wf_part ps as'" "list_all2 wf_part ps bs'"
    using Cons.prems by (auto simp: list_all2_Cons1)
  let ?x = "enc_row enc_part ps as' @ s" and ?y = "enc_row enc_part ps bs' @ t"
  have mn: "m_maybe_null fpi = real_maybe_null pf" using v(3) by (simp add: wf_part_def p)
  have r: "rd_at r1 (enc_part p a @ ?x)" "rd_at r2 (enc_part p b @ ?y)" using Cons.prems(3,4) v by simp_all
  have eq: "enc_part p a = enc_part p b \<longleftrightarrow> \<not> lt_part p a b \<and> \<not> lt_part p b a"
    using key_codec.enc_eq [OF part_key_codec v(3,4)] key_codec.enc_lt [OF part_key_codec v(3,4)]
      key_codec.enc_lt [OF part_key_codec v(4,3)] by (metis lexlt_in_irrefl)
  have step: "compare_loop (map fst (p # ps)) i r1 r2 =
      (if enc_part p a \<noteq> enc_part p b then Some i
       else compare_loop (map fst ps) (i + 1) (rd_adv (length (enc_part p a)) r1) (rd_adv (length (enc_part p b)) r2))"
  proof (cases "real_maybe_null pf")
    case False
    then show ?thesis
      using compare_value [of fpi pf sf a b r1 ?x r2 ?y i "\<lambda>r1 r2. compare_loop (map fst ps) (i + 1) r1 r2"] r v Cons.prems(5,6) mn
      by (simp add: enc_part_def p wf_part_def)
  next
    case True
    let ?n = "\<lambda>v. if c_null v then 0 else 1 :: byte" and ?v = "\<lambda>v. if c_null v then [] else part_image p v"
    have r': "rd_at r1 ([?n a] @ ?v a @ ?x)" "rd_at r2 ([?n b] @ ?v b @ ?y)"
      using r True by (auto simp: enc_part_def p split: if_splits)
    have rd: "read_bytes 1 r1 = (Some [?n a], rd_adv 1 r1)" "read_bytes 1 r2 = (Some [?n b], rd_adv 1 r2)"
      by (rule read_bytes_append [OF r'(1)] read_bytes_append [OF r'(2)]; simp)+
    have at: "rd_at (rd_adv 1 r1) (?v a @ ?x)" "rd_at (rd_adv 1 r2) (?v b @ ?y)"
      by (rule rd_at_adv_append [OF r'(1)] rd_at_adv_append [OF r'(2)]; simp)+
    have e: "enc_part p v = ?n v # ?v v" for v using True by (simp add: enc_part_def p)
    show ?thesis
    proof (cases "c_null a \<or> c_null b")
      case null: True
      then show ?thesis using rd mn True by (auto simp: e [unfolded p] p)
    next
      case False
      then show ?thesis
        using compare_value [of fpi pf sf a b "rd_adv 1 r1" ?x "rd_adv 1 r2" ?y i "\<lambda>r1 r2. compare_loop (map fst ps) (i + 1) r1 r2"]
          at v(3,4) Cons.prems(5,6) rd mn True
        by (simp add: e [unfolded p] p wf_part_def m_ptr_adv Let_def cong: option.case_cong)
    qed
  qed
  have "compare_loop (map fst ps) (i + 1) (rd_adv (length (enc_part p a)) r1) (rd_adv (length (enc_part p b)) r2) =
      Some (i + 1 + first_diff ps as' bs')"
    by (rule Cons.IH [OF v(5,6) rd_at_adv_append [OF r(1) refl] rd_at_adv_append [OF r(2) refl]])
      (use Cons.prems(5,6) in \<open>simp_all add: m_ptr_adv\<close>)
  then show ?case unfolding step using eq by (auto simp: v(1,2) first_diff_def)
qed (simp add: first_diff_def)



section \<open>The length of a padded key\<close>

lemma key_length_loop_parts:
  assumes "\<forall>p \<in> set ps. get_field_in_table tbl (fst p) = Some (snd (snd p)) \<and> \<not> real_maybe_null (fst (snd p))"
    and "list_all2 wf_part ps row" "rd_at r (enc_row enc_part ps row @ rest)" "m_index_type kd \<noteq> INDEX_TYPE_HIDDEN_PRIMARY"
  shows "key_length_loop tbl kd (map fst ps) r = Inr (rd_adv (length (enc_row enc_part ps row)) r)"
  using assms
proof (induction ps arbitrary: row r)
  case (Cons p ps)
  obtain fpi pf sf where p: "p = (fpi, pf, sf)" by (cases p)
  obtain v vs where v: "row = v # vs" "wf_part p v" "list_all2 wf_part ps vs" using Cons.prems(2) by (auto simp: list_all2_Cons1)
  have f: "get_field_in_table tbl fpi = Some sf" "\<not> real_maybe_null pf" using Cons.prems(1) by (simp_all add: p)
  have e: "enc_part p v = part_image p v" using f(2) by (simp add: p enc_part_def)
  have r: "rd_at r (part_image p v @ enc_row enc_part ps vs @ rest)" using Cons.prems(3) e by (simp add: v(1))
  have "wf_value p v" using v(2) f(2) by (simp add: wf_part_def p)
  then have s: "skip_part fpi (Some sf) r = Some (rd_adv (length (part_image p v)) r)"
    using key_codec.skip_enc [OF value_codec [of fpi pf sf True], of v r "enc_row enc_part ps vs @ rest"] r by (simp add: p)
  have "key_length_loop tbl kd (map fst ps) (rd_adv (length (part_image p v)) r) =
      Inr (rd_adv (length (enc_row enc_part ps vs)) (rd_adv (length (part_image p v)) r))"
    by (rule Cons.IH [OF _ v(3) rd_at_adv_append [OF r refl] Cons.prems(4)]) (use Cons.prems(1) in simp)
  then show ?case using s f Cons.prems(4) e by (simp add: v(1) p)
qed simp

text \<open>
  C22. The length of a padded key: for the packed key of a record over columns that
  are not nullable, whatever bytes pad it, \<open>key_length\<close> is the length without the
  padding.
\<close>

theorem key_length_padded:
  assumes "parts_at tbl kd 0 ps" "row_ok ps (key_row record ps)" "m_key_parts kd = length ps"
    and "hidden_ok tbl kd None (pack_n_key_parts tbl kd False None nk) (length ps)"
    and "\<forall>p \<in> set ps. \<not> real_maybe_null (fst (snd p))" "m_index_type kd \<noteq> INDEX_TYPE_HIDDEN_PRIMARY"
    and len: "length (enc_row enc_part ps (key_row record ps)) + length pad < 2 ^ 32"
  shows "\<exists>st. pack_record tbl kd record w False None nk = Some st \<and>
    key_length tbl kd (pk_tuple st @ pad) = Inr (length (pk_tuple st))"
proof -
  let ?e = "enc_row enc_part ps (key_row record ps)"
  have fpis: "take (m_key_parts kd) (m_pack_info kd) = map fst ps"
    using assms(1,3) part_fst [OF assms(1)] by (intro nth_equalityI) (auto simp: parts_at_def)
  have "get_field_in_table tbl (fst p) = Some (snd (snd p))" if p: "p \<in> set ps" for p
  proof -
    obtain i where "i < length ps" "ps ! i = p" using p by (auto simp: in_set_conv_nth)
    then have "table_part tbl (m_pack_info kd ! i) = Some p" using assms(1) by (auto simp: parts_at_def)
    then show ?thesis by (auto simp: table_part_def split: option.splits)
  qed
  then have "key_length_loop tbl kd (map fst ps) (reader_of_slice (?e @ pad)) = Inr (rd_adv (length ?e) (reader_of_slice (?e @ pad)))"
    using assms(5,6) rd_at_of_slice [of "?e @ pad"] len by (intro key_length_loop_parts [OF _ row_ok_wf [OF assms(2)]]) auto
  moreover have "remaining_bytes (rd_adv (length ?e) (reader_of_slice (?e @ pad))) = length pad"
    using rd_at_of_slice [of "?e @ pad"] len by (intro rd_at_remaining rd_at_adv_append) auto
  ultimately show ?thesis
    using pack_record_image [OF assms(1,2,4), of w] by (auto simp: key_length_def fpis hidden_tail_def)
qed

theorem key_length_padded_witness:
  "\<exists>st. pack_record sample_table sample_pk (sample_record [7, 0, 0, 0] None) None False None 0 = Some st \<and>
     key_length sample_table sample_pk (pk_tuple st @ [0, 0, 0]) = Inr (length (pk_tuple st))"
proof -
  let ?r = "sample_record [7, 0, 0, 0] None" and ?q = "[sample_parts ! 1]"
  have pk: "parts_at sample_table sample_pk 0 ?q" "row_ok ?q (key_row ?r ?q)" "m_key_parts sample_pk = length ?q"
    "hidden_ok sample_table sample_pk None (pack_n_key_parts sample_table sample_pk False None 0) (length ?q)"
    "\<forall>p \<in> set ?q. \<not> real_maybe_null (fst (snd p))" "m_index_type sample_pk \<noteq> INDEX_TYPE_HIDDEN_PRIMARY"
    by (simp_all add: parts_at_def table_part_def get_original_field_in_table_def get_field_in_table_def nth_opt_def
        get_key_part_length_def row_ok_def wf_part_def wf_value_def wf_sort_key_def wf_integer_def info_ready_def key_row_def
        sample_pk_def hidden_ok_def pack_n_key_parts_def table_has_hidden_pk_def MAX_INDEXES_def sample_key_defs All_less_Suc2)
  have "length (enc_row enc_part ?q (key_row ?r ?q)) = 4"
    by (simp add: enc_part_def part_image_def pack_part_def pack_with_make_sort_key_def sort_string_def sort_string_long_def
        key_row_def sample_key_defs)
  then show ?thesis using key_length_padded [OF pk, of "[0, 0, 0]" None] by simp
qed

section \<open>Scans of a key prefix\<close>

lemma prefix_image_iff:
  assumes "list_all2 wf_part ps as" "list_all2 wf_part ps bs"
  shows "take (length (enc_row enc_part ps as)) (enc_row enc_part ps bs @ t) = enc_row enc_part ps as \<longleftrightarrow>
    \<not> row_lt lt_part ps as bs \<and> \<not> row_lt lt_part ps bs as" (is "take (length ?a) (?b @ t) = ?a \<longleftrightarrow> ?eq")
proof
  assume "take (length ?a) (?b @ t) = ?a"
  then obtain z where z: "?b @ t = ?a @ z" by (metis append_take_drop_id)
  have "\<not> lexlt_in ?a ?b"
    using lexlt_in_append [of ?a ?b "[]" t] lexlt_in_append_same [of ?a "[]" z] by (auto simp: z)
  moreover have "\<not> lexlt_in ?b ?a"
    using lexlt_in_append [of ?b ?a t z] by (auto simp: z)
  ultimately show ?eq using key_parts.row_less_iff [OF assms] key_parts.row_less_iff [OF assms(2,1)] by simp
next
  assume ?eq
  then show "take (length ?a) (?b @ t) = ?a" using key_image_eq_iff [OF assms] by simp
qed

text \<open>
  C6. Scanning a prefix finds the matching rows: if a record's first columns are
  packed as a search key, a stored key lies between the search key and its ceiling
  key exactly when its record agrees with the search on these columns (under their
  collations).
\<close>

theorem prefix_scan_exact:
  assumes parts: "parts_at tbl kd 0 ps" "n \<le> length ps"
    and search: "row_ok (take n ps) (key_row ra (take n ps))" "hidden_ok tbl kd None (pack_n_key_parts tbl kd False None n) n"
    and stored: "row_ok ps (key_row rb ps)" "hidden_ok tbl kd hid (pack_n_key_parts tbl kd modsk hid 0) (length ps)"
    and max: "length (enc_row enc_part (take n ps) (key_row ra (take n ps))) \<le> m_maxlength kd"
      "length (enc_row enc_part ps (key_row rb ps) @ hidden_tail tbl hid) \<le> m_maxlength kd"
  shows "\<exists>sa sb. pack_record tbl kd ra None False None n = Some sa \<and> pack_record tbl kd rb w modsk hid 0 = Some sb \<and>
    (\<not> lexlt (pk_tuple sb) (pk_tuple sa) \<and> \<not> lexlt (get_ceiling_key kd (pk_tuple sa)) (pk_tuple sb) \<longleftrightarrow>
       \<not> row_lt lt_part (take n ps) (key_row ra (take n ps)) (key_row rb (take n ps)) \<and>
       \<not> row_lt lt_part (take n ps) (key_row rb (take n ps)) (key_row ra (take n ps)))"
proof -
  let ?qs = "take n ps"
  let ?a = "enc_row enc_part ?qs (key_row ra ?qs)" and ?b = "enc_row enc_part ?qs (key_row rb ?qs)"
  have pq: "parts_at tbl kd 0 ?qs" using parts by (simp add: parts_at_def)
  have hq: "hidden_ok tbl kd None (pack_n_key_parts tbl kd False None n) (length ?qs)" using search(2) parts(2) by simp
  obtain sa where a: "pack_record tbl kd ra None False None n = Some sa" "pk_tuple sa = ?a"
    using pack_record_image [OF pq search(1) hq, of None] by (auto simp: hidden_tail_def)
  obtain sb where b: "pack_record tbl kd rb w modsk hid 0 = Some sb"
    "pk_tuple sb = enc_row enc_part ps (key_row rb ps) @ hidden_tail tbl hid"
    using pack_record_image [OF parts(1) stored, of w] by blast
  obtain t where t: "pk_tuple sb = ?b @ t"
    using enc_row_take_append [of ps "key_row rb ps" enc_part n] b(2) by (auto simp: key_row_take)
  have "list_all2 wf_part ?qs (key_row ra ?qs)" "list_all2 wf_part ?qs (key_row rb ?qs)"
    using search(1) stored(1) by (auto simp: row_ok_def key_row_take)
  note pre = prefix_image_iff [OF this, of t, folded t, folded a(2)]
  have "length (pk_tuple sa) \<le> m_maxlength kd" "length (pk_tuple sb) \<le> m_maxlength kd" using max a(2) b(2) by simp_all
  from ceiling_range [OF this] show ?thesis using pre a(1) b(1) by blast
qed

theorem prefix_scan_exact_witness:
  "\<exists>sa sb. pack_record sample_table sample_sk (sample_record [0, 0, 0, 0] (Some [5, 0, 0, 0])) None False None 1 = Some sa \<and>
     pack_record sample_table sample_sk (sample_record [7, 0, 0, 0] (Some [5, 0, 0, 0])) None False None 0 = Some sb \<and>
     \<not> lexlt (pk_tuple sb) (pk_tuple sa) \<and> \<not> lexlt (get_ceiling_key sample_sk (pk_tuple sa)) (pk_tuple sb)"
proof -
  let ?a = "sample_record [0, 0, 0, 0] (Some [5, 0, 0, 0])" and ?b = "sample_record [7, 0, 0, 0] (Some [5, 0, 0, 0])"
    and ?q = "take 1 sample_parts"
  have n: "1 \<le> length sample_parts" by (simp add: sample_parts_def)
  have ok: "row_ok sample_parts (key_row ?a sample_parts)" "row_ok sample_parts (key_row ?b sample_parts)"
    by (simp_all add: sample_row_ok)
  have s: "row_ok ?q (key_row ?a ?q)" using ok(1) by (simp add: sample_parts_def row_ok_def)
  have h: "hidden_ok sample_table sample_sk None (pack_n_key_parts sample_table sample_sk False None 1) 1"
    by (simp add: hidden_ok_def pack_n_key_parts_def table_has_hidden_pk_def MAX_INDEXES_def MAX_REF_PARTS_def sample_key_defs)
  have m: "length (enc_row enc_part ?q (key_row ?a ?q)) \<le> m_maxlength sample_sk"
    "length (enc_row enc_part sample_parts (key_row ?b sample_parts) @ hidden_tail sample_table None) \<le> m_maxlength sample_sk"
    using sample_row_length [of 0 0 0 0 5 0 0 0] sample_row_length [of 7 0 0 0 5 0 0 0]
    by (simp_all add: hidden_tail_def) (simp_all add: sample_parts_def sample_sk_def)
  have eq: "key_row ?b ?q = key_row ?a ?q" "\<not> row_lt lt_part ?q (key_row ?a ?q) (key_row ?a ?q)"
    by (simp_all add: key_row_def lt_part_def lt_value_def lt_sort_key_def lt_integer_def sample_key_defs)
  show ?thesis
    using prefix_scan_exact [OF sample_parts_at n s h ok(2) sample_hidden_ok m, of None] eq by simp
qed

end
