(* ===== verification/Eloq_Key.thy ===== *)
theory Eloq_Key
  imports Slice_Ops Key_Slices
begin

text \<open>
  \<open>EloqKey\<close> and \<open>EloqRecord\<close> (\<open>eloqsql_key.h\<close>), the keys and the records of the
  transaction service: their order with the two infinite keys, the construction of
  a key from a table record, serialization, and the position of a key in an
  interval that the optimizer's statistics use.
\<close>

section \<open>Keys\<close>

text \<open>
  The infinite keys are two distinguished objects that the comparisons recognise
  by their address; every other object is its packed bytes.
\<close>

datatype eloq_key = NegativeInfinity | PositiveInfinity | PackedKey bytes

primrec packed_key :: "eloq_key \<Rightarrow> bytes" where
  "packed_key NegativeInfinity = []"
| "packed_key PositiveInfinity = []"
| "packed_key (PackedKey bs) = bs"

datatype key_type = NegativeInf | PositiveInf | Normal

definition key_Type :: "eloq_key \<Rightarrow> key_type" where
  "key_Type k = (if k = NegativeInfinity then NegativeInf else if k = PositiveInfinity then PositiveInf else Normal)"

text \<open>
  The constructor from a table record: it packs into a buffer of the maximal length
  (\<open>None\<close> if the packed key does not fit) and cuts a unique secondary key behind
  its unique columns.
\<close>

definition eloq_key_of_record ::
  "mono_key_def \<Rightarrow> table \<Rightarrow> rec_buf \<Rightarrow> bytes option \<Rightarrow> bool \<Rightarrow> eloq_key option" where
  "eloq_key_of_record kd tbl record hidden_pk is_unique_sk =
     (case pack_record tbl kd record None is_unique_sk hidden_pk 0 of
        None \<Rightarrow> None
      | Some st \<Rightarrow>
          if m_maxlength kd < length (pk_tuple st) then None
          else if is_unique_sk
          then (case pk_unique_sk_pack_size st of
                  None \<Rightarrow> None
                | Some n \<Rightarrow> Some (PackedKey (vec_resize n 0 (pk_tuple st))))
          else Some (PackedKey (pk_tuple st)))"

definition eloq_key_of_hidden :: "mono_key_def \<Rightarrow> bytes \<Rightarrow> eloq_key option" where
  "eloq_key_of_hidden kd hidden_pk =
     (case pack_hidden_pk kd hidden_pk of
        None \<Rightarrow> None
      | Some bs \<Rightarrow> if m_maxlength kd < length bs then None else Some (PackedKey bs))"

definition PackedNegativeInfinity :: eloq_key where
  "PackedNegativeInfinity = PackedKey [0]"

text \<open>The maximal length is that of the key, for a secondary key with that of the primary key.\<close>

definition PackedPositiveInfinity :: "mono_key_def \<Rightarrow> mono_key_def option \<Rightarrow> eloq_key" where
  "PackedPositiveInfinity kd pkd =
     PackedKey (vec_resize (m_maxlength kd + (case pkd of None \<Rightarrow> 0 | Some p \<Rightarrow> m_maxlength p)) 0xFF [])"

definition key_eq :: "eloq_key \<Rightarrow> eloq_key \<Rightarrow> bool" where
  "key_eq l r =
     (if l = NegativeInfinity \<or> l = PositiveInfinity \<or> r = NegativeInfinity \<or> r = PositiveInfinity then l = r
      else slice_compare (packed_key l) (packed_key r) = 0)"

definition IsPrefixOf :: "eloq_key \<Rightarrow> eloq_key \<Rightarrow> bool" where
  "IsPrefixOf k r =
     (if k = NegativeInfinity \<or> k = PositiveInfinity \<or> r = NegativeInfinity \<or> r = PositiveInfinity then k = r
      else let key_len = min (length (packed_key k)) (length (packed_key r))
           in if memcmp key_len (packed_key k) (packed_key r) \<noteq> 0 then False
              else length (packed_key k) \<le> length (packed_key r))"

definition key_less :: "eloq_key \<Rightarrow> eloq_key \<Rightarrow> bool" where
  "key_less l r =
     (if l = NegativeInfinity then r \<noteq> NegativeInfinity
      else if l = PositiveInfinity \<or> r = NegativeInfinity then False
      else if r = PositiveInfinity then l \<noteq> PositiveInfinity
      else lexlt (packed_key l) (packed_key r))"

definition key_less_equal :: "eloq_key \<Rightarrow> eloq_key \<Rightarrow> bool" where
  "key_less_equal l r = (\<not> key_less r l)"

text \<open>
  Serialization into a byte vector at an offset, which is cut or extended to the
  size that is needed, and at the end of a string. The length is a \<open>uint16_t\<close> in
  the byte order of the machine (little endian).
\<close>

definition key_Serialize :: "eloq_key \<Rightarrow> bytes \<Rightarrow> nat \<Rightarrow> (bytes \<times> nat) option" where
  "key_Serialize k buf offset =
     (let packed = packed_key k;
          buf = vec_resize (offset + 2 + length packed) 0 buf;
          len_val = length packed mod 65536
      in Option.bind (memcpy_at buf offset (le_bytes 2 len_val))
           (\<lambda>buf. map_option (\<lambda>buf. (buf, offset + 2 + len_val)) (memcpy_at buf (offset + 2) packed)))"

definition key_Serialize_string :: "eloq_key \<Rightarrow> bytes \<Rightarrow> bytes" where
  "key_Serialize_string k str =
     (let len_val = length (packed_key k) mod 65536 in str @ le_bytes 2 len_val @ take len_val (packed_key k))"

definition key_SerializedLength :: "eloq_key \<Rightarrow> nat" where
  "key_SerializedLength k = 2 + length (packed_key k)"

text \<open>A read past the end of the buffer is undefined.\<close>

definition bytes_at :: "bytes \<Rightarrow> nat \<Rightarrow> nat \<Rightarrow> bytes option" where
  "bytes_at buf offset n = (if offset + n \<le> length buf then Some (take n (drop offset buf)) else None)"

definition key_Deserialize :: "bytes \<Rightarrow> nat \<Rightarrow> (eloq_key \<times> nat) option" where
  "key_Deserialize buf offset =
     Option.bind (bytes_at buf offset 2) (\<lambda>len.
       let len_val = le_val len
       in map_option (\<lambda>bs. (PackedKey bs, offset + 2 + len_val)) (bytes_at buf (offset + 2) len_val))"

text \<open>Cloning keeps the infinite keys and copies the bytes of others; copying always copies the bytes.\<close>

definition CloneTxKey :: "eloq_key \<Rightarrow> eloq_key" where
  "CloneTxKey k = (if k = NegativeInfinity then NegativeInfinity else if k = PositiveInfinity then PositiveInfinity
                   else PackedKey (packed_key k))"

definition key_Copy :: "eloq_key \<Rightarrow> eloq_key" where
  "key_Copy rhs = PackedKey (packed_key rhs)"

definition SetPackedKey :: "bytes \<Rightarrow> eloq_key" where
  "SetPackedKey data = PackedKey data"

section \<open>The position of a key in an interval\<close>

text \<open>
  The result of \<open>PosInInterval\<close>: 0, 1 or 0.5, or the quotient of two numbers, cut
  at 1. The conversion of both to \<open>double\<close> and the division are not evaluated.
\<close>

datatype interval_pos = Pos_zero | Pos_half | Pos_one | Pos_ratio nat nat

definition pos_in_interval :: "eloq_key \<Rightarrow> eloq_key \<Rightarrow> eloq_key \<Rightarrow> interval_pos" where
  "pos_in_interval k min_key max_key =
     (if key_less_equal k min_key then Pos_zero else if key_less_equal max_key k then Pos_one else Pos_half)"

text \<open>The first eight bytes behind the common prefix as a number, missing bytes as 0.\<close>

definition interval_value :: "bytes \<Rightarrow> nat" where
  "interval_value s = le_val (rev (take 8 s @ replicate (8 - length s) 0))"

definition trim_slice :: "bytes \<Rightarrow> nat \<Rightarrow> nat \<Rightarrow> bytes" where
  "trim_slice s offset trim_size = take (if trim_size < length s then length s - trim_size else 0) (drop offset s)"

definition PosInInterval :: "nat \<Rightarrow> eloq_key \<Rightarrow> eloq_key \<Rightarrow> eloq_key \<Rightarrow> interval_pos" where
  "PosInInterval trim_suffix_size k min_key max_key =
     (let pos = pos_in_interval k min_key max_key
      in if pos = Pos_zero \<or> pos = Pos_one then pos
         else let offset = difference_offset (packed_key min_key) (packed_key max_key);
                  trim_size = offset + trim_suffix_size;
                  min_v = interval_value (trim_slice (packed_key min_key) offset trim_size);
                  max_v = interval_value (trim_slice (packed_key max_key) offset trim_size);
                  this_v = interval_value (drop offset (packed_key k))
              in if min_v = max_v then Pos_half
                 else if max_v < min_v then Pos_one
                 else if this_v \<le> min_v then Pos_zero
                 else Pos_ratio (this_v - min_v) (max_v - min_v))"

section \<open>Records\<close>

record eloq_record =
  encoded_blob :: bytes
  unpack_info :: bytes

definition rec_Length :: "eloq_record \<Rightarrow> nat" where
  "rec_Length r = length (encoded_blob r) + length (unpack_info r)"

definition rec_Serialize :: "eloq_record \<Rightarrow> bytes \<Rightarrow> nat \<Rightarrow> (bytes \<times> nat) option" where
  "rec_Serialize r buf offset =
     (let buf = vec_resize (offset + 2 * 8 + length (encoded_blob r) + length (unpack_info r)) 0 buf;
          offset1 = offset + 8;
          offset2 = offset1 + length (unpack_info r);
          offset3 = offset2 + 8
      in Option.bind (memcpy_at buf offset (le_bytes 8 (length (unpack_info r)))) (\<lambda>buf.
         Option.bind (memcpy_at buf offset1 (unpack_info r)) (\<lambda>buf.
         Option.bind (memcpy_at buf offset2 (le_bytes 8 (length (encoded_blob r)))) (\<lambda>buf.
         map_option (\<lambda>buf. (buf, offset3 + length (encoded_blob r))) (memcpy_at buf offset3 (encoded_blob r))))))"

definition rec_Serialize_string :: "eloq_record \<Rightarrow> bytes \<Rightarrow> bytes" where
  "rec_Serialize_string r str =
     str @ le_bytes 8 (length (unpack_info r)) @ unpack_info r @ le_bytes 8 (length (encoded_blob r)) @ encoded_blob r"

definition rec_SerializedLength :: "eloq_record \<Rightarrow> nat" where
  "rec_SerializedLength r = 8 * 2 + length (unpack_info r) + length (encoded_blob r)"

definition rec_Deserialize :: "bytes \<Rightarrow> nat \<Rightarrow> (eloq_record \<times> nat) option" where
  "rec_Deserialize buf offset =
     Option.bind (bytes_at buf offset 8) (\<lambda>l1.
       let len = le_val l1; offset = offset + 8
       in Option.bind (bytes_at buf offset len) (\<lambda>info.
            let offset = offset + len
            in Option.bind (bytes_at buf offset 8) (\<lambda>l2.
                 let len = le_val l2; offset = offset + 8
                 in map_option (\<lambda>blob. (\<lparr>encoded_blob = blob, unpack_info = info\<rparr>, offset + len)) (bytes_at buf offset len))))"

definition rec_Copy :: "eloq_record \<Rightarrow> eloq_record \<Rightarrow> eloq_record" where
  "rec_Copy r rhs = r\<lparr>encoded_blob := encoded_blob rhs, unpack_info := unpack_info rhs\<rparr>"

definition SetUnpackInfo :: "bytes \<Rightarrow> eloq_record \<Rightarrow> eloq_record" where
  "SetUnpackInfo bs r = r\<lparr>unpack_info := bs\<rparr>"

definition SetEncodedBlob :: "bytes \<Rightarrow> eloq_record \<Rightarrow> eloq_record" where
  "SetEncodedBlob bs r = r\<lparr>encoded_blob := bs\<rparr>"

section \<open>The order of keys\<close>

lemma lexlt_negtrans: "\<not> lexlt ys xs \<Longrightarrow> \<not> lexlt zs ys \<Longrightarrow> \<not> lexlt zs xs"
  by (metis lexlt_total lexlt_trans)

instantiation eloq_key :: linorder
begin

definition less_eq_eloq_key :: "eloq_key \<Rightarrow> eloq_key \<Rightarrow> bool" where
  "less_eq_eloq_key = key_less_equal"

definition less_eloq_key :: "eloq_key \<Rightarrow> eloq_key \<Rightarrow> bool" where
  "less_eloq_key = key_less"

instance
proof
  fix x y z :: eloq_key
  show "x < y \<longleftrightarrow> x \<le> y \<and> \<not> y \<le> x"
    by (cases x; cases y) (auto simp: less_eq_eloq_key_def less_eloq_key_def key_less_equal_def key_less_def dest: lexlt_asym)
  show "x \<le> x" by (cases x) (simp_all add: less_eq_eloq_key_def key_less_equal_def key_less_def)
  show "x \<le> y \<Longrightarrow> y \<le> z \<Longrightarrow> x \<le> z"
    by (cases x; cases y; cases z)
      (auto simp: less_eq_eloq_key_def key_less_equal_def key_less_def dest: lexlt_negtrans)
  show "x \<le> y \<Longrightarrow> y \<le> x \<Longrightarrow> x = y"
    by (cases x; cases y) (auto simp: less_eq_eloq_key_def key_less_equal_def key_less_def dest: lexlt_total)
  show "x \<le> y \<or> y \<le> x"
    by (cases x; cases y) (auto simp: less_eq_eloq_key_def key_less_equal_def key_less_def dest: lexlt_asym)
qed

end

text \<open>
  C28. Keys are totally ordered: \<open>operator==\<close> is equality and \<open>operator<\<close> and
  \<open>operator<=\<close> are a linear order with the infinite keys at its ends, which orders
  all other keys by their bytes.
\<close>

theorem eloq_key_order:
  "(key_eq l r \<longleftrightarrow> l = r) \<and> (key_less l r \<longleftrightarrow> key_less_equal l r \<and> \<not> key_eq l r) \<and>
   (key_less_equal l r \<or> key_less_equal r l) \<and> (key_less_equal l m \<and> key_less_equal m r \<longrightarrow> key_less_equal l r) \<and>
   key_less_equal NegativeInfinity l \<and> key_less_equal l PositiveInfinity \<and>
   (key_less (PackedKey a) (PackedKey b) \<longleftrightarrow> lexlt a b)"
proof -
  have eq: "key_eq l r \<longleftrightarrow> l = r"
    by (cases l; cases r) (simp_all add: key_eq_def slice_compare_eq)
  have "key_less l r \<longleftrightarrow> key_less_equal l r \<and> l \<noteq> r"
    using less_le [of l r] by (simp add: less_eq_eloq_key_def less_eloq_key_def)
  moreover have "key_less_equal l r \<or> key_less_equal r l"
    using linear [of l r] by (simp add: less_eq_eloq_key_def)
  moreover have "key_less_equal l m \<Longrightarrow> key_less_equal m r \<Longrightarrow> key_less_equal l r"
    using order_trans [of l m r] by (simp add: less_eq_eloq_key_def)
  moreover have "key_less_equal NegativeInfinity l" "key_less_equal l PositiveInfinity"
    "key_less (PackedKey a) (PackedKey b) \<longleftrightarrow> lexlt a b"
    by (simp_all add: key_less_equal_def key_less_def)
  ultimately show ?thesis using eq by blast
qed

theorem eloq_key_order_witness:
  "key_less_equal NegativeInfinity (PackedKey [1]) \<and> key_less_equal (PackedKey [1]) (PackedKey [1, 0]) \<and>
   key_less_equal NegativeInfinity (PackedKey [1, 0])"
  using eloq_key_order [of NegativeInfinity "PackedKey [1, 0]" "PackedKey [1]" "[]" "[]"]
  by (simp add: key_less_equal_def key_less_def)

lemma IsPrefixOf_iff: "IsPrefixOf (PackedKey p) (PackedKey k) \<longleftrightarrow> take (length p) k = p"
proof -
  let ?n = "min (length p) (length k)"
  have "memcmp ?n p k = 0 \<longleftrightarrow> take ?n p = take ?n k" by (rule memcmp_zero_iff) simp_all
  moreover have "length (take (length p) k) = length p" if "take (length p) k = p" using that by simp
  ultimately show ?thesis by (auto simp: IsPrefixOf_def Let_def min_def split: if_splits)
qed

lemma key_of_unique_record:
  assumes "parts_at tbl kd 0 ps" "row_ok ps (key_row record ps)"
    and "hidden_ok tbl kd hid (pack_n_key_parts tbl kd True hid 0) (length ps)" "size_noted tbl kd hid ps"
    and "length (enc_row enc_part ps (key_row record ps) @ hidden_tail tbl hid) \<le> m_maxlength kd"
  shows "eloq_key_of_record kd tbl record hid True =
    Some (PackedKey (enc_row enc_part (take (m_unique_sk_only_key_parts kd) ps) (key_row record (take (m_unique_sk_only_key_parts kd) ps))))"
proof -
  let ?u = "m_unique_sk_only_key_parts kd"
  obtain st where st: "pack_record tbl kd record None True hid 0 = Some st"
    "pk_tuple st = enc_row enc_part ps (key_row record ps) @ hidden_tail tbl hid"
    "pk_unique_sk_pack_size st = Some (length (enc_row enc_part (take ?u ps) (take ?u (key_row record ps))))"
    using pack_record_image [OF assms(1-3), of None] assms(4) by (auto simp: Let_def)
  have "enc_row enc_part ps (key_row record ps) =
      enc_row enc_part (take ?u ps) (take ?u (key_row record ps)) @ enc_row enc_part (drop ?u ps) (drop ?u (key_row record ps))"
    by (rule enc_row_take_append) simp
  then show ?thesis using st assms(5) by (simp add: eloq_key_of_record_def vec_resize_def key_row_take)
qed



section \<open>Serialization\<close>

lemma length_vec_resize [simp]: "length (vec_resize n v buf) = n"
  by (simp add: vec_resize_def)

lemma memcpy_at_last: "length buf = off + length src \<Longrightarrow> memcpy_at buf off src = Some (take off buf @ src)"
  by (simp add: memcpy_at_def)

lemma memcpy_at_some: "off + length src \<le> length buf \<Longrightarrow> memcpy_at buf off src = Some (take off buf @ src @ drop (off + length src) buf)"
  by (simp add: memcpy_at_def)

lemma take_vec_resize: "take n (vec_resize (n + m) v buf) = vec_resize n v buf"
  by (auto simp: vec_resize_def take_map min_def)

lemma key_Serialize_eq:
  "length (packed_key k) < 65536 \<Longrightarrow>
   key_Serialize k buf offset =
     Some (vec_resize offset 0 buf @ le_bytes 2 (length (packed_key k)) @ packed_key k, offset + key_SerializedLength k)"
  using take_vec_resize [of offset "2 + length (packed_key k)" 0 buf]
  by (simp add: key_Serialize_def Let_def memcpy_at_some key_SerializedLength_def add.assoc)

lemma bytes_at_append: "length xs = off \<Longrightarrow> length ys = n \<Longrightarrow> bytes_at (xs @ ys @ zs) off n = Some ys"
  by (simp add: bytes_at_def)

lemma le_val_le_bytes_small: "v < 256 ^ n \<Longrightarrow> le_val (le_bytes n v) = v"
  by (simp add: le_val_le_bytes)

lemma key_Deserialize_at:
  assumes "length (packed_key k) < 65536" "length xs = offset"
  shows "key_Deserialize (xs @ le_bytes 2 (length (packed_key k)) @ packed_key k @ rest) offset =
    Some (PackedKey (packed_key k), offset + key_SerializedLength k)"
proof -
  have "le_val (le_bytes 2 (length (packed_key k))) = length (packed_key k)"
    using assms(1) by (intro le_val_le_bytes_small) simp
  then show ?thesis
    using assms(2) bytes_at_append [of xs offset "le_bytes 2 (length (packed_key k))" 2 "packed_key k @ rest"]
      bytes_at_append [of "xs @ le_bytes 2 (length (packed_key k))" "offset + 2" "packed_key k" "length (packed_key k)" rest]
    by (simp add: key_Deserialize_def Let_def key_SerializedLength_def)
qed

text \<open>
  C32. Serialized keys round-trip: for a key of fewer than 65536 bytes, both forms of
  serialization are defined and write as many bytes as \<open>SerializedLength\<close> says;
  reading them back, whatever follows them, gives the bytes of the key and stops
  behind it.
\<close>

theorem key_serialize_roundtrip:
  assumes "length (packed_key k) < 65536"
  shows "\<exists>buf'. key_Serialize k buf offset = Some (buf', offset + key_SerializedLength k) \<and>
    take offset buf' = vec_resize offset 0 buf \<and>
    key_Deserialize (buf' @ rest) offset = Some (PackedKey (packed_key k), offset + key_SerializedLength k) \<and>
    key_Deserialize (key_Serialize_string k str @ rest) (length str) = Some (PackedKey (packed_key k), length str + key_SerializedLength k)"
proof -
  have "key_Serialize_string k str = str @ le_bytes 2 (length (packed_key k)) @ packed_key k"
    using assms by (simp add: key_Serialize_string_def)
  then show ?thesis
    using key_Serialize_eq [OF assms, of buf offset] key_Deserialize_at [OF assms, of "vec_resize offset 0 buf" offset rest]
      key_Deserialize_at [OF assms, of str "length str" rest] by simp
qed

theorem key_serialize_roundtrip_witness:
  "key_Deserialize (key_Serialize_string (PackedKey [7, 8]) [1] @ [9]) 1 = Some (PackedKey [7, 8], 5)"
  using key_serialize_roundtrip [of "PackedKey [7, 8]" "[]" 0 "[9]" "[1]"] by (auto simp: key_SerializedLength_def)

lemma rec_Serialize_eq:
  "rec_Serialize r buf offset =
     Some (vec_resize offset 0 buf @ le_bytes 8 (length (unpack_info r)) @ unpack_info r @
           le_bytes 8 (length (encoded_blob r)) @ encoded_blob r, offset + rec_SerializedLength r)"
proof -
  let ?n = "2 * 8 + length (encoded_blob r) + length (unpack_info r)"
  have "take offset (vec_resize (offset + ?n) 0 buf) = vec_resize offset 0 buf" by (rule take_vec_resize)
  then show ?thesis
    by (simp add: rec_Serialize_def Let_def memcpy_at_some rec_SerializedLength_def add.assoc)
qed

lemma rec_Deserialize_at:
  assumes "length (unpack_info r) < 2 ^ 64" "length (encoded_blob r) < 2 ^ 64"
  shows "rec_Deserialize (xs @ le_bytes 8 (length (unpack_info r)) @ unpack_info r @
      le_bytes 8 (length (encoded_blob r)) @ encoded_blob r @ rest) (length xs) =
    Some (\<lparr>encoded_blob = encoded_blob r, unpack_info = unpack_info r\<rparr>, length xs + rec_SerializedLength r)"
proof -
  let ?i = "unpack_info r" and ?b = "encoded_blob r"
  have l: "le_val (le_bytes 8 (length ?i)) = length ?i" "le_val (le_bytes 8 (length ?b)) = length ?b"
    using assms by (simp_all add: le_val_le_bytes_small)
  have a: "bytes_at (xs @ le_bytes 8 (length ?i) @ ?i @ le_bytes 8 (length ?b) @ ?b @ rest) (length xs) 8 = Some (le_bytes 8 (length ?i))"
    "bytes_at (xs @ le_bytes 8 (length ?i) @ ?i @ le_bytes 8 (length ?b) @ ?b @ rest) (length xs + 8) (length ?i) = Some ?i"
    "bytes_at (xs @ le_bytes 8 (length ?i) @ ?i @ le_bytes 8 (length ?b) @ ?b @ rest) (length xs + 8 + length ?i) 8 = Some (le_bytes 8 (length ?b))"
    "bytes_at (xs @ le_bytes 8 (length ?i) @ ?i @ le_bytes 8 (length ?b) @ ?b @ rest) (length xs + 8 + length ?i + 8) (length ?b) = Some ?b"
    using bytes_at_append [of xs "length xs" "le_bytes 8 (length ?i)" 8]
      bytes_at_append [of "xs @ le_bytes 8 (length ?i)" "length xs + 8" ?i "length ?i"]
      bytes_at_append [of "xs @ le_bytes 8 (length ?i) @ ?i" "length xs + 8 + length ?i" "le_bytes 8 (length ?b)" 8]
      bytes_at_append [of "xs @ le_bytes 8 (length ?i) @ ?i @ le_bytes 8 (length ?b)" "length xs + 8 + length ?i + 8" ?b "length ?b" rest]
    by simp_all
  show ?thesis unfolding rec_Deserialize_def Let_def a(1) bind.bind_lunit l(1) a(2) a(3) l(2) a(4)
    by (simp add: rec_SerializedLength_def)
qed

text \<open>
  C30. Serialized records round-trip: both forms of serialization write as many bytes
  as \<open>SerializedLength\<close> says; reading them back, whatever follows them, gives the
  record and stops behind it.
\<close>

theorem record_serialize_roundtrip:
  assumes "length (unpack_info r) < 2 ^ 64" "length (encoded_blob r) < 2 ^ 64"
  shows "\<exists>buf'. rec_Serialize r buf offset = Some (buf', offset + rec_SerializedLength r) \<and>
    take offset buf' = vec_resize offset 0 buf \<and>
    rec_Deserialize (buf' @ rest) offset = Some (r, offset + rec_SerializedLength r) \<and>
    rec_Deserialize (rec_Serialize_string r str @ rest) (length str) = Some (r, length str + rec_SerializedLength r)"
  using rec_Serialize_eq [of r buf offset] rec_Deserialize_at [OF assms, of "vec_resize offset 0 buf" rest]
    rec_Deserialize_at [OF assms, of str rest]
  by (simp add: rec_Serialize_string_def)

theorem record_serialize_roundtrip_witness:
  "rec_Deserialize (rec_Serialize_string \<lparr>encoded_blob = [1, 2], unpack_info = [3]\<rparr> [] @ [9]) 0 =
     Some (\<lparr>encoded_blob = [1, 2], unpack_info = [3]\<rparr>, 19)"
  using record_serialize_roundtrip [of "\<lparr>encoded_blob = [1, 2], unpack_info = [3]\<rparr>" "[]" 0 "[9]" "[]"]
  by (auto simp: rec_SerializedLength_def)

section \<open>Positions in an interval\<close>

lemma zero_pad_mono:
  "\<not> lexlt ys xs \<Longrightarrow> \<not> lexlt_in (take n ys @ replicate (n - length ys) 0) (take n xs @ replicate (n - length xs) 0)"
proof (induction n arbitrary: xs ys)
  case (Suc n)
  show ?case
  proof (cases ys)
    case Nil
    then show ?thesis using Suc.prems by (cases xs) auto
  next
    case (Cons y ys')
    show ?thesis
    proof (cases xs)
      case Nil
      then show ?thesis using Suc.IH [of ys' "[]"] Cons by simp
    next
      case (Cons x xs')
      then show ?thesis using Suc.prems Suc.IH [of ys' xs'] \<open>ys = _\<close> by auto
    qed
  qed
qed simp

lemma interval_value_mono:
  assumes "\<not> lexlt ys xs"
  shows "interval_value xs \<le> interval_value ys"
proof -
  have "interval_value s = be_val (take 8 s @ replicate (8 - length s) 0)" for s by (simp add: interval_value_def be_val_def)
  then show ?thesis
    using zero_pad_mono [OF assms, of 8]
      be_val_less_iff [of "take 8 ys @ replicate (8 - length ys) 0" "take 8 xs @ replicate (8 - length xs) 0"] by (simp add: not_less)
qed

lemma trim_none: "offset \<le> length s \<Longrightarrow> trim_slice s offset offset = drop offset s"
  by (auto simp: trim_slice_def)

text \<open>Keys between two keys share the common prefix of the two.\<close>

lemma between_common_prefix:
  assumes "lexlt (c @ a) k" "lexlt k (c @ b)"
  shows "\<exists>t. k = c @ t"
  using assms
proof (induction c arbitrary: k)
  case (Cons x c)
  obtain y k' where k: "k = y # k'" using Cons.prems(1) by (cases k) auto
  have "x = y" "lexlt (c @ a) k'" "lexlt k' (c @ b)" using Cons.prems by (auto simp: k)
  with Cons.IH [of k'] show ?case by (auto simp: k)
qed simp

text \<open>
  C39. Positions are fractions: for a key strictly between two others, when no hidden
  primary key is trimmed, the eight bytes behind the common prefix order the three
  keys, as the code asserts, and the position is one half if they do not separate
  the ends of the interval, 0 if they do not separate the key from the lower end,
  and otherwise the distance from the lower end over the length of the interval.
\<close>

theorem pos_in_interval_fraction:
  assumes "lexlt a k" "lexlt k b"
  shows "let n = length (longest_common_prefix a b);
             va = interval_value (drop n a); vk = interval_value (drop n k); vb = interval_value (drop n b)
         in va \<le> vk \<and> vk \<le> vb \<and>
            PosInInterval 0 (PackedKey k) (PackedKey a) (PackedKey b) =
              (if va = vb then Pos_half else if vk = va then Pos_zero else Pos_ratio (vk - va) (vb - va))"
proof -
  define c where "c = longest_common_prefix a b"
  obtain a' b' where ab: "a = c @ a'" "b = c @ b'"
    by (metis c_def prefix_def longest_common_prefix_prefix1 longest_common_prefix_prefix2)
  obtain k' where k: "k = c @ k'" using between_common_prefix assms ab by blast
  have lt: "lexlt a' k'" "lexlt k' b'" using assms by (simp_all add: ab k)
  have off: "difference_offset a b = length c" by (simp add: difference_offset_prefix c_def)
  have v: "interval_value a' \<le> interval_value k'" "interval_value k' \<le> interval_value b'"
    using lt lexlt_asym by (auto intro: interval_value_mono)
  have "pos_in_interval (PackedKey k) (PackedKey a) (PackedKey b) = Pos_half"
    using assms by (simp add: pos_in_interval_def key_less_equal_def key_less_def)
  then have "PosInInterval 0 (PackedKey k) (PackedKey a) (PackedKey b) =
      (if interval_value a' = interval_value b' then Pos_half
       else if interval_value k' = interval_value a' then Pos_zero
       else Pos_ratio (interval_value k' - interval_value a') (interval_value b' - interval_value a'))"
    using v off by (auto simp: PosInInterval_def Let_def trim_none ab(1) ab(2) k)
  moreover have "drop (length c) a = a'" "drop (length c) b = b'" "drop (length c) k = k'" by (simp_all add: ab(1) ab(2) k)
  ultimately show ?thesis using v unfolding Let_def c_def [symmetric] by simp
qed

lemma zeros: "replicate 8 (0 :: byte) = [0, 0, 0, 0, 0, 0, 0, 0]" "replicate 7 (0 :: byte) = [0, 0, 0, 0, 0, 0, 0]"
  by (simp_all add: eval_nat_numeral)

theorem pos_in_interval_fraction_witness:
  "PosInInterval 0 (PackedKey [7, 2]) (PackedKey [7, 1]) (PackedKey [7, 3]) = Pos_ratio (2 ^ 56) (2 ^ 57)"
proof -
  have "interval_value [1] = 2 ^ 56" "interval_value [2] = 2 ^ 57" "interval_value [3] = 3 * 2 ^ 56"
    by (simp_all add: interval_value_def zeros)
  then show ?thesis using pos_in_interval_fraction [of "[7, 1]" "[7, 2]" "[7, 3]"] by (simp add: Let_def)
qed

text \<open>
  Trimmed keys can leave their interval: in a non-unique index over a hidden
  primary key, whose 16 bytes are trimmed from the ends of the interval but not from
  the key, a key below the upper end can compare above the trimmed upper end, which
  the code asserts not to happen; the quotient is then above 1 and is cut.
\<close>

lemma pos_in_interval_trimmed:
  "\<exists>a k b. lexlt a k \<and> lexlt k b \<and> lexlt (trim_slice b (difference_offset a b) (difference_offset a b + 16)) (drop (difference_offset a b) k) \<and>
     (\<exists>n d. PosInInterval 16 (PackedKey k) (PackedKey a) (PackedKey b) = Pos_ratio n d \<and> d < n)"
proof -
  let ?a = "[0, 0, 0, 0, 0, 0, 0, 0, 0, 0, 0, 0, 0, 0, 0, 0, 0] :: bytes" and ?k = "[1, 5, 5, 5, 5, 5, 5, 5, 5, 5, 5, 5, 5, 5, 5, 5, 5] :: bytes"
    and ?b = "[1, 9, 9, 9, 9, 9, 9, 9, 9, 9, 9, 9, 9, 9, 9, 9, 9] :: bytes"
  have v: "interval_value [] = 0" "interval_value [0] = 0" "interval_value [1] = 2 ^ 56" "interval_value ?k = 73470488038671621"
    by (simp_all add: interval_value_def zeros)
  have d: "difference_offset ?a ?b = 0" by (simp add: difference_offset_prefix)
  show ?thesis
  proof (intro exI conjI)
    show "lexlt ?a ?k" "lexlt ?k ?b" by simp_all
    show "lexlt (trim_slice ?b (difference_offset ?a ?b) (difference_offset ?a ?b + 16)) (drop (difference_offset ?a ?b) ?k)"
      unfolding d by (simp add: trim_slice_def)
    show "PosInInterval 16 (PackedKey ?k) (PackedKey ?a) (PackedKey ?b) = Pos_ratio (interval_value ?k) (2 ^ 56)"
      unfolding PosInInterval_def Let_def packed_key.simps d
      by (simp add: pos_in_interval_def key_less_equal_def key_less_def trim_slice_def v)
    show "2 ^ 56 < interval_value ?k" by (simp add: v)
  qed
qed

end
