(* ===== verification/Scan_Range.thy ===== *)
theory Scan_Range
  imports Eloq_Key
begin

text \<open>
  The bounds of index scans (\<open>ha_eloq::PrepareScan\<close> and its helpers): how a search
  flag and a prefix of the key columns become a start key, an end key and a
  direction, and which rows lie between them. The records that the server restores
  from its own key format (\<open>key_restore\<close>) are arguments.
\<close>

section \<open>Scan parameters\<close>

datatype ha_rkey_function =
  HA_READ_KEY_EXACT | HA_READ_KEY_OR_NEXT | HA_READ_KEY_OR_PREV | HA_READ_AFTER_KEY | HA_READ_BEFORE_KEY |
  HA_READ_PREFIX | HA_READ_PREFIX_LAST | HA_READ_PREFIX_LAST_OR_PREV | HA_READ_MBR_CONTAIN | HA_READ_MBR_INTERSECT |
  HA_READ_MBR_WITHIN | HA_READ_MBR_DISJOINT | HA_READ_MBR_EQUAL

datatype scan_direction = Forward | Backward

text \<open>The direction, whether the start is inclusive, and whether this is a prefix match; \<open>None\<close> is \<open>HA_ERR_UNSUPPORTED\<close>.\<close>

fun SetScanParameters :: "ha_rkey_function \<Rightarrow> (scan_direction \<times> bool \<times> bool) option" where
  "SetScanParameters HA_READ_KEY_EXACT = Some (Forward, True, True)"
| "SetScanParameters HA_READ_BEFORE_KEY = Some (Backward, False, False)"
| "SetScanParameters HA_READ_AFTER_KEY = Some (Forward, False, False)"
| "SetScanParameters HA_READ_KEY_OR_NEXT = Some (Forward, True, False)"
| "SetScanParameters HA_READ_PREFIX_LAST = Some (Backward, True, True)"
| "SetScanParameters HA_READ_PREFIX_LAST_OR_PREV = Some (Backward, True, False)"
| "SetScanParameters _ = None"

section \<open>Search keys\<close>

text \<open>A set of key parts is a bit map of 64 bits.\<close>

type_synonym key_part_map = "64 word"

definition HA_WHOLE_KEY :: key_part_map where
  "HA_WHOLE_KEY = NOT 0"

definition my_count_bits :: "key_part_map \<Rightarrow> nat" where
  "my_count_bits v = length (filter (bit v) [0..<64])"

definition use_full_key :: "key_part_map \<Rightarrow> nat \<Rightarrow> bool" where
  "use_full_key keypart_map key_part_cnt \<longleftrightarrow>
     keypart_map = HA_WHOLE_KEY \<or> keypart_map = push_bit key_part_cnt 1 - 1"

definition n_used_parts :: "key_part_map \<Rightarrow> nat" where
  "n_used_parts keypart_map = (if keypart_map = HA_WHOLE_KEY then 0 else my_count_bits keypart_map)"

definition pack_index_tuple :: "table \<Rightarrow> mono_key_def \<Rightarrow> rec_buf \<Rightarrow> key_part_map \<Rightarrow> bytes option" where
  "pack_index_tuple tbl kd restored keypart_map =
     map_option pk_tuple (pack_record tbl kd restored None False None (n_used_parts keypart_map))"

definition EncodeScanKey :: "table \<Rightarrow> mono_key_def \<Rightarrow> rec_buf \<Rightarrow> key_part_map \<Rightarrow> bytes option" where
  "EncodeScanKey tbl kd restored keypart_map = pack_index_tuple tbl kd restored keypart_map"

text \<open>A bound that the server passes.\<close>

record key_range =
  kr_restored :: rec_buf
  kr_length :: nat
  kr_keypart_map :: key_part_map
  kr_flag :: ha_rkey_function

text \<open>
  The handler's part of the state: the table, the index of the scan, and the bounds
  that the server has set.
\<close>

record scan_handler =
  sh_table :: table
  sh_active_index :: nat
  sh_end_range :: "key_range option"
  sh_start_range :: "key_range option"

definition on_primary :: "scan_handler \<Rightarrow> bool" where
  "on_primary h \<longleftrightarrow> sh_active_index h = ts_primary_key (tbl_s (sh_table h))"

text \<open>
  The end keys. The result is the new end key and, if the end is specified, whether
  it is inclusive; \<open>None\<close> stands for an undefined packing.
\<close>

definition PrepareForwardScanEndKey ::
  "scan_handler \<Rightarrow> mono_key_def \<Rightarrow> nat \<Rightarrow> bytes \<Rightarrow> (bytes \<times> bool option) option" where
  "PrepareForwardScanEndKey h kd key_part_cnt scan_end_key =
     (case sh_end_range h of
        None \<Rightarrow> Some (scan_end_key, None)
      | Some e \<Rightarrow>
          (case EncodeScanKey (sh_table h) kd (kr_restored e) (kr_keypart_map e) of
             None \<Rightarrow> None
           | Some key \<Rightarrow>
               if kr_flag e = HA_READ_BEFORE_KEY then Some (key, Some False)
               else if kr_flag e = HA_READ_AFTER_KEY
               then Some (if \<not> use_full_key (kr_keypart_map e) key_part_cnt \<or> \<not> on_primary h
                          then get_ceiling_key kd key else key, Some True)
               else Some (key, None)))"

definition PrepareBackwardScanEndKey ::
  "scan_handler \<Rightarrow> mono_key_def \<Rightarrow> nat \<Rightarrow> bytes \<Rightarrow> (bytes \<times> bool option) option" where
  "PrepareBackwardScanEndKey h kd key_part_cnt scan_end_key =
     (case sh_start_range h of
        None \<Rightarrow> Some (scan_end_key, None)
      | Some e \<Rightarrow>
          (case EncodeScanKey (sh_table h) kd (kr_restored e) (kr_keypart_map e) of
             None \<Rightarrow> None
           | Some key \<Rightarrow>
               if kr_flag e = HA_READ_KEY_OR_NEXT then Some (key, Some True)
               else if kr_flag e = HA_READ_AFTER_KEY
               then Some (if \<not> use_full_key (kr_keypart_map e) key_part_cnt \<or> \<not> on_primary h
                          then get_ceiling_key kd key else key, Some False)
               else Some (key, None)))"

section \<open>Scans\<close>

record scan_range =
  sr_direction :: scan_direction
  sr_start :: bytes
  sr_start_inclusive :: bool
  sr_end :: bytes
  sr_end_inclusive :: "bool option"

datatype scan_error = HA_ERR_UNSUPPORTED | SCAN_UNDEFINED

definition PrepareScan ::
  "scan_handler \<Rightarrow> rec_buf \<Rightarrow> key_part_map \<Rightarrow> ha_rkey_function \<Rightarrow> mono_key_def \<Rightarrow> nat \<Rightarrow> bool \<Rightarrow> bytes \<Rightarrow>
   scan_error + scan_range" where
  "PrepareScan h start keypart_map search_flag kd key_part_cnt start_use_full_key scan_end_key =
     (case SetScanParameters search_flag of
        None \<Rightarrow> Inl HA_ERR_UNSUPPORTED
      | Some (direction, start_inclusive, prefix_match) \<Rightarrow>
          (case EncodeScanKey (sh_table h) kd start keypart_map of
             None \<Rightarrow> Inl SCAN_UNDEFINED
           | Some search_key \<Rightarrow>
               let ceiling = (\<not> start_use_full_key \<or> \<not> on_primary h);
                   scan = (\<lambda>s (e, end_inclusive).
                     \<lparr>sr_direction = direction, sr_start = s, sr_start_inclusive = start_inclusive,
                      sr_end = e, sr_end_inclusive = end_inclusive\<rparr>)
               in if prefix_match
                  then Inr (if direction = Forward
                            then scan search_key (get_ceiling_key kd search_key, Some True)
                            else scan (get_ceiling_key kd search_key) (search_key, Some True))
                  else if direction = Forward
                  then (case PrepareForwardScanEndKey h kd key_part_cnt scan_end_key of
                          None \<Rightarrow> Inl SCAN_UNDEFINED
                        | Some e \<Rightarrow> Inr (scan (if ceiling \<and> \<not> start_inclusive then get_ceiling_key kd search_key else search_key) e))
                  else (case PrepareBackwardScanEndKey h kd key_part_cnt scan_end_key of
                          None \<Rightarrow> Inl SCAN_UNDEFINED
                        | Some e \<Rightarrow> Inr (scan (if ceiling \<and> start_inclusive then get_ceiling_key kd search_key else search_key) e))))"

text \<open>
  The keys between the bounds, as the scan is opened with them: a bound that is not
  specified does not bound the scan.
\<close>

definition in_scan :: "scan_range \<Rightarrow> bytes \<Rightarrow> bool" where
  "in_scan sr k =
     (let below = (\<lambda>a b incl. key_less (PackedKey a) (PackedKey b) \<or> incl \<and> key_eq (PackedKey a) (PackedKey b))
      in case sr_direction sr of
           Forward \<Rightarrow> below (sr_start sr) k (sr_start_inclusive sr) \<and>
                      (case sr_end_inclusive sr of None \<Rightarrow> True | Some incl \<Rightarrow> below k (sr_end sr) incl)
         | Backward \<Rightarrow> below k (sr_start sr) (sr_start_inclusive sr) \<and>
                      (case sr_end_inclusive sr of None \<Rightarrow> True | Some incl \<Rightarrow> below (sr_end sr) k incl))"

section \<open>Ranges for the optimizer\<close>

definition SuccessorForKeyRange :: "key_range \<Rightarrow> bool" where
  "SuccessorForKeyRange range_key \<longleftrightarrow>
     kr_flag range_key = HA_READ_PREFIX_LAST_OR_PREV \<or> kr_flag range_key = HA_READ_PREFIX_LAST \<or>
     kr_flag range_key = HA_READ_AFTER_KEY"

definition MonoMinKeyFromKeyRange :: "table \<Rightarrow> mono_key_def \<Rightarrow> key_range option \<Rightarrow> eloq_key option" where
  "MonoMinKeyFromKeyRange tbl kd min_key =
     (case min_key of
        Some r \<Rightarrow>
          if 0 < kr_length r
          then map_option (\<lambda>key. PackedKey (if SuccessorForKeyRange r then fst (successor key) else key))
                 (pack_index_tuple tbl kd (kr_restored r) (kr_keypart_map r))
          else Some PackedNegativeInfinity
      | None \<Rightarrow> Some PackedNegativeInfinity)"

definition MonoMaxKeyFromKeyRange ::
  "table \<Rightarrow> mono_key_def \<Rightarrow> mono_key_def option \<Rightarrow> key_range option \<Rightarrow> nat \<Rightarrow> eloq_key option" where
  "MonoMaxKeyFromKeyRange tbl kd pkd max_key min_key_size =
     (case max_key of
        Some r \<Rightarrow>
          if 0 < kr_length r
          then map_option (\<lambda>key.
                 let key = (if SuccessorForKeyRange r then fst (successor key) else key)
                 in PackedKey (if length key < min_key_size then key @ replicate (min_key_size - length key) 0xFF else key))
                 (pack_index_tuple tbl kd (kr_restored r) (kr_keypart_map r))
          else Some (PackedPositiveInfinity kd pkd)
      | None \<Rightarrow> Some (PackedPositiveInfinity kd pkd))"

section \<open>Which rows a scan finds\<close>

text \<open>The order of two records on the first columns of an index, and the key of a stored record.\<close>

definition cols_lt :: "part list \<Rightarrow> nat \<Rightarrow> rec_buf \<Rightarrow> rec_buf \<Rightarrow> bool" where
  "cols_lt ps n ra rb \<longleftrightarrow> row_lt lt_part (take n ps) (key_row ra (take n ps)) (key_row rb (take n ps))"

definition cols_image :: "part list \<Rightarrow> nat \<Rightarrow> rec_buf \<Rightarrow> bytes" where
  "cols_image ps n r = enc_row enc_part (take n ps) (key_row r (take n ps))"

definition cols_ok :: "part list \<Rightarrow> nat \<Rightarrow> rec_buf \<Rightarrow> bool" where
  "cols_ok ps n r \<longleftrightarrow> row_ok (take n ps) (key_row r (take n ps))"

lemma row_ok_take: "row_ok ps row \<Longrightarrow> row_ok (take n ps) (take n row)"
  by (auto simp: row_ok_def dest: in_set_takeD)

lemma cols_ok_take:
  assumes "cols_ok ps c r" "n \<le> c"
  shows "cols_ok ps n r"
  using row_ok_take [OF assms(1) [unfolded cols_ok_def], of n] assms(2)
  by (simp add: cols_ok_def key_row_take [symmetric] min_absorb1)

lemma cols_image_append: "n \<le> c \<Longrightarrow> \<exists>t. cols_image ps c r = cols_image ps n r @ t"
proof -
  assume n: "n \<le> c"
  show ?thesis
    using enc_row_take_append [of "take c ps" "key_row r (take c ps)" enc_part n]
    by (auto simp: cols_image_def key_row_take [symmetric] min_absorb1 [OF n])
qed

lemma cols_compare:
  assumes "cols_ok ps n ra" "cols_ok ps n rb"
  shows "lexlt (cols_image ps n rb @ t) (cols_image ps n ra) \<longleftrightarrow> cols_lt ps n rb ra"
    and "length (cols_image ps n ra) \<le> m_maxlength kd \<Longrightarrow> length (cols_image ps n rb @ t) \<le> m_maxlength kd \<Longrightarrow>
      lexlt (get_ceiling_key kd (cols_image ps n ra)) (cols_image ps n rb @ t) \<longleftrightarrow> cols_lt ps n ra rb"
    and "lexlt (cols_image ps n ra) (cols_image ps n rb) \<longleftrightarrow> cols_lt ps n ra rb"
proof -
  let ?a = "cols_image ps n ra" and ?b = "cols_image ps n rb"
  have wf: "list_all2 wf_part (take n ps) (key_row ra (take n ps))" "list_all2 wf_part (take n ps) (key_row rb (take n ps))"
    using assms by (simp_all add: cols_ok_def row_ok_def)
  have lt: "lexlt_in ?a ?b \<longleftrightarrow> cols_lt ps n ra rb" "lexlt_in ?b ?a \<longleftrightarrow> cols_lt ps n rb ra"
    using key_parts.row_less_iff [OF wf] key_parts.row_less_iff [OF wf(2,1)] by (simp_all add: cols_image_def cols_lt_def)
  have eq: "?a = ?b \<longleftrightarrow> \<not> cols_lt ps n ra rb \<and> \<not> cols_lt ps n rb ra"
    using key_image_eq_iff [OF wf] by (simp add: cols_image_def cols_lt_def)
  consider "cols_lt ps n ra rb" "\<not> cols_lt ps n rb ra" | "\<not> cols_lt ps n ra rb" "cols_lt ps n rb ra" | "?a = ?b" "\<not> cols_lt ps n ra rb" "\<not> cols_lt ps n rb ra"
    using lt lexlt_in_asym eq by blast
  note cases = this
  show "lexlt (?b @ t) ?a \<longleftrightarrow> cols_lt ps n rb ra"
    by (rule cases) (use lt lexlt_in_imp_lexlt [of ?b ?a t "[]"] lexlt_in_imp_lexlt [of ?a ?b "[]" t] lexlt_asym
      lexlt_append_same [of ?a t "[]"] in auto)
  show "lexlt ?a ?b \<longleftrightarrow> cols_lt ps n ra rb"
    by (rule cases) (use lt lexlt_in_imp_lexlt [of ?b ?a "[]" "[]"] lexlt_in_imp_lexlt [of ?a ?b "[]" "[]"] lexlt_asym in auto)
  assume len: "length ?a \<le> m_maxlength kd" "length (?b @ t) \<le> m_maxlength kd"
  define F where "F = replicate (m_maxlength kd - length ?a) (0xFF :: byte)"
  have c: "get_ceiling_key kd ?a = ?a @ F" using len(1) by (simp add: get_ceiling_key_def vec_resize_def F_def)
  have "\<not> lexlt F t" if "?a = ?b" unfolding F_def by (rule not_less_FF) (use len(2) that in simp)
  then have "lexlt (?a @ F) (?b @ t) \<longleftrightarrow> cols_lt ps n ra rb"
    by (rule_tac cases) (use lt lexlt_in_imp_lexlt [of ?b ?a t F] lexlt_in_imp_lexlt [of ?a ?b F t] lexlt_asym in auto)
  then show "lexlt (get_ceiling_key kd ?a) (?b @ t) \<longleftrightarrow> cols_lt ps n ra rb" by (simp add: c)
qed

text \<open>What a scan is asked for: the condition of the search flag and that of the end flag.\<close>

fun search_cond :: "ha_rkey_function \<Rightarrow> bool \<Rightarrow> bool \<Rightarrow> bool" where
  "search_cond HA_READ_KEY_EXACT search_less row_less \<longleftrightarrow> \<not> search_less \<and> \<not> row_less"
| "search_cond HA_READ_PREFIX_LAST search_less row_less \<longleftrightarrow> \<not> search_less \<and> \<not> row_less"
| "search_cond HA_READ_AFTER_KEY search_less row_less \<longleftrightarrow> search_less"
| "search_cond HA_READ_KEY_OR_NEXT search_less row_less \<longleftrightarrow> \<not> row_less"
| "search_cond HA_READ_BEFORE_KEY search_less row_less \<longleftrightarrow> row_less"
| "search_cond HA_READ_PREFIX_LAST_OR_PREV search_less row_less \<longleftrightarrow> \<not> search_less"
| "search_cond _ _ _ \<longleftrightarrow> False"

definition parts_used :: "table \<Rightarrow> mono_key_def \<Rightarrow> key_part_map \<Rightarrow> nat" where
  "parts_used tbl kd keypart_map = pack_n_key_parts tbl kd False None (n_used_parts keypart_map)"

text \<open>Upper bounds are \<open><\<close> and \<open>\<le>\<close>, lower bounds are \<open>\<ge>\<close> and \<open>>\<close>; other flags do not bound a scan.\<close>

definition upper_cond :: "part list \<Rightarrow> table \<Rightarrow> mono_key_def \<Rightarrow> key_range option \<Rightarrow> rec_buf \<Rightarrow> bool" where
  "upper_cond ps tbl kd e rb =
     (case e of None \<Rightarrow> True
      | Some e \<Rightarrow> let n = parts_used tbl kd (kr_keypart_map e)
                 in if kr_flag e = HA_READ_BEFORE_KEY then cols_lt ps n rb (kr_restored e)
                    else if kr_flag e = HA_READ_AFTER_KEY then \<not> cols_lt ps n (kr_restored e) rb
                    else True)"

definition lower_cond :: "part list \<Rightarrow> table \<Rightarrow> mono_key_def \<Rightarrow> key_range option \<Rightarrow> rec_buf \<Rightarrow> bool" where
  "lower_cond ps tbl kd e rb =
     (case e of None \<Rightarrow> True
      | Some e \<Rightarrow> let n = parts_used tbl kd (kr_keypart_map e)
                 in if kr_flag e = HA_READ_KEY_OR_NEXT then \<not> cols_lt ps n rb (kr_restored e)
                    else if kr_flag e = HA_READ_AFTER_KEY then cols_lt ps n (kr_restored e) rb
                    else True)"

fun end_cond :: "ha_rkey_function \<Rightarrow> bool \<Rightarrow> bool \<Rightarrow> bool" where
  "end_cond HA_READ_AFTER_KEY up low = up"
| "end_cond HA_READ_KEY_OR_NEXT up low = up"
| "end_cond HA_READ_BEFORE_KEY up low = low"
| "end_cond HA_READ_PREFIX_LAST_OR_PREV up low = low"
| "end_cond _ up low = True"

text \<open>A bound whose columns are columns of the stored keys; a full bound on the primary key is a whole key.\<close>

definition bound_ok :: "scan_handler \<Rightarrow> mono_key_def \<Rightarrow> part list \<Rightarrow> nat \<Rightarrow> bytes \<Rightarrow> nat \<Rightarrow> rec_buf \<Rightarrow> key_part_map \<Rightarrow> bool" where
  "bound_ok h kd ps c t key_part_cnt r keypart_map \<longleftrightarrow>
     (let n = parts_used (sh_table h) kd keypart_map
      in n \<le> c \<and> n \<le> length ps \<and> cols_ok ps n r \<and> length (cols_image ps n r) \<le> m_maxlength kd \<and>
         (use_full_key keypart_map key_part_cnt \<and> on_primary h \<longrightarrow> n = c \<and> t = []))"

lemma encode_bound:
  assumes "parts_at (sh_table h) kd 0 ps" "bound_ok h kd ps c t cnt r keypart_map"
  shows "EncodeScanKey (sh_table h) kd r keypart_map = Some (cols_image ps (parts_used (sh_table h) kd keypart_map) r)"
proof -
  let ?n = "parts_used (sh_table h) kd keypart_map"
  have n: "?n \<le> length ps" "cols_ok ps ?n r" using assms(2) by (simp_all add: bound_ok_def Let_def)
  have "parts_at (sh_table h) kd 0 (take ?n ps)" using assms(1) n(1) by (simp add: parts_at_def min_absorb2)
  moreover have "row_ok (take ?n ps) (key_row r (take ?n ps))" using n(2) by (simp add: cols_ok_def)
  moreover have "hidden_ok (sh_table h) kd None (pack_n_key_parts (sh_table h) kd False None (n_used_parts keypart_map)) (length (take ?n ps))"
    using n(1) by (simp add: hidden_ok_def parts_used_def)
  ultimately show ?thesis
    using pack_record_image [of "sh_table h" kd "take ?n ps" r None False "n_used_parts keypart_map" None]
    by (auto simp: EncodeScanKey_def pack_index_tuple_def cols_image_def hidden_tail_def)
qed

text \<open>The three comparisons of a stored key with a bound.\<close>

lemma bound_compare:
  assumes "bound_ok h kd ps c t cnt r keypart_map" "cols_ok ps c rb" "length (cols_image ps c rb @ t) \<le> m_maxlength kd"
  shows "lexlt (cols_image ps c rb @ t) (cols_image ps (parts_used (sh_table h) kd keypart_map) r) \<longleftrightarrow>
      cols_lt ps (parts_used (sh_table h) kd keypart_map) rb r"
    and "lexlt (if \<not> use_full_key keypart_map cnt \<or> \<not> on_primary h
                then get_ceiling_key kd (cols_image ps (parts_used (sh_table h) kd keypart_map) r)
                else cols_image ps (parts_used (sh_table h) kd keypart_map) r) (cols_image ps c rb @ t) \<longleftrightarrow>
      cols_lt ps (parts_used (sh_table h) kd keypart_map) r rb"
    and "lexlt (get_ceiling_key kd (cols_image ps (parts_used (sh_table h) kd keypart_map) r)) (cols_image ps c rb @ t) \<longleftrightarrow>
      cols_lt ps (parts_used (sh_table h) kd keypart_map) r rb"
proof -
  let ?n = "parts_used (sh_table h) kd keypart_map"
  have b: "?n \<le> c" "cols_ok ps ?n r" "length (cols_image ps ?n r) \<le> m_maxlength kd"
    "use_full_key keypart_map cnt \<and> on_primary h \<longrightarrow> ?n = c \<and> t = []"
    using assms(1) by (simp_all add: bound_ok_def Let_def)
  note ok = cols_ok_take [OF assms(2) b(1)]
  obtain u where u: "cols_image ps c rb = cols_image ps ?n rb @ u" using cols_image_append [OF b(1)] by blast
  have k: "cols_image ps c rb @ t = cols_image ps ?n rb @ u @ t" by (simp add: u)
  have len: "length (cols_image ps ?n rb @ u @ t) \<le> m_maxlength kd" using assms(3) by (simp add: u)
  note cmp = cols_compare [OF b(2) ok]
  show "lexlt (cols_image ps c rb @ t) (cols_image ps ?n r) \<longleftrightarrow> cols_lt ps ?n rb r" unfolding k by (rule cmp(1))
  show ceil: "lexlt (get_ceiling_key kd (cols_image ps ?n r)) (cols_image ps c rb @ t) \<longleftrightarrow> cols_lt ps ?n r rb"
    unfolding k by (rule cmp(2) [OF b(3) len])
  show "lexlt (if \<not> use_full_key keypart_map cnt \<or> \<not> on_primary h then get_ceiling_key kd (cols_image ps ?n r)
      else cols_image ps ?n r) (cols_image ps c rb @ t) \<longleftrightarrow> cols_lt ps ?n r rb"
    using ceil cmp(3) b(4) by auto
qed

lemma below_iff:
  "(key_less (PackedKey a) (PackedKey b) \<or> incl \<and> key_eq (PackedKey a) (PackedKey b)) \<longleftrightarrow> (if incl then \<not> lexlt b a else lexlt a b)"
  using lexlt_total [of a b] lexlt_asym [of a b] by (auto simp: key_less_def key_eq_def slice_compare_eq)

text \<open>The end keys bound the scan as their flags say.\<close>

lemma forward_end:
  assumes "parts_at (sh_table h) kd 0 ps" "cols_ok ps c rb" "length (cols_image ps c rb @ t) \<le> m_maxlength kd"
    and "\<forall>e. sh_end_range h = Some e \<longrightarrow> bound_ok h kd ps c t cnt (kr_restored e) (kr_keypart_map e)"
  shows "\<exists>key incl. PrepareForwardScanEndKey h kd cnt key0 = Some (key, incl) \<and>
    ((case incl of None \<Rightarrow> True | Some i \<Rightarrow> if i then \<not> lexlt key (cols_image ps c rb @ t) else lexlt (cols_image ps c rb @ t) key) \<longleftrightarrow>
     upper_cond ps (sh_table h) kd (sh_end_range h) rb)"
proof (cases "sh_end_range h")
  case None
  then show ?thesis by (simp add: PrepareForwardScanEndKey_def upper_cond_def)
next
  case (Some e)
  then have ok: "bound_ok h kd ps c t cnt (kr_restored e) (kr_keypart_map e)" using assms(4) by blast
  note cmp = bound_compare [OF ok assms(2,3)] and enc = encode_bound [OF assms(1) ok]
  show ?thesis
    using Some cmp(1,2) enc by (simp add: PrepareForwardScanEndKey_def upper_cond_def Let_def del: not_not)
qed

lemma backward_end:
  assumes "parts_at (sh_table h) kd 0 ps" "cols_ok ps c rb" "length (cols_image ps c rb @ t) \<le> m_maxlength kd"
    and "\<forall>e. sh_start_range h = Some e \<longrightarrow> bound_ok h kd ps c t cnt (kr_restored e) (kr_keypart_map e)"
  shows "\<exists>key incl. PrepareBackwardScanEndKey h kd cnt key0 = Some (key, incl) \<and>
    ((case incl of None \<Rightarrow> True | Some i \<Rightarrow> if i then \<not> lexlt (cols_image ps c rb @ t) key else lexlt key (cols_image ps c rb @ t)) \<longleftrightarrow>
     lower_cond ps (sh_table h) kd (sh_start_range h) rb)"
proof (cases "sh_start_range h")
  case None
  then show ?thesis by (simp add: PrepareBackwardScanEndKey_def lower_cond_def)
next
  case (Some e)
  then have ok: "bound_ok h kd ps c t cnt (kr_restored e) (kr_keypart_map e)" using assms(4) by blast
  note cmp = bound_compare [OF ok assms(2,3)] and enc = encode_bound [OF assms(1) ok]
  show ?thesis
    using Some cmp(1,2) enc by (simp add: PrepareBackwardScanEndKey_def lower_cond_def Let_def del: not_not)
qed

text \<open>
  C7. Scans find exactly the rows that are asked for: if the search flag is
  supported, \<open>PrepareScan\<close> succeeds, and the key of a stored record lies between the
  bounds it computes, in the direction it computes, exactly when the record's columns
  compare with the search columns as the flag says (equal, greater, greater or equal,
  less, less or equal) and with the end columns as their flag says; a prefix match
  needs no end. This holds for partial and full keys, for keys with further columns
  behind those of the search, and for hidden primary keys.
\<close>

theorem scan_finds_rows:
  assumes parts: "parts_at (sh_table h) kd 0 ps"
    and stored: "cols_ok ps c rb" "length (cols_image ps c rb @ t) \<le> m_maxlength kd"
    and search: "bound_ok h kd ps c t cnt ra keypart_map" "SetScanParameters flag \<noteq> None"
    and ends: "\<forall>e. sh_end_range h = Some e \<longrightarrow> bound_ok h kd ps c t cnt (kr_restored e) (kr_keypart_map e)"
      "\<forall>e. sh_start_range h = Some e \<longrightarrow> bound_ok h kd ps c t cnt (kr_restored e) (kr_keypart_map e)"
    and n: "parts_used (sh_table h) kd keypart_map = n"
  shows "\<exists>sr. PrepareScan h ra keypart_map flag kd cnt (use_full_key keypart_map cnt) key0 = Inr sr \<and>
    (in_scan sr (cols_image ps c rb @ t) \<longleftrightarrow>
       search_cond flag (cols_lt ps n ra rb) (cols_lt ps n rb ra) \<and>
       end_cond flag (upper_cond ps (sh_table h) kd (sh_end_range h) rb) (lower_cond ps (sh_table h) kd (sh_start_range h) rb))"
proof -
  note cmp = bound_compare [OF search(1) stored, unfolded n] and enc = encode_bound [OF parts search(1), unfolded n]
  obtain fk fi where f: "PrepareForwardScanEndKey h kd cnt key0 = Some (fk, fi)"
    "(case fi of None \<Rightarrow> True | Some i \<Rightarrow> if i then \<not> lexlt fk (cols_image ps c rb @ t) else lexlt (cols_image ps c rb @ t) fk) \<longleftrightarrow>
     upper_cond ps (sh_table h) kd (sh_end_range h) rb" using forward_end [OF parts stored ends(1)] by blast
  obtain bk bi where b: "PrepareBackwardScanEndKey h kd cnt key0 = Some (bk, bi)"
    "(case bi of None \<Rightarrow> True | Some i \<Rightarrow> if i then \<not> lexlt (cols_image ps c rb @ t) bk else lexlt bk (cols_image ps c rb @ t)) \<longleftrightarrow>
     lower_cond ps (sh_table h) kd (sh_start_range h) rb" using backward_end [OF parts stored ends(2)] by blast
  show ?thesis using search(2)
    by (cases flag; cases fi; cases bi) (use cmp enc f b in \<open>auto simp: PrepareScan_def in_scan_def below_iff Let_def\<close>)
qed

theorem scan_finds_rows_witness:
  "\<exists>sr. PrepareScan \<lparr>sh_table = sample_table, sh_active_index = 1, sh_end_range = None, sh_start_range = None\<rparr>
       (sample_record [0, 0, 0, 0] (Some [5, 0, 0, 0])) 1 HA_READ_AFTER_KEY sample_sk 2 (use_full_key 1 2) [] = Inr sr \<and>
     in_scan sr (cols_image sample_parts 2 (sample_record [7, 0, 0, 0] (Some [9, 0, 0, 0])) @ [])"
proof -
  let ?h = "\<lparr>sh_table = sample_table, sh_active_index = 1, sh_end_range = None, sh_start_range = None\<rparr>"
    and ?a = "sample_record [0, 0, 0, 0] (Some [5, 0, 0, 0])" and ?b = "sample_record [7, 0, 0, 0] (Some [9, 0, 0, 0])"
  have t: "take 2 sample_parts = sample_parts" by (simp add: sample_parts_def)
  have n: "parts_used (sh_table ?h) sample_sk 1 = 1"
  proof -
    have "my_count_bits 1 = 1" "(1 :: key_part_map) \<noteq> HA_WHOLE_KEY" by code_simp+
    then show ?thesis
      by (simp add: parts_used_def n_used_parts_def pack_n_key_parts_def table_has_hidden_pk_def MAX_INDEXES_def MAX_REF_PARTS_def
          sample_key_defs)
  qed
  have parts: "parts_at (sh_table ?h) sample_sk 0 sample_parts" using sample_parts_at by simp
  have st: "cols_ok sample_parts 2 ?b" "length (cols_image sample_parts 2 ?b @ []) \<le> m_maxlength sample_sk"
    using sample_row_ok [of "[7, 0, 0, 0]" "Some [9, 0, 0, 0]"] sample_row_length [of 7 0 0 0 9 0 0 0]
    by (simp_all add: cols_ok_def cols_image_def t) (simp add: sample_sk_def)
  have ok: "cols_ok sample_parts 1 ?a" "length (cols_image sample_parts 1 ?a) \<le> 9"
    using row_ok_take [OF sample_row_ok [of "[0, 0, 0, 0]" "Some [5, 0, 0, 0]"], of 1] sample_row_length [of 0 0 0 0 5 0 0 0]
    by (simp_all add: cols_ok_def cols_image_def key_row_take [symmetric]) (simp add: sample_parts_def)
  have b: "bound_ok ?h sample_sk sample_parts 2 [] 2 ?a 1"
    using ok n unfolding bound_ok_def by (simp add: on_primary_def Let_def sample_parts_def sample_sk_def sample_table_def sample_defs)
  have lt: "cols_lt sample_parts 1 ?a ?b"
    by (simp add: cols_lt_def lt_part_def lt_value_def lt_sort_key_def lt_integer_def int_image_val_def key_row_def sample_key_defs)
  show ?thesis
    using scan_finds_rows [OF parts st b _ _ _ n, of HA_READ_AFTER_KEY "[]"] lt by (simp add: upper_cond_def)
qed

end
