(* ===== verification/Tx_Session.thy ===== *)
theory Tx_Session
  imports Main
begin

text \<open>
  The transaction of a connection (\<open>MyEloqTx\<close> and the handlerton functions of
  \<open>ha_eloq.cc\<close>): starting it in the transaction service on the first statement,
  committing, rolling back and closing the connection, and the translation of error
  codes. The service is not part of the engine: the transaction it hands out and the
  outcome of a commit are arguments, and what it is asked to do is a log.
\<close>

section \<open>Error codes\<close>

text \<open>The codes of the service that the engine tells apart; the others are numbered.\<close>

datatype tx_error_code =
  NO_ERROR | DEAD_LOCK_ABORT | OCC_BREAK_REPEATABLE_READ | SI_R4W_ERR_KEY_WAS_UPDATED | READ_WRITE_CONFLICT |
  WRITE_WRITE_CONFLICT | TX_INIT_FAIL | DATA_STORE_ERROR | INTERNAL_ERR_TIMEOUT | OTHER_TX_ERROR nat

definition HA_ERR_LAST :: nat where "HA_ERR_LAST = 198"
definition HA_ERR_WRONG_COMMAND :: nat where "HA_ERR_WRONG_COMMAND = 131"
definition HA_ERR_LOCK_WAIT_TIMEOUT :: nat where "HA_ERR_LOCK_WAIT_TIMEOUT = 146"
definition HA_ERR_LOCK_DEADLOCK :: nat where "HA_ERR_LOCK_DEADLOCK = 149"
definition HA_ERR_ELOQ_COMMIT_FAILED :: nat where "HA_ERR_ELOQ_COMMIT_FAILED = HA_ERR_LAST + 1"
definition HA_ERR_ELOQ_CREATE_TABLE_FAILED :: nat where "HA_ERR_ELOQ_CREATE_TABLE_FAILED = HA_ERR_LAST + 2"
definition HA_ERR_ELOQ_DROP_TABLE_FAILED :: nat where "HA_ERR_ELOQ_DROP_TABLE_FAILED = HA_ERR_LAST + 3"
definition HA_ERR_ELOQ_START_TRANSACTION_FAILED :: nat where "HA_ERR_ELOQ_START_TRANSACTION_FAILED = HA_ERR_LAST + 4"
definition HA_ERR_ELOQ_RW_CONFLICT :: nat where "HA_ERR_ELOQ_RW_CONFLICT = HA_ERR_LAST + 14"
definition HA_ERR_ELOQ_WW_CONFLICT :: nat where "HA_ERR_ELOQ_WW_CONFLICT = HA_ERR_LAST + 15"
definition HA_ERR_ELOQ_RECORD_WAS_UPDATED :: nat where "HA_ERR_ELOQ_RECORD_WAS_UPDATED = HA_ERR_LAST + 16"
definition HA_ERR_ELOQ_DATA_STORE_ERROR :: nat where "HA_ERR_ELOQ_DATA_STORE_ERROR = HA_ERR_LAST + 17"
definition HA_ERR_ELOQ_DEFAULT_ERROR :: nat where "HA_ERR_ELOQ_DEFAULT_ERROR = HA_ERR_LAST + 18"
definition HA_ERR_ELOQ_TRANSACTION_BREAK :: nat where "HA_ERR_ELOQ_TRANSACTION_BREAK = HA_ERR_LAST + 19"

lemmas ha_err_defs = HA_ERR_LAST_def HA_ERR_WRONG_COMMAND_def HA_ERR_LOCK_WAIT_TIMEOUT_def HA_ERR_LOCK_DEADLOCK_def
  HA_ERR_ELOQ_COMMIT_FAILED_def HA_ERR_ELOQ_START_TRANSACTION_FAILED_def HA_ERR_ELOQ_RW_CONFLICT_def
  HA_ERR_ELOQ_WW_CONFLICT_def HA_ERR_ELOQ_RECORD_WAS_UPDATED_def HA_ERR_ELOQ_DATA_STORE_ERROR_def
  HA_ERR_ELOQ_DEFAULT_ERROR_def HA_ERR_ELOQ_CREATE_TABLE_FAILED_def HA_ERR_ELOQ_DROP_TABLE_FAILED_def
  HA_ERR_ELOQ_TRANSACTION_BREAK_def

fun convert_tx_error :: "tx_error_code \<Rightarrow> nat" where
  "convert_tx_error NO_ERROR = 0"
| "convert_tx_error DEAD_LOCK_ABORT = HA_ERR_LOCK_DEADLOCK"
| "convert_tx_error OCC_BREAK_REPEATABLE_READ = HA_ERR_ELOQ_RECORD_WAS_UPDATED"
| "convert_tx_error SI_R4W_ERR_KEY_WAS_UPDATED = HA_ERR_ELOQ_RECORD_WAS_UPDATED"
| "convert_tx_error READ_WRITE_CONFLICT = HA_ERR_ELOQ_RW_CONFLICT"
| "convert_tx_error WRITE_WRITE_CONFLICT = HA_ERR_ELOQ_WW_CONFLICT"
| "convert_tx_error TX_INIT_FAIL = HA_ERR_ELOQ_START_TRANSACTION_FAILED"
| "convert_tx_error DATA_STORE_ERROR = HA_ERR_ELOQ_DATA_STORE_ERROR"
| "convert_tx_error INTERNAL_ERR_TIMEOUT = HA_ERR_LOCK_WAIT_TIMEOUT"
| "convert_tx_error (OTHER_TX_ERROR _) = HA_ERR_ELOQ_DEFAULT_ERROR"

section \<open>Protocols and isolation levels\<close>

datatype cc_protocol = OCC | OccRead | Locking

definition fetch_tx_cc_protocol :: "nat \<Rightarrow> cc_protocol" where
  "fetch_tx_cc_protocol v = (if v = 0 then OCC else if v = 1 then OccRead else if v = 2 then Locking else OCC)"

datatype enum_tx_isolation = ISO_READ_UNCOMMITTED | ISO_READ_COMMITTED | ISO_REPEATABLE_READ | ISO_SERIALIZABLE

datatype isolation_level = ReadCommitted | RepeatableRead | Snapshot | Serializable

fun fetch_tx_isolation_level :: "bool \<Rightarrow> enum_tx_isolation \<Rightarrow> isolation_level option" where
  "fetch_tx_isolation_level enable_mvcc ISO_READ_UNCOMMITTED = None"
| "fetch_tx_isolation_level enable_mvcc ISO_READ_COMMITTED = Some ReadCommitted"
| "fetch_tx_isolation_level enable_mvcc ISO_REPEATABLE_READ = Some (if enable_mvcc then Snapshot else RepeatableRead)"
| "fetch_tx_isolation_level enable_mvcc ISO_SERIALIZABLE = Some Serializable"

section \<open>The state of a connection\<close>

text \<open>
  \<open>MyEloqTx\<close>: a transaction of the service is named by a number; table schemas by
  their names. Every cached schema holds a reader that has to be finished.
\<close>

record my_eloq_tx =
  tables_in_use :: nat
  txm :: "nat option"
  tx_err_code :: tx_error_code
  discovered_table_schemas :: "string list"
  dirty_index_names :: "string list"
  cached_schemas :: "string list"

definition new_my_eloq_tx :: my_eloq_tx where
  "new_my_eloq_tx = \<lparr>tables_in_use = 0, txm = None, tx_err_code = NO_ERROR, discovered_table_schemas = [],
     dirty_index_names = [], cached_schemas = []\<rparr>"

definition tx_Reset :: "nat option \<Rightarrow> my_eloq_tx \<Rightarrow> my_eloq_tx" where
  "tx_Reset tx my_tx = my_tx\<lparr>tables_in_use := 0, txm := tx, discovered_table_schemas := [], dirty_index_names := [],
     tx_err_code := NO_ERROR\<rparr>"

definition IncreTable :: "my_eloq_tx \<Rightarrow> my_eloq_tx" where
  "IncreTable my_tx = my_tx\<lparr>tables_in_use := tables_in_use my_tx + 1\<rparr>"

text \<open>What the service is asked to do; a commit carries its outcome.\<close>

datatype tx_event = TxStart nat isolation_level cc_protocol | TxCommit "nat option" bool | TxAbort "nat option" | FinishReader string

text \<open>
  The connection: the engine's data of the server's thread object, the variables it
  reads there, the registrations with the server's transaction coordinator, and the
  log of the service.
\<close>

record session =
  ha_data :: "my_eloq_tx option"
  var_cc_protocol :: nat
  var_isolation :: enum_tx_isolation
  not_autocommit :: bool
  reg_stmt :: bool
  reg_all :: bool
  tx_log :: "tx_event list"

definition ClearSchemaReaders :: "my_eloq_tx \<Rightarrow> my_eloq_tx \<times> tx_event list" where
  "ClearSchemaReaders my_tx = (my_tx\<lparr>cached_schemas := []\<rparr>, map FinishReader (cached_schemas my_tx))"

definition tx_Commit :: "bool \<times> tx_error_code \<Rightarrow> my_eloq_tx \<Rightarrow> bool \<times> my_eloq_tx \<times> tx_event list" where
  "tx_Commit res my_tx =
     (let (success, err) = res;
          my_tx1 = (if success then my_tx else my_tx\<lparr>tx_err_code := err\<rparr>);
          (my_tx2, ev) = ClearSchemaReaders my_tx1
      in (success, tx_Reset None my_tx2, TxCommit (txm my_tx) success # ev))"

definition tx_Abort :: "my_eloq_tx \<Rightarrow> my_eloq_tx \<times> tx_event list" where
  "tx_Abort my_tx =
     (let (my_tx1, ev) = ClearSchemaReaders my_tx in (tx_Reset None my_tx1, TxAbort (txm my_tx) # ev))"

definition eloq_register_tx :: "session \<Rightarrow> session" where
  "eloq_register_tx s = s\<lparr>reg_stmt := True, reg_all := reg_all s \<or> not_autocommit s\<rparr>"

text \<open>
  \<open>get_or_create_myeloq_tx\<close> with the transaction that the service returns (none if
  it is not ready).
\<close>

definition get_or_create_myeloq_tx :: "bool \<Rightarrow> nat option \<Rightarrow> session \<Rightarrow> bool \<times> session" where
  "get_or_create_myeloq_tx enable_mvcc new_tx s =
     (if ha_data s = None \<or> txm (the (ha_data s)) = None
      then (case fetch_tx_isolation_level enable_mvcc (var_isolation s) of
              None \<Rightarrow> (False, s)
            | Some iso_level \<Rightarrow>
                let my_tx = (case ha_data s of None \<Rightarrow> new_my_eloq_tx | Some m \<Rightarrow> m);
                    s1 = s\<lparr>ha_data := Some (tx_Reset new_tx my_tx),
                           tx_log := tx_log s @ (case new_tx of None \<Rightarrow> []
                             | Some n \<Rightarrow> [TxStart n iso_level (fetch_tx_cc_protocol (var_cc_protocol s))])\<rparr>
                in if new_tx = None then (False, s1) else (True, eloq_register_tx s1))
      else (True, s))"

section \<open>The calls of the server\<close>

definition eloq_commit :: "bool \<Rightarrow> bool \<times> tx_error_code \<Rightarrow> session \<Rightarrow> nat \<times> session" where
  "eloq_commit commit_tx res s =
     (case ha_data s of
        None \<Rightarrow> (0, s)
      | Some my_tx \<Rightarrow>
          if commit_tx \<or> \<not> not_autocommit s
          then (case tx_Commit res my_tx of (success, my_tx', ev) \<Rightarrow>
                  (if success then 0 else HA_ERR_ELOQ_COMMIT_FAILED, s\<lparr>ha_data := Some my_tx', tx_log := tx_log s @ ev\<rparr>))
          else (0, s))"

definition eloq_rollback :: "bool \<Rightarrow> session \<Rightarrow> nat \<times> session" where
  "eloq_rollback rollback_tx s =
     (case ha_data s of
        None \<Rightarrow> (0, s)
      | Some my_tx \<Rightarrow>
          if txm my_tx \<noteq> None
          then (case tx_Abort my_tx of (my_tx', ev) \<Rightarrow> (0, s\<lparr>ha_data := Some my_tx', tx_log := tx_log s @ ev\<rparr>))
          else (0, s))"

definition eloq_close_connection :: "bool \<times> tx_error_code \<Rightarrow> session \<Rightarrow> nat \<times> session" where
  "eloq_close_connection res s =
     (case ha_data s of
        None \<Rightarrow> (0, s)
      | Some my_tx \<Rightarrow>
          (case tx_Commit res my_tx of (success, my_tx', ev) \<Rightarrow> (0, s\<lparr>ha_data := None, tx_log := tx_log s @ ev\<rparr>)))"

definition eloq_start_tx_and_assign_read_view :: "bool \<Rightarrow> nat option \<Rightarrow> session \<Rightarrow> nat \<times> session" where
  "eloq_start_tx_and_assign_read_view enable_mvcc new_tx s =
     (case get_or_create_myeloq_tx enable_mvcc new_tx s of
        (False, s') \<Rightarrow> (HA_ERR_ELOQ_START_TRANSACTION_FAILED, s')
      | (True, s') \<Rightarrow> (0, eloq_register_tx s'))"

text \<open>The statements that \<open>external_lock\<close> refuses.\<close>

datatype sql_command =
  SQLCOM_LOCK_TABLES | SQLCOM_UNLOCK_TABLES | SQLCOM_RENAME_TABLE | SQLCOM_OPTIMIZE | SQLCOM_CHECK | SQLCOM_REPAIR |
  SQLCOM_CHECKSUM | SQLCOM_OTHER

definition external_lock :: "bool \<Rightarrow> nat option \<Rightarrow> sql_command \<Rightarrow> bool \<Rightarrow> session \<Rightarrow> nat \<times> session" where
  "external_lock enable_mvcc new_tx sqlcom unlock s =
     (if sqlcom \<noteq> SQLCOM_OTHER then (HA_ERR_WRONG_COMMAND, s)
      else if unlock then (0, s)
      else case get_or_create_myeloq_tx enable_mvcc new_tx s of
             (False, s') \<Rightarrow> (HA_ERR_ELOQ_START_TRANSACTION_FAILED, s')
           | (True, s') \<Rightarrow> (0, (eloq_register_tx s')\<lparr>ha_data := map_option IncreTable (ha_data s')\<rparr>))"

definition start_stmt :: "bool \<Rightarrow> nat option \<Rightarrow> session \<Rightarrow> nat \<times> session" where
  "start_stmt enable_mvcc new_tx s =
     (case get_or_create_myeloq_tx enable_mvcc new_tx s of
        (False, s') \<Rightarrow> (HA_ERR_ELOQ_START_TRANSACTION_FAILED, s')
      | (True, s') \<Rightarrow> (0, eloq_register_tx s'))"

text \<open>
  The message for an error: the service's own, an entry of the engine's table, or
  none.
\<close>

datatype error_message = Service_message tx_error_code | Engine_message nat | No_message

definition get_error_message :: "nat \<Rightarrow> session \<Rightarrow> error_message" where
  "get_error_message error s =
     (if error \<in> {HA_ERR_ELOQ_COMMIT_FAILED, HA_ERR_ELOQ_DROP_TABLE_FAILED, HA_ERR_ELOQ_CREATE_TABLE_FAILED} \<and>
         ha_data s \<noteq> None \<and> tx_err_code (the (ha_data s)) \<noteq> NO_ERROR
      then Service_message (tx_err_code (the (ha_data s)))
      else if HA_ERR_LAST + 1 \<le> error \<and> error \<le> HA_ERR_ELOQ_TRANSACTION_BREAK
      then Engine_message (error - (HA_ERR_LAST + 1))
      else No_message)"

section \<open>Connections as a transition system\<close>

text \<open>
  The steps of a connection. The service never hands out a transaction twice; a
  statement may change the session's variables and cache table schemas in between.
\<close>

definition started :: "tx_event list \<Rightarrow> nat list" where
  "started l = concat (map (\<lambda>e. case e of TxStart n _ _ \<Rightarrow> [n] | _ \<Rightarrow> []) l)"

definition finished :: "tx_event list \<Rightarrow> nat list" where
  "finished l = concat (map (\<lambda>e. case e of TxCommit (Some n) _ \<Rightarrow> [n] | TxAbort (Some n) \<Rightarrow> [n] | _ \<Rightarrow> []) l)"

definition fresh_tx :: "nat option \<Rightarrow> session \<Rightarrow> bool" where
  "fresh_tx new_tx s \<longleftrightarrow> (\<forall>n. new_tx = Some n \<longrightarrow> n \<notin> set (started (tx_log s)))"

definition open_tx :: "session \<Rightarrow> nat option" where
  "open_tx s = Option.bind (ha_data s) txm"

inductive session_step :: "session \<Rightarrow> session \<Rightarrow> bool" where
  lock_step: "fresh_tx new_tx s \<Longrightarrow> session_step s (snd (external_lock mvcc new_tx cmd unlock s))"
| stmt_step: "fresh_tx new_tx s \<Longrightarrow> session_step s (snd (start_stmt mvcc new_tx s))"
| snapshot_step: "fresh_tx new_tx s \<Longrightarrow> session_step s (snd (eloq_start_tx_and_assign_read_view mvcc new_tx s))"
| commit_step: "session_step s (snd (eloq_commit commit_tx res s))"
| rollback_step: "session_step s (snd (eloq_rollback rollback_tx s))"
| close_step: "session_step s (snd (eloq_close_connection res s))"
| vars_step: "session_step s (s\<lparr>var_cc_protocol := v, var_isolation := i, not_autocommit := a\<rparr>)"
| schema_step: "ha_data s = Some m \<Longrightarrow> txm m \<noteq> None \<Longrightarrow> session_step s (s\<lparr>ha_data := Some (m\<lparr>cached_schemas := n # cached_schemas m\<rparr>)\<rparr>)"

inductive_cases session_stepE: "session_step s s'"

definition session_init :: "session \<Rightarrow> bool" where
  "session_init s \<longleftrightarrow> ha_data s = None \<and> tx_log s = []"

text \<open>The invariant: the service's open transactions are the connection's.\<close>

definition session_inv :: "session \<Rightarrow> bool" where
  "session_inv s \<longleftrightarrow>
     distinct (started (tx_log s)) \<and> distinct (finished (tx_log s)) \<and> set (finished (tx_log s)) \<subseteq> set (started (tx_log s)) \<and>
     set (started (tx_log s)) - set (finished (tx_log s)) = set_option (open_tx s) \<and>
     (\<forall>m. ha_data s = Some m \<longrightarrow> txm m = None \<longrightarrow> cached_schemas m = [])"

lemma log_simps [simp]:
  "started [] = []" "finished [] = []" "started (l @ l') = started l @ started l'" "finished (l @ l') = finished l @ finished l'"
  "started (TxCommit t b # l) = started l" "started (TxAbort t # l) = started l" "started (TxStart n i c # l) = n # started l"
  "finished (TxStart n i c # l) = finished l" "finished (TxCommit None b # l) = finished l" "finished (TxAbort None # l) = finished l"
  "finished (TxCommit (Some n) b # l) = n # finished l" "finished (TxAbort (Some n) # l) = n # finished l"
  "started (map FinishReader xs) = []" "finished (map FinishReader xs) = []"
  by (induction xs) (simp_all add: started_def finished_def)

lemmas tx_end_defs = tx_Commit_def tx_Abort_def ClearSchemaReaders_def tx_Reset_def Let_def

lemma get_or_create_inv:
  assumes "session_inv s" "fresh_tx new_tx s" "get_or_create_myeloq_tx mvcc new_tx s = (b, s')"
  shows "session_inv s'" "b \<Longrightarrow> open_tx s' \<noteq> None" "\<not> b \<Longrightarrow> open_tx s' = None"
proof -
  consider "open_tx s \<noteq> None" "s' = s" "b" | "open_tx s = None" "fetch_tx_isolation_level mvcc (var_isolation s) = None" "s' = s" "\<not> b"
    | i where "open_tx s = None" "fetch_tx_isolation_level mvcc (var_isolation s) = Some i"
    using assms(3) by (cases "ha_data s"; cases "fetch_tx_isolation_level mvcc (var_isolation s)")
      (auto simp: get_or_create_myeloq_tx_def open_tx_def split: if_splits)
  then have "session_inv s' \<and> (b \<longrightarrow> open_tx s' \<noteq> None) \<and> (\<not> b \<longrightarrow> open_tx s' = None)"
  proof cases
    case 3
    then show ?thesis using assms
      by (cases "ha_data s"; cases new_tx)
        (auto simp: get_or_create_myeloq_tx_def session_inv_def open_tx_def fresh_tx_def new_my_eloq_tx_def tx_Reset_def
          eloq_register_tx_def Let_def)
  qed (use assms(1) in simp_all)
  then show "session_inv s'" "b \<Longrightarrow> open_tx s' \<noteq> None" "\<not> b \<Longrightarrow> open_tx s' = None" by simp_all
qed

lemma session_inv_upd:
  "session_inv s \<Longrightarrow> session_inv (eloq_register_tx s)"
  "session_inv s \<Longrightarrow> session_inv (s\<lparr>ha_data := map_option IncreTable (ha_data s)\<rparr>)"
  by (cases "ha_data s"; auto simp: session_inv_def open_tx_def eloq_register_tx_def IncreTable_def)+

text \<open>Ending the transaction: the log gets one end for it, and the schema readers are finished.\<close>

lemma tx_end_inv:
  assumes "session_inv s" "ha_data s = Some m" "ev = TxCommit (txm m) b \<or> ev = TxAbort (txm m)"
    and "d = None \<or> (\<exists>m'. d = Some m' \<and> txm m' = None \<and> cached_schemas m' = [])"
  shows "session_inv (s\<lparr>ha_data := d, tx_log := tx_log s @ ev # map FinishReader (cached_schemas m)\<rparr>)"
    "open_tx (s\<lparr>ha_data := d, tx_log := tx_log s @ ev # map FinishReader (cached_schemas m)\<rparr>) = None"
  using assms by (cases "txm m"; auto simp: session_inv_def open_tx_def)+

lemma eloq_commit_inv: "session_inv s \<Longrightarrow> session_inv (snd (eloq_commit commit_tx res s))"
  by (cases "ha_data s"; cases res) (auto simp: eloq_commit_def tx_end_defs intro!: tx_end_inv(1))

lemma eloq_rollback_inv: "session_inv s \<Longrightarrow> session_inv (snd (eloq_rollback rollback_tx s))"
  by (cases "ha_data s") (auto simp: eloq_rollback_def tx_end_defs intro!: tx_end_inv(1))

lemma eloq_close_inv: "session_inv s \<Longrightarrow> session_inv (snd (eloq_close_connection res s))"
  by (cases "ha_data s"; cases res) (auto simp: eloq_close_connection_def tx_end_defs intro!: tx_end_inv(1))

lemma start_calls_inv:
  assumes "session_inv s" "fresh_tx new_tx s"
  shows "session_inv (snd (external_lock mvcc new_tx cmd unlock s))" "session_inv (snd (start_stmt mvcc new_tx s))"
    "session_inv (snd (eloq_start_tx_and_assign_read_view mvcc new_tx s))"
proof -
  obtain b s' where g: "get_or_create_myeloq_tx mvcc new_tx s = (b, s')" by fastforce
  note inv = get_or_create_inv(1) [OF assms g]
  have "session_inv ((eloq_register_tx s')\<lparr>ha_data := map_option IncreTable (ha_data s')\<rparr>)"
    using session_inv_upd(2) [OF session_inv_upd(1) [OF inv]] by (simp add: eloq_register_tx_def)
  then show "session_inv (snd (external_lock mvcc new_tx cmd unlock s))"
    using assms(1) inv g by (auto simp: external_lock_def split: bool.split)
  show "session_inv (snd (start_stmt mvcc new_tx s))" "session_inv (snd (eloq_start_tx_and_assign_read_view mvcc new_tx s))"
    using inv session_inv_upd(1) g by (auto simp: start_stmt_def eloq_start_tx_and_assign_read_view_def split: bool.split)
qed

lemma session_step_inv: "session_step s s' \<Longrightarrow> session_inv s \<Longrightarrow> session_inv s'"
proof (induction rule: session_step.induct)
  case (schema_step s m n)
  then show ?case by (auto simp: session_inv_def open_tx_def)
next
  case (vars_step s v i a)
  then show ?case by (auto simp: session_inv_def open_tx_def)
qed (auto intro: start_calls_inv eloq_commit_inv eloq_rollback_inv eloq_close_inv)

lemma session_reach_inv: "session_step\<^sup>*\<^sup>* s0 s \<Longrightarrow> session_init s0 \<Longrightarrow> session_inv s"
proof (induction rule: rtranclp_induct)
  case base
  then show ?case by (simp add: session_inv_def session_init_def open_tx_def)
next
  case (step s s')
  then show ?case using session_step_inv by blast
qed

text \<open>
  C14. A connection keeps its transactions in order: whatever statements, commits and
  rollbacks a connection goes through, a transaction of the service is committed or
  aborted at most once and only after it was started, there is never more than one
  open transaction, and the open one is the one the connection holds; without an open
  transaction no schema reader is left behind.
\<close>

theorem session_safe:
  assumes "session_init s0" "session_step\<^sup>*\<^sup>* s0 s"
  shows "distinct (started (tx_log s)) \<and> distinct (finished (tx_log s)) \<and>
    set (finished (tx_log s)) \<subseteq> set (started (tx_log s)) \<and>
    set (started (tx_log s)) - set (finished (tx_log s)) = set_option (open_tx s) \<and>
    (\<forall>m. ha_data s = Some m \<longrightarrow> txm m = None \<longrightarrow> cached_schemas m = [])"
  using session_reach_inv [OF assms(2,1)] by (simp add: session_inv_def)

definition sample_session :: session where
  "sample_session = \<lparr>ha_data = None, var_cc_protocol = 0, var_isolation = ISO_REPEATABLE_READ, not_autocommit = True,
     reg_stmt = False, reg_all = False, tx_log = []\<rparr>"

lemmas session_defs = sample_session_def external_lock_def get_or_create_myeloq_tx_def eloq_register_tx_def
  new_my_eloq_tx_def IncreTable_def fetch_tx_cc_protocol_def

theorem session_safe_witness:
  "set (started (tx_log (snd (eloq_rollback True (snd (external_lock True (Some 7) SQLCOM_OTHER False sample_session)))))) -
   set (finished (tx_log (snd (eloq_rollback True (snd (external_lock True (Some 7) SQLCOM_OTHER False sample_session)))))) = {}"
proof -
  let ?s1 = "snd (external_lock True (Some 7) SQLCOM_OTHER False sample_session)"
  have "session_step sample_session ?s1" by (rule lock_step) (simp add: fresh_tx_def sample_session_def)
  moreover have "session_step ?s1 (snd (eloq_rollback True ?s1))" by (rule rollback_step)
  ultimately have r: "session_step\<^sup>*\<^sup>* sample_session (snd (eloq_rollback True ?s1))" by auto
  have "open_tx (snd (eloq_rollback True ?s1)) = None"
    by (simp add: session_defs eloq_rollback_def tx_end_defs open_tx_def)
  then show ?thesis using session_safe [OF _ r] by (simp add: session_init_def sample_session_def)
qed

text \<open>
  C15. Every transaction ends: from every state a connection can reach, a commit or a
  rollback of the transaction and closing the connection all leave no transaction
  open, so that every transaction that was started has been committed or aborted,
  exactly once, also if the commit fails.
\<close>

theorem session_ends:
  assumes "session_init s0" "session_step\<^sup>*\<^sup>* s0 s"
    and "s' \<in> {snd (eloq_commit True res s), snd (eloq_rollback b s), snd (eloq_close_connection res s)}"
  shows "open_tx s' = None \<and> set (finished (tx_log s')) = set (started (tx_log s')) \<and> distinct (finished (tx_log s'))"
proof -
  note inv = session_reach_inv [OF assms(2,1)]
  have "open_tx s' = None"
    using assms(3) by (cases "ha_data s"; cases res)
      (auto simp: eloq_commit_def eloq_rollback_def eloq_close_connection_def tx_end_defs open_tx_def)
  moreover have "session_inv s'"
    using assms(3) eloq_commit_inv [OF inv, of True res] eloq_rollback_inv [OF inv, of b] eloq_close_inv [OF inv, of res] by blast
  ultimately show ?thesis by (auto simp: session_inv_def)
qed

theorem session_ends_witness:
  "set (finished (tx_log (snd (eloq_close_connection (False, DATA_STORE_ERROR)
     (snd (external_lock True (Some 7) SQLCOM_OTHER False sample_session)))))) = {7}"
proof -
  let ?s1 = "snd (external_lock True (Some 7) SQLCOM_OTHER False sample_session)"
    and ?s2 = "snd (eloq_close_connection (False, DATA_STORE_ERROR) (snd (external_lock True (Some 7) SQLCOM_OTHER False sample_session)))"
  have "session_step sample_session ?s1" by (rule lock_step) (simp add: fresh_tx_def sample_session_def)
  then have r: "session_step\<^sup>*\<^sup>* sample_session ?s1" by auto
  have i: "session_init sample_session" by (simp add: session_init_def sample_session_def)
  have "started (tx_log ?s2) = [7]" by (simp add: session_defs eloq_close_connection_def tx_end_defs)
  then show ?thesis using session_ends [OF i r, of ?s2 "(False, DATA_STORE_ERROR)" True] by auto
qed

text \<open>
  C40. The error code of a failed commit is cleared: after a commit that failed with any
  error of the service, the connection holds no error code any more, so that
  \<open>get_error_message\<close> answers with the engine's default message for the failure and never
  with the service's, which only the report inside the commit itself carries.
\<close>

theorem commit_error_cleared:
  assumes "ha_data s = Some m"
  shows "fst (eloq_commit True (False, err) s) = HA_ERR_ELOQ_COMMIT_FAILED \<and>
    get_error_message HA_ERR_ELOQ_COMMIT_FAILED (snd (eloq_commit True (False, err) s)) = Engine_message 0"
  using assms by (simp add: eloq_commit_def tx_end_defs get_error_message_def ha_err_defs)

theorem commit_error_cleared_witness:
  "get_error_message HA_ERR_ELOQ_COMMIT_FAILED
     (snd (eloq_commit True (False, WRITE_WRITE_CONFLICT) (sample_session\<lparr>ha_data := Some new_my_eloq_tx\<rparr>))) = Engine_message 0"
  using commit_error_cleared [of "sample_session\<lparr>ha_data := Some new_my_eloq_tx\<rparr>" new_my_eloq_tx WRITE_WRITE_CONFLICT] by simp

end
