(* ===== verification/Row_Ops.thy ===== *)
theory Row_Ops
  imports Eloq_Key Tx_Session
begin

text \<open>
  Inserting, updating and deleting rows (\<open>ha_eloq::Insert\<close>, \<open>Update\<close>, \<open>Delete\<close> and
  the handler calls \<open>update_row\<close> and \<open>delete_row\<close>): the requests that keep the
  primary index and all secondary indexes of a table in step. The transaction
  service is an argument; the requests that were sent to it are a log.
\<close>

section \<open>Requests\<close>

datatype operation_type = Op_Insert | Op_Update | Op_Delete

datatype tx_request = TxUpsert string bytes "eloq_record option" operation_type | TxRevert string bytes

text \<open>
  The answers of the service to reads (an error, or whether the key exists) and to
  upserts, given the requests that the transaction has sent before.
\<close>

record tx_service =
  sv_read :: "tx_request list \<Rightarrow> string \<Rightarrow> bytes \<Rightarrow> tx_error_code + bool"
  sv_upsert :: "tx_request list \<Rightarrow> string \<Rightarrow> bytes \<Rightarrow> tx_error_code"

definition HA_ERR_FOUND_DUPP_KEY :: nat where "HA_ERR_FOUND_DUPP_KEY = 121"
definition HA_ERR_OUT_OF_MEM :: nat where "HA_ERR_OUT_OF_MEM = 128"

section \<open>The handler\<close>

record index_desc =
  ix_name :: string
  ix_def :: mono_key_def
  ix_nosame :: bool

text \<open>
  The table with its indexes by number (the entry of the primary key is not used),
  the indexes that are being added, the settings that \<open>Insert\<close> looks at, and the key
  of the row that was read last.
\<close>

record row_handler =
  rh_table :: table
  rh_pk_name :: string
  rh_pk_def :: mono_key_def
  rh_keys :: "index_desc list"
  rh_dirty :: "index_desc list"
  rh_insert_semantic :: bool
  rh_next_number_index :: nat
  rh_insert_id :: nat
  rh_last_read_key :: bytes

definition has_hidden_pk :: "row_handler \<Rightarrow> bool" where
  "has_hidden_pk h = table_has_hidden_pk (tbl_s (rh_table h))"

definition rh_primary_key :: "row_handler \<Rightarrow> nat" where
  "rh_primary_key h = ts_primary_key (tbl_s (rh_table h))"

text \<open>
  The loop over the indexes visits the numbers of the share except the primary key,
  then the indexes being added, which are not checked for uniqueness.
\<close>

definition secondary_indexes :: "row_handler \<Rightarrow> (nat \<times> index_desc) list" where
  "secondary_indexes h =
     filter (\<lambda>(kid, _). kid \<noteq> rh_primary_key h) (zip [0..<length (rh_keys h)] (rh_keys h)) @
     map (\<lambda>d. (length (rh_keys h), d\<lparr>ix_nosame := False\<rparr>)) (rh_dirty h)"

definition hidden_pk_of :: "row_handler \<Rightarrow> bytes \<Rightarrow> bytes option" where
  "hidden_pk_of h key = (if has_hidden_pk h then Some key else None)"

text \<open>
  The entry of a row in an index: a unique index has its columns as the key and the
  rest of the packed tuple as the value. A size that packing does not set is 0.
\<close>

definition unique_size_of :: "pack_state \<Rightarrow> nat" where
  "unique_size_of st = (case pk_unique_sk_pack_size st of None \<Rightarrow> 0 | Some n \<Rightarrow> n)"

definition sk_key :: "row_handler \<Rightarrow> mono_key_def \<Rightarrow> bool \<Rightarrow> rec_buf \<Rightarrow> bytes option \<Rightarrow> bytes option" where
  "sk_key h kd unique record hidden_pk =
     map_option (\<lambda>st. take (if unique then unique_size_of st else length (pk_tuple st)) (pk_tuple st))
       (pack_record (rh_table h) kd record None True hidden_pk 0)"

definition sk_entry :: "row_handler \<Rightarrow> mono_key_def \<Rightarrow> bool \<Rightarrow> rec_buf \<Rightarrow> bytes option \<Rightarrow> (bytes \<times> eloq_record) option" where
  "sk_entry h kd unique record hidden_pk =
     map_option (\<lambda>st.
         (take (if unique then unique_size_of st else length (pk_tuple st)) (pk_tuple st),
          \<lparr>encoded_blob = (if unique then drop (unique_size_of st) (pk_tuple st) else []),
           unpack_info = (case pk_unpack_info st of None \<Rightarrow> [] | Some w \<Rightarrow> wr_data w)\<rparr>))
       (pack_record (rh_table h) kd record (Some \<lparr>wr_data = []\<rparr>) True hidden_pk 0)"

record op_result =
  or_rc :: nat
  or_dup_key :: "nat option"
  or_log :: "tx_request list"

definition op_ok :: "tx_request list \<Rightarrow> op_result" where
  "op_ok l = \<lparr>or_rc = 0, or_dup_key = None, or_log = l\<rparr>"

definition op_error :: "nat \<Rightarrow> tx_request list \<Rightarrow> op_result" where
  "op_error rc l = \<lparr>or_rc = rc, or_dup_key = None, or_log = l\<rparr>"

definition op_duplicate :: "nat \<Rightarrow> tx_request list \<Rightarrow> op_result" where
  "op_duplicate kid l = \<lparr>or_rc = HA_ERR_FOUND_DUPP_KEY, or_dup_key = Some kid, or_log = l\<rparr>"

section \<open>Insert\<close>

text \<open>
  When a unique index has the key already, the entries of the indexes before it are
  taken back. Their keys are cut like those of unique indexes, whatever they are.
\<close>

fun insert_reverts :: "row_handler \<Rightarrow> rec_buf \<Rightarrow> bytes option \<Rightarrow> (nat \<times> index_desc) list \<Rightarrow> tx_request list option" where
  "insert_reverts h record hidden_pk [] = Some []"
| "insert_reverts h record hidden_pk ((i, d) # ds) =
     (case sk_key h (ix_def d) True record hidden_pk of
        None \<Rightarrow> None
      | Some key \<Rightarrow> map_option ((#) (TxRevert (ix_name d) key)) (insert_reverts h record hidden_pk ds))"

fun insert_indexes ::
  "tx_service \<Rightarrow> row_handler \<Rightarrow> rec_buf \<Rightarrow> bytes option \<Rightarrow> (nat \<times> index_desc) list \<Rightarrow> tx_request list \<Rightarrow>
   (op_result + tx_request list) option" where
  "insert_indexes sv h record hidden_pk [] l = Some (Inr l)"
| "insert_indexes sv h record hidden_pk ((kid, d) # ds) l =
     (case sk_entry h (ix_def d) (ix_nosame d) record hidden_pk of
        None \<Rightarrow> None
      | Some (key, rec) \<Rightarrow>
          let upsert = (\<lambda>_ :: unit.
                case sv_upsert sv l (ix_name d) key of
                  NO_ERROR \<Rightarrow> insert_indexes sv h record hidden_pk ds (l @ [TxUpsert (ix_name d) key (Some rec) Op_Insert])
                | _ \<Rightarrow> Some (Inl (op_error HA_ERR_OUT_OF_MEM l)))
          in if ix_nosame d
             then (case sv_read sv l (ix_name d) key of
                     Inl e \<Rightarrow> Some (Inl (op_error (convert_tx_error e) l))
                   | Inr False \<Rightarrow> upsert ()
                   | Inr True \<Rightarrow>
                       map_option (\<lambda>rs. Inl (op_duplicate kid (l @ rs)))
                         (insert_reverts h record hidden_pk
                            (filter (\<lambda>(i, _). i < kid) (secondary_indexes h))))
             else upsert ())"

definition row_Insert ::
  "tx_service \<Rightarrow> row_handler \<Rightarrow> rec_buf \<Rightarrow> bytes \<Rightarrow> eloq_record \<Rightarrow> tx_request list \<Rightarrow> op_result option" where
  "row_Insert sv h record key rec l =
     (let status = (if \<not> rh_insert_semantic h \<or> has_hidden_pk h \<or>
                       (rh_primary_key h = rh_next_number_index h \<and> rh_insert_id h \<noteq> 0)
                    then Inr False else sv_read sv l (rh_pk_name h) key)
      in case status of
           Inl e \<Rightarrow> Some (op_error (convert_tx_error e) l)
         | Inr True \<Rightarrow> Some (op_duplicate (rh_primary_key h) l)
         | Inr False \<Rightarrow>
             (case insert_indexes sv h record (hidden_pk_of h key) (secondary_indexes h) l of
                None \<Rightarrow> None
              | Some (Inl res) \<Rightarrow> Some res
              | Some (Inr l') \<Rightarrow>
                  (case sv_upsert sv l' (rh_pk_name h) key of
                     NO_ERROR \<Rightarrow> Some (op_ok (l' @ [TxUpsert (rh_pk_name h) key (Some rec) Op_Insert]))
                   | _ \<Rightarrow> Some (op_error HA_ERR_OUT_OF_MEM l'))))"

section \<open>Delete\<close>

fun delete_indexes ::
  "tx_service \<Rightarrow> row_handler \<Rightarrow> rec_buf \<Rightarrow> bytes option \<Rightarrow> (nat \<times> index_desc) list \<Rightarrow> tx_request list \<Rightarrow>
   (op_result + tx_request list) option" where
  "delete_indexes sv h record hidden_pk [] l = Some (Inr l)"
| "delete_indexes sv h record hidden_pk ((kid, d) # ds) l =
     (case eloq_key_of_record (ix_def d) (rh_table h) record hidden_pk (ix_nosame d) of
        None \<Rightarrow> None
      | Some key \<Rightarrow>
          (case sv_upsert sv l (ix_name d) (packed_key key) of
             NO_ERROR \<Rightarrow> delete_indexes sv h record hidden_pk ds (l @ [TxUpsert (ix_name d) (packed_key key) None Op_Delete])
           | _ \<Rightarrow> Some (Inl (op_error HA_ERR_OUT_OF_MEM l))))"

definition row_Delete :: "tx_service \<Rightarrow> row_handler \<Rightarrow> rec_buf \<Rightarrow> bytes \<Rightarrow> tx_request list \<Rightarrow> op_result option" where
  "row_Delete sv h old key l =
     (case delete_indexes sv h old (hidden_pk_of h key) (secondary_indexes h) l of
        None \<Rightarrow> None
      | Some (Inl res) \<Rightarrow> Some res
      | Some (Inr l') \<Rightarrow>
          (case sv_upsert sv l' (rh_pk_name h) key of
             NO_ERROR \<Rightarrow> Some (op_ok (l' @ [TxUpsert (rh_pk_name h) key None Op_Delete]))
           | _ \<Rightarrow> Some (op_error HA_ERR_OUT_OF_MEM l')))"

section \<open>Update\<close>

fun update_indexes ::
  "tx_service \<Rightarrow> row_handler \<Rightarrow> rec_buf \<Rightarrow> rec_buf \<Rightarrow> bytes option \<Rightarrow> (nat \<times> index_desc) list \<Rightarrow> tx_request list \<Rightarrow>
   (op_result + tx_request list) option" where
  "update_indexes sv h new old hidden_pk [] l = Some (Inr l)"
| "update_indexes sv h new old hidden_pk ((kid, d) # ds) l =
     (case (sk_key h (ix_def d) (ix_nosame d) old hidden_pk, sk_entry h (ix_def d) (ix_nosame d) new hidden_pk) of
        (Some old_key, Some (new_key, rec)) \<Rightarrow>
          if new_key = old_key then update_indexes sv h new old hidden_pk ds l
          else
            let l1 = l @ [TxUpsert (ix_name d) new_key (Some rec) Op_Insert];
                write = (\<lambda>_ :: unit.
                  case sv_upsert sv l (ix_name d) new_key of
                    NO_ERROR \<Rightarrow>
                      (case sv_upsert sv l1 (ix_name d) old_key of
                         NO_ERROR \<Rightarrow>
                           update_indexes sv h new old hidden_pk ds (l1 @ [TxUpsert (ix_name d) old_key None Op_Delete])
                       | _ \<Rightarrow> Some (Inl (op_error HA_ERR_OUT_OF_MEM l1)))
                  | _ \<Rightarrow> Some (Inl (op_error HA_ERR_OUT_OF_MEM l)))
            in if ix_nosame d
               then (case sv_read sv l (ix_name d) new_key of
                       Inl e \<Rightarrow> Some (Inl (op_error (convert_tx_error e) l))
                     | Inr True \<Rightarrow> Some (Inl (op_duplicate kid l))
                     | Inr False \<Rightarrow> write ())
               else write ()
      | _ \<Rightarrow> None)"

definition row_Update ::
  "tx_service \<Rightarrow> row_handler \<Rightarrow> rec_buf \<Rightarrow> rec_buf \<Rightarrow> bytes \<Rightarrow> eloq_record \<Rightarrow> tx_request list \<Rightarrow> op_result option" where
  "row_Update sv h new old key rec l =
     (case update_indexes sv h new old (hidden_pk_of h key) (secondary_indexes h) l of
        None \<Rightarrow> None
      | Some (Inl res) \<Rightarrow> Some res
      | Some (Inr l') \<Rightarrow>
          (case sv_upsert sv l' (rh_pk_name h) key of
             NO_ERROR \<Rightarrow> Some (op_ok (l' @ [TxUpsert (rh_pk_name h) key (Some rec) Op_Update]))
           | _ \<Rightarrow> Some (op_error HA_ERR_OUT_OF_MEM l')))"

section \<open>The calls of the server\<close>

text \<open>
  The payload that \<open>PackRecord\<close> encodes is an argument; with a visible primary key the
  record also gets the unpack information of that key.
\<close>

definition PackKeyRecord :: "row_handler \<Rightarrow> rec_buf \<Rightarrow> bytes \<Rightarrow> (bytes \<times> eloq_record) option" where
  "PackKeyRecord h record payload =
     map_option (\<lambda>st. (pk_tuple st, \<lparr>encoded_blob = payload,
         unpack_info = (case pk_unpack_info st of None \<Rightarrow> [] | Some w \<Rightarrow> wr_data w)\<rparr>))
       (pack_record (rh_table h) (rh_pk_def h) record (Some \<lparr>wr_data = []\<rparr>) False None 0)"

definition update_row ::
  "tx_service \<Rightarrow> row_handler \<Rightarrow> rec_buf \<Rightarrow> rec_buf \<Rightarrow> bytes \<Rightarrow> tx_request list \<Rightarrow> op_result option" where
  "update_row sv h old new payload l =
     (if has_hidden_pk h
      then row_Update sv h new old (rh_last_read_key h) \<lparr>encoded_blob = payload, unpack_info = []\<rparr> l
      else case (PackKeyRecord h new payload, eloq_key_of_record (rh_pk_def h) (rh_table h) old None False) of
             (Some (new_key, rec), Some old_key) \<Rightarrow>
               if new_key \<noteq> packed_key old_key
               then (case row_Insert sv h new new_key rec l of
                       None \<Rightarrow> None
                     | Some res \<Rightarrow>
                         if or_rc res = 0 then row_Delete sv h old (packed_key old_key) (or_log res) else Some res)
               else row_Update sv h new old new_key rec l
           | _ \<Rightarrow> None)"

definition delete_row :: "tx_service \<Rightarrow> row_handler \<Rightarrow> rec_buf \<Rightarrow> tx_request list \<Rightarrow> op_result option" where
  "delete_row sv h record l =
     (if has_hidden_pk h then row_Delete sv h record (rh_last_read_key h) l
      else case eloq_key_of_record (rh_pk_def h) (rh_table h) record None False of
             None \<Rightarrow> None
           | Some key \<Rightarrow> row_Delete sv h record (packed_key key) l)"


section \<open>What the indexes hold\<close>

text \<open>
  The contents of the indexes as the transaction sees them: the stored entries with
  the requests of the transaction applied. A reverted key has its stored entry again.
\<close>

type_synonym index_store = "string \<times> bytes \<Rightarrow> eloq_record option"

fun apply_request :: "index_store \<Rightarrow> index_store \<Rightarrow> tx_request \<Rightarrow> index_store" where
  "apply_request base st (TxUpsert n k r op) = st((n, k) := r)"
| "apply_request base st (TxRevert n k) = st((n, k) := base (n, k))"

definition store_of :: "index_store \<Rightarrow> tx_request list \<Rightarrow> index_store" where
  "store_of base l = foldl (apply_request base) base l"

lemma store_of_snoc [simp]: "store_of base (l @ [q]) = apply_request base (store_of base l) q"
  by (simp add: store_of_def)

text \<open>
  What the engine relies on: a read that succeeds tells whether the transaction sees
  an entry with the key, and a read that fails has an error code.
\<close>

definition reads_own_writes :: "tx_service \<Rightarrow> index_store \<Rightarrow> bool" where
  "reads_own_writes sv base \<longleftrightarrow> (\<forall>l n k. case sv_read sv l n k of
     Inl e \<Rightarrow> e \<noteq> NO_ERROR | Inr b \<Rightarrow> b = (store_of base l (n, k) \<noteq> None))"

text \<open>The service answers every request.\<close>

definition service_up :: "tx_service \<Rightarrow> bool" where
  "service_up sv \<longleftrightarrow> (\<forall>l n k. sv_upsert sv l n k = NO_ERROR \<and> (\<exists>b. sv_read sv l n k = Inr b))"

lemma service_upE: "service_up sv \<Longrightarrow> (\<And>b. sv_upsert sv l n k = NO_ERROR \<Longrightarrow> sv_read sv l n k = Inr b \<Longrightarrow> thesis) \<Longrightarrow> thesis"
  unfolding service_up_def by blast

lemma read_found: "reads_own_writes sv base \<Longrightarrow> sv_read sv l n k = Inr b \<Longrightarrow> b = (store_of base l (n, k) \<noteq> None)"
  unfolding reads_own_writes_def by (drule spec [where x = l], drule spec [where x = n], drule spec [where x = k]) simp

lemma read_failed: "reads_own_writes sv base \<Longrightarrow> sv_read sv l n k = Inl e \<Longrightarrow> e \<noteq> NO_ERROR"
  unfolding reads_own_writes_def by (drule spec [where x = l], drule spec [where x = n], drule spec [where x = k]) simp

lemma convert_tx_error_codes: "convert_tx_error e = 0 \<longleftrightarrow> e = NO_ERROR" "convert_tx_error e \<noteq> HA_ERR_FOUND_DUPP_KEY"
  by (cases e; simp add: ha_err_defs HA_ERR_FOUND_DUPP_KEY_def)+

text \<open>A row is a record with its primary key and its record in the primary index.\<close>

type_synonym table_row = "rec_buf \<times> bytes \<times> eloq_record"

abbreviation row_key :: "table_row \<Rightarrow> bytes" where "row_key row \<equiv> fst (snd row)"

definition index_names :: "row_handler \<Rightarrow> string list" where
  "index_names h = rh_pk_name h # map (ix_name \<circ> snd) (secondary_indexes h)"

definition entry_in :: "row_handler \<Rightarrow> table_row \<Rightarrow> index_desc \<Rightarrow> (bytes \<times> eloq_record) option" where
  "entry_in h row d = sk_entry h (ix_def d) (ix_nosame d) (fst row) (hidden_pk_of h (row_key row))"

definition row_entry :: "row_handler \<Rightarrow> table_row \<Rightarrow> string \<Rightarrow> (bytes \<times> eloq_record) option" where
  "row_entry h row n =
     (if n = rh_pk_name h then Some (snd row)
      else case map_of (map (\<lambda>(_, d). (ix_name d, d)) (secondary_indexes h)) n of
             None \<Rightarrow> None | Some d \<Rightarrow> entry_in h row d)"

text \<open>
  The indexes of a table hold exactly the entries of its rows, and no two rows have
  the same key in any index.
\<close>

definition indexed :: "row_handler \<Rightarrow> table_row set \<Rightarrow> index_store \<Rightarrow> bool" where
  "indexed h R st \<longleftrightarrow>
     (\<forall>n \<in> set (index_names h). \<forall>k r. st (n, k) = Some r \<longleftrightarrow> (\<exists>row \<in> R. row_entry h row n = Some (k, r))) \<and>
     (\<forall>row \<in> R. \<forall>row' \<in> R. \<forall>n k r r'.
        row_entry h row n = Some (k, r) \<longrightarrow> row_entry h row' n = Some (k, r') \<longrightarrow> row = row')"

text \<open>
  The rows that the key definitions describe: every secondary index can pack the
  record, and the key parts \<open>qs\<close> of the primary key are among those of the index.
\<close>

definition index_row :: "row_handler \<Rightarrow> index_desc \<Rightarrow> rec_buf \<Rightarrow> bytes \<Rightarrow> part list \<Rightarrow> bytes list \<Rightarrow> bool" where
  "index_row h d record key ps qs \<longleftrightarrow>
     (let tbl = rh_table h; kd = ix_def d; hid = hidden_pk_of h key;
          es = key_images tbl hid ps (key_row record ps)
      in parts_at tbl kd 0 ps \<and> row_ok ps (key_row record ps) \<and>
         hidden_ok tbl kd hid (m_key_parts kd) (length ps) \<and> full_key tbl kd hid ps \<and>
         length (concat es) \<le> m_maxlength kd \<and> length (concat es) < 2 ^ 32 \<and>
         pk_inside kd es qs \<and> concat qs = key \<and> (ix_nosame d \<longrightarrow> size_noted tbl kd hid ps))"

definition good_row :: "row_handler \<Rightarrow> table_row \<Rightarrow> bool" where
  "good_row h row \<longleftrightarrow> (\<forall>(i, d) \<in> set (secondary_indexes h). \<exists>ps qs. index_row h d (fst row) (row_key row) ps qs)"

section \<open>The entries of a row\<close>

lemma pack_n_whole [simp]: "pack_n_key_parts (rh_table h) kd b (hidden_pk_of h key) 0 = m_key_parts kd"
  by (simp add: pack_n_key_parts_def hidden_pk_of_def has_hidden_pk_def)

lemma index_row_entry:
  assumes "index_row h d record key ps qs"
  obtains k r where "sk_entry h (ix_def d) (ix_nosame d) record (hidden_pk_of h key) = Some (k, r)"
    "sk_key h (ix_def d) (ix_nosame d) record (hidden_pk_of h key) = Some k"
    "eloq_key_of_record (ix_def d) (rh_table h) record (hidden_pk_of h key) (ix_nosame d) = Some (PackedKey k)"
    "\<not> ix_nosame d \<Longrightarrow> get_primary_key_tuple (rh_table h) (ix_def d) k = Inr key"
proof -
  let ?tbl = "rh_table h" and ?kd = "ix_def d" and ?hid = "hidden_pk_of h key"
  let ?es = "key_images ?tbl ?hid ps (key_row record ps)" and ?u = "m_unique_sk_only_key_parts (ix_def d)"
  let ?n = "length (enc_row enc_part (take ?u ps) (take ?u (key_row record ps)))"
  have a: "parts_at ?tbl ?kd 0 ps" "row_ok ps (key_row record ps)" "full_key ?tbl ?kd ?hid ps" "pk_inside ?kd ?es qs" "concat qs = key"
    and h: "hidden_ok ?tbl ?kd ?hid (pack_n_key_parts ?tbl ?kd b ?hid 0) (length ps)"
    and len: "length (concat ?es) \<le> m_maxlength ?kd" "length (concat ?es) < 2 ^ 32" "ix_nosame d \<Longrightarrow> size_noted ?tbl ?kd ?hid ps" for b
    using assms by (simp_all add: index_row_def Let_def)
  have pk: "get_primary_key_tuple ?tbl ?kd (concat ?es) = Inr key"
    using get_primary_key_images [OF key_images_walk [OF a(1) row_ok_wf [OF a(2)] a(3) h] a(4) len(2)] a(5) by simp
  have img: "\<exists>st. pack_record ?tbl ?kd record w b ?hid 0 = Some st \<and> pk_tuple st = concat ?es \<and>
      (b \<and> ix_nosame d \<longrightarrow> pk_unique_sk_pack_size st = Some ?n)" for w b
    using pack_record_image [OF a(1,2) h, of w b] len(3) by (auto simp: concat_key_images Let_def)
  obtain s0 where s0: "pack_record ?tbl ?kd record (Some \<lparr>wr_data = []\<rparr>) True ?hid 0 = Some s0" "pk_tuple s0 = concat ?es"
    "ix_nosame d \<longrightarrow> pk_unique_sk_pack_size s0 = Some ?n" using img by blast
  obtain s1 where s1: "pack_record ?tbl ?kd record None True ?hid 0 = Some s1" "pk_tuple s1 = concat ?es"
    "ix_nosame d \<longrightarrow> pk_unique_sk_pack_size s1 = Some ?n" using img by blast
  obtain s2 where s2: "pack_record ?tbl ?kd record None False ?hid 0 = Some s2" "pk_tuple s2 = concat ?es" using img by blast
  have n: "?n \<le> length (concat ?es)"
    using enc_row_take_append [of ps "key_row record ps" enc_part ?u]
    by (simp add: concat_key_images)
  show ?thesis
  proof (cases "ix_nosame d")
    case True
    show ?thesis
      by (rule that [where k = "take ?n (concat ?es)"])
        (use True s0 s1 n len(1) in \<open>simp_all add: sk_entry_def sk_key_def eloq_key_of_record_def unique_size_of_def vec_resize_def\<close>)
  next
    case False
    show ?thesis
      by (rule that [where k = "concat ?es"])
        (use False s0 s1 s2 pk len(1) in \<open>simp_all add: sk_entry_def sk_key_def eloq_key_of_record_def\<close>)
  qed
qed

lemma row_entry_pk [simp]: "row_entry h row (rh_pk_name h) = Some (snd row)"
  by (simp add: row_entry_def)

lemma row_entry_secondary:
  assumes "distinct (index_names h)" "(i, d) \<in> set (secondary_indexes h)"
  shows "row_entry h row (ix_name d) = entry_in h row d"
proof -
  have "map_of (map (\<lambda>(_, d). (ix_name d, d)) (secondary_indexes h)) (ix_name d) = Some d"
    using assms by (intro map_of_is_SomeI) (force simp: index_names_def comp_def case_prod_beta)+
  moreover have "ix_name d \<noteq> rh_pk_name h" using assms by (force simp: index_names_def)
  ultimately show ?thesis by (simp add: row_entry_def)
qed

lemma row_entry_cases:
  assumes "row_entry h row n = Some e"
  obtains "n = rh_pk_name h" "e = snd row"
  | i d where "(i, d) \<in> set (secondary_indexes h)" "n = ix_name d" "entry_in h row d = Some e"
  using assms by (fastforce simp: row_entry_def split: if_splits option.splits dest!: map_of_SomeD)

lemma good_row_entry:
  assumes "good_row h row" "(i, d) \<in> set (secondary_indexes h)"
  obtains k r where "entry_in h row d = Some (k, r)"
    "sk_key h (ix_def d) (ix_nosame d) (fst row) (hidden_pk_of h (row_key row)) = Some k"
    "eloq_key_of_record (ix_def d) (rh_table h) (fst row) (hidden_pk_of h (row_key row)) (ix_nosame d) = Some (PackedKey k)"
    "\<not> ix_nosame d \<Longrightarrow> get_primary_key_tuple (rh_table h) (ix_def d) k = Inr (row_key row)"
  using assms unfolding good_row_def entry_in_def by (fastforce elim: index_row_entry)

text \<open>An index that is not unique keeps rows with different primary keys apart.\<close>

lemma entry_key_pk:
  assumes "good_row h row" "good_row h row'" "(i, d) \<in> set (secondary_indexes h)" "\<not> ix_nosame d"
    and "entry_in h row d = Some (k, r)" "entry_in h row' d = Some (k, r')"
  shows "row_key row = row_key row'"
  using good_row_entry [OF assms(1,3)] good_row_entry [OF assms(2,3)] assms(4-6)
  by (metis Pair_inject option.inject sum.inject(2))

section \<open>Requests of an operation\<close>

text \<open>One entry per index is written, or removed when it is \<open>None\<close>.\<close>

definition put_entries :: "(string \<times> bytes \<times> eloq_record option) list \<Rightarrow> index_store \<Rightarrow> index_store" where
  "put_entries es st = foldl (\<lambda>st (n, k, r). st((n, k) := r)) st es"

lemma put_entries_other: "n \<notin> set (map fst es) \<Longrightarrow> put_entries es st (n, k) = st (n, k)"
  unfolding put_entries_def by (induction es arbitrary: st) (auto simp: image_iff)

lemma put_entries_at:
  assumes "distinct (map fst es)" "(n, k', r) \<in> set es"
  shows "put_entries es st (n, k) = (if k = k' then r else st (n, k))"
  using assms
proof (induction es arbitrary: st)
  case (Cons e es)
  show ?case
  proof (cases "e = (n, k', r)")
    case True
    then show ?thesis using Cons.prems(1) put_entries_other [of n es] by (simp add: put_entries_def)
  next
    case False
    then have "(n, k', r) \<in> set es" "fst e \<noteq> n" using Cons.prems by (force simp: image_iff)+
    then show ?thesis using Cons.IH Cons.prems(1) by (cases e) (simp add: put_entries_def)
  qed
qed simp

definition entries_of :: "row_handler \<Rightarrow> table_row \<Rightarrow> (nat \<times> index_desc) list \<Rightarrow> (string \<times> bytes \<times> eloq_record option) list" where
  "entries_of h row ds = map (\<lambda>(i, d). (ix_name d, map_prod id Some (the (entry_in h row d)))) ds"

definition removals_of :: "row_handler \<Rightarrow> table_row \<Rightarrow> (nat \<times> index_desc) list \<Rightarrow> (string \<times> bytes \<times> eloq_record option) list" where
  "removals_of h row ds = map (\<lambda>(i, d). (ix_name d, fst (the (entry_in h row d)), None)) ds"

lemma entries_of_names [simp]: "map fst (entries_of h row ds) = map (ix_name \<circ> snd) ds" "map fst (removals_of h row ds) = map (ix_name \<circ> snd) ds"
  by (induction ds) (auto simp: entries_of_def removals_of_def)

lemma put_entries_Cons: "put_entries ((n, k, r) # es) st = put_entries es (st((n, k) := r))"
  by (simp add: put_entries_def)

lemma insert_reverts_total:
  "good_row h row \<Longrightarrow> set ds \<subseteq> set (secondary_indexes h) \<Longrightarrow>
   insert_reverts h (fst row) (hidden_pk_of h (row_key row)) ds \<noteq> None"
proof (induction ds)
  case (Cons e ds)
  obtain i d where e: "e = (i, d)" "(i, d) \<in> set (secondary_indexes h)" using Cons.prems by (cases e) auto
  obtain k where "sk_key h (ix_def d) (ix_nosame d) (fst row) (hidden_pk_of h (row_key row)) = Some k"
    using good_row_entry [OF Cons.prems(1) e(2)] by blast
  then show ?case using Cons e(1) by (auto simp: sk_key_def)
qed simp

text \<open>
  A pass over the indexes for an insert: either it writes all entries, and no unique
  index had the key, or it stops with an error.
\<close>

definition unique_free :: "row_handler \<Rightarrow> table_row \<Rightarrow> (nat \<times> index_desc) list \<Rightarrow> index_store \<Rightarrow> bool" where
  "unique_free h row ds st \<longleftrightarrow>
     (\<forall>(i, d) \<in> set ds. \<forall>k r. ix_nosame d \<longrightarrow> entry_in h row d = Some (k, r) \<longrightarrow> st (ix_name d, k) = None)"

definition key_taken :: "row_handler \<Rightarrow> table_row \<Rightarrow> (nat \<times> index_desc) list \<Rightarrow> index_store \<Rightarrow> bool" where
  "key_taken h row ds st \<longleftrightarrow> (\<exists>(i, d) \<in> set ds. \<exists>k r. entry_in h row d = Some (k, r) \<and> st (ix_name d, k) \<noteq> None)"

definition insert_outcome ::
  "index_store \<Rightarrow> row_handler \<Rightarrow> table_row \<Rightarrow> (nat \<times> index_desc) list \<Rightarrow> index_store \<Rightarrow> op_result + tx_request list \<Rightarrow> bool" where
  "insert_outcome base h row ds st x = (case x of
     Inr l' \<Rightarrow> store_of base l' = put_entries (entries_of h row ds) st \<and> unique_free h row ds st
   | Inl res \<Rightarrow> or_rc res \<noteq> 0 \<and> (or_rc res = HA_ERR_FOUND_DUPP_KEY \<longrightarrow> key_taken h row ds st))"

lemma insert_outcome_step:
  assumes "insert_outcome base h row ds (st((ix_name d, k) := Some r)) x" "entry_in h row d = Some (k, r)"
    and "ix_name d \<notin> (ix_name \<circ> snd) ` set ds" "ix_nosame d \<longrightarrow> st (ix_name d, k) = None"
  shows "insert_outcome base h row ((i, d) # ds) st x"
proof -
  have other: "ix_name d' \<noteq> ix_name d" if "(j, d') \<in> set ds" for j d'
    using that assms(3) by force
  have "unique_free h row ds (st((ix_name d, k) := Some r)) = unique_free h row ds st"
    unfolding unique_free_def using other by (intro ball_cong) auto
  moreover have "key_taken h row ds (st((ix_name d, k) := Some r)) = key_taken h row ds st"
    unfolding key_taken_def using other by (intro bex_cong) auto
  ultimately show ?thesis using assms(1,2,4)
    by (auto simp: insert_outcome_def unique_free_def key_taken_def entries_of_def put_entries_Cons split: sum.splits)
qed

lemma insert_indexes_effect:
  assumes "reads_own_writes sv base" "good_row h row" "set ds \<subseteq> set (secondary_indexes h)" "distinct (map (ix_name \<circ> snd) ds)"
  shows "\<exists>x. insert_indexes sv h (fst row) (hidden_pk_of h (row_key row)) ds l = Some x \<and>
    insert_outcome base h row ds (store_of base l) x"
  using assms(3,4)
proof (induction ds arbitrary: l)
  case (Cons e ds)
  obtain i d where e: "e = (i, d)" "(i, d) \<in> set (secondary_indexes h)" using Cons.prems by (cases e) auto
  obtain k r where k: "entry_in h row d = Some (k, r)" using good_row_entry [OF assms(2) e(2)] by blast
  then have sk: "sk_entry h (ix_def d) (ix_nosame d) (fst row) (hidden_pk_of h (row_key row)) = Some (k, r)"
    by (simp add: entry_in_def)
  have new: "ix_name d \<notin> (ix_name \<circ> snd) ` set ds" using Cons.prems e(1) by force
  obtain x where x: "insert_indexes sv h (fst row) (hidden_pk_of h (row_key row)) ds (l @ [TxUpsert (ix_name d) k (Some r) Op_Insert]) = Some x"
    "insert_outcome base h row ds ((store_of base l)((ix_name d, k) := Some r)) x"
    using Cons.IH [of "l @ [TxUpsert (ix_name d) k (Some r) Op_Insert]"] Cons.prems by (auto simp: fun_upd_def)
  note step = insert_outcome_step [OF x(2) k new, of i]
  obtain rs where rs: "insert_reverts h (fst row) (hidden_pk_of h (row_key row)) (filter (\<lambda>(j, _). j < i) (secondary_indexes h)) = Some rs"
    using insert_reverts_total [OF assms(2)] by fastforce
  have err: "insert_outcome base h row (e # ds) st (Inl (op_error HA_ERR_OUT_OF_MEM l'))" for l' st
    by (simp add: insert_outcome_def op_error_def HA_ERR_OUT_OF_MEM_def HA_ERR_FOUND_DUPP_KEY_def)
  show ?case
  proof (cases "ix_nosame d")
    case False
    then show ?thesis using sk x(1) step err e(1) by (cases "sv_upsert sv l (ix_name d) k") auto
  next
    case True
    show ?thesis
    proof (cases "sv_read sv l (ix_name d) k")
      case (Inl c)
      then show ?thesis using sk True e(1) read_failed [OF assms(1) Inl]
        by (simp add: insert_outcome_def op_error_def convert_tx_error_codes)
    next
      case (Inr b)
      have dup: "b \<Longrightarrow> insert_outcome base h row (e # ds) (store_of base l) (Inl (op_duplicate i (l @ rs)))"
        using e(1) k read_found [OF assms(1) Inr]
        by (auto simp: insert_outcome_def op_duplicate_def HA_ERR_FOUND_DUPP_KEY_def key_taken_def)
      show ?thesis
        using sk x(1) step err True e(1) rs dup Inr read_found [OF assms(1) Inr]
        by (cases b; cases "sv_upsert sv l (ix_name d) k") auto
    qed
  qed
qed (simp add: insert_outcome_def unique_free_def entries_of_def put_entries_def)

text \<open>A whole row is written or removed: one entry in every index.\<close>

lemma index_name_cases:
  assumes "n \<in> set (index_names h)"
  obtains "n = rh_pk_name h" | i d where "(i, d) \<in> set (secondary_indexes h)" "n = ix_name d"
  using assms by (auto simp: index_names_def)

lemma good_row_named:
  assumes "distinct (index_names h)" "good_row h row" "n \<in> set (index_names h)"
  obtains k r where "row_entry h row n = Some (k, r)"
  using assms(3)
proof (cases rule: index_name_cases)
  case 1
  then show ?thesis using that by (cases "snd row") simp
next
  case (2 i d)
  then show ?thesis using that good_row_entry [OF assms(2) 2(1)] row_entry_secondary [OF assms(1) 2(1), of row] by metis
qed

lemma put_row:
  assumes "distinct (index_names h)" "row_entry h row n = Some (k', r)"
  shows "((put_entries (entries_of h row (secondary_indexes h)) st)((rh_pk_name h, row_key row) := Some (snd (snd row)))) (n, k) =
      (if k = k' then Some r else st (n, k))"
    and "((put_entries (removals_of h row (secondary_indexes h)) st)((rh_pk_name h, row_key row) := None)) (n, k) =
      (if k = k' then None else st (n, k))"
proof -
  let ?ds = "secondary_indexes h"
  have names: "distinct (map fst (entries_of h row ?ds))" "distinct (map fst (removals_of h row ?ds))"
    "rh_pk_name h \<notin> set (map (ix_name \<circ> snd) ?ds)"
    using assms(1) by (simp_all add: index_names_def)
  then have pk: "rh_pk_name h \<notin> set (map fst (entries_of h row ?ds))" "rh_pk_name h \<notin> set (map fst (removals_of h row ?ds))"
    by (simp_all only: entries_of_names not_False_eq_True)
  have "((put_entries (entries_of h row ?ds) st)((rh_pk_name h, row_key row) := Some (snd (snd row)))) (n, k) =
      (if k = k' then Some r else st (n, k)) \<and>
    ((put_entries (removals_of h row ?ds) st)((rh_pk_name h, row_key row) := None)) (n, k) =
      (if k = k' then None else st (n, k))"
    using assms(2)
  proof (cases rule: row_entry_cases)
    case 1
    then show ?thesis using put_entries_other [OF pk(1), of st k] put_entries_other [OF pk(2), of st k]
      by (cases "snd row") simp
  next
    case (2 i d)
    then have "(n, k', Some r) \<in> set (entries_of h row ?ds)" "(n, k', None) \<in> set (removals_of h row ?ds)"
      by (force simp: entries_of_def removals_of_def)+
    moreover have "n \<noteq> rh_pk_name h" using 2 names(3) by force
    ultimately show ?thesis
      using put_entries_at [OF names(1), of n k' "Some r" st k] put_entries_at [OF names(2), of n k' None st k] by simp
  qed
  then show "((put_entries (entries_of h row ?ds) st)((rh_pk_name h, row_key row) := Some (snd (snd row)))) (n, k) =
      (if k = k' then Some r else st (n, k))"
    "((put_entries (removals_of h row ?ds) st)((rh_pk_name h, row_key row) := None)) (n, k) =
      (if k = k' then None else st (n, k))" by blast+
qed

definition row_fresh :: "row_handler \<Rightarrow> table_row \<Rightarrow> table_row set \<Rightarrow> bool" where
  "row_fresh h row R \<longleftrightarrow> (\<forall>row' \<in> R. \<forall>n k r r'. row_entry h row n = Some (k, r) \<longrightarrow> row_entry h row' n \<noteq> Some (k, r'))"

lemma indexed_insert:
  assumes "indexed h R st" "row_fresh h row R"
    and "\<And>n k' r k. n \<in> set (index_names h) \<Longrightarrow> row_entry h row n = Some (k', r) \<Longrightarrow>
      st' (n, k) = (if k = k' then Some r else st (n, k))"
    and "\<And>n. n \<in> set (index_names h) \<Longrightarrow> row_entry h row n \<noteq> None"
  shows "indexed h (insert row R) st'"
  unfolding indexed_def
proof (intro conjI ballI allI impI)
  fix n k r assume n: "n \<in> set (index_names h)"
  obtain k' r' where e: "row_entry h row n = Some (k', r')" using assms(4) [OF n] by auto
  have "st (n, k) = Some r \<longleftrightarrow> (\<exists>row \<in> R. row_entry h row n = Some (k, r))" using assms(1) n by (simp add: indexed_def)
  moreover have "\<not> (\<exists>row \<in> R. row_entry h row n = Some (k', r))" using assms(2) e by (auto simp: row_fresh_def)
  ultimately show "(st' (n, k) = Some r) = (\<exists>row \<in> insert row R. row_entry h row n = Some (k, r))"
    using assms(3) [OF n e, of k] e by auto
next
  fix a b n k r r' assume "a \<in> insert row R" "b \<in> insert row R" "row_entry h a n = Some (k, r)" "row_entry h b n = Some (k, r')"
  then show "a = b" using assms(1,2) unfolding indexed_def row_fresh_def by blast
qed

lemma indexed_distinct:
  "indexed h R st \<Longrightarrow> a \<in> R \<Longrightarrow> b \<in> R \<Longrightarrow> row_entry h a n = Some (k, r) \<Longrightarrow> row_entry h b n = Some (k, r') \<Longrightarrow> a = b"
  unfolding indexed_def by metis

lemma indexed_remove:
  assumes "indexed h R st" "row \<in> R"
    and "\<And>n k' r k. n \<in> set (index_names h) \<Longrightarrow> row_entry h row n = Some (k', r) \<Longrightarrow>
      st' (n, k) = (if k = k' then None else st (n, k))"
    and "\<And>n. n \<in> set (index_names h) \<Longrightarrow> row_entry h row n \<noteq> None"
  shows "indexed h (R - {row}) st'"
  unfolding indexed_def
proof (intro conjI ballI allI impI)
  fix n k r assume n: "n \<in> set (index_names h)"
  obtain k' r' where e: "row_entry h row n = Some (k', r')" using assms(4) [OF n] by auto
  have st: "st (n, k) = Some r \<longleftrightarrow> (\<exists>row \<in> R. row_entry h row n = Some (k, r))" using assms(1) n by (simp add: indexed_def)
  have one: "a = row" if "a \<in> R" "row_entry h a n = Some (k', r)" for a
    using indexed_distinct [OF assms(1) that(1) assms(2) that(2)] e by simp
  show "(st' (n, k) = Some r) = (\<exists>row \<in> R - {row}. row_entry h row n = Some (k, r))"
  proof (cases "k = k'")
    case True
    then show ?thesis using assms(3) [OF n e, of k] one by auto
  next
    case False
    then have "row_entry h row n \<noteq> Some (k, r)" using e by simp
    then show ?thesis using assms(3) [OF n e, of k] False st by auto
  qed
next
  fix a b n k r r' assume "a \<in> R - {row}" "b \<in> R - {row}" "row_entry h a n = Some (k, r)" "row_entry h b n = Some (k, r')"
  then have "a \<in> R" "b \<in> R" "row_entry h a n = Some (k, r)" "row_entry h b n = Some (k, r')" by simp_all
  then show "a = b" using indexed_distinct [OF assms(1)] by metis
qed

lemma indexed_absent:
  "indexed h R st \<Longrightarrow> n \<in> set (index_names h) \<Longrightarrow> st (n, k) = None \<Longrightarrow> row' \<in> R \<Longrightarrow> row_entry h row' n \<noteq> Some (k, r')"
  unfolding indexed_def by (metis option.distinct(1))

lemma indexed_present:
  assumes "indexed h R st" "n \<in> set (index_names h)" "st (n, k) \<noteq> None"
  obtains row' r' where "row' \<in> R" "row_entry h row' n = Some (k, r')"
  using assms unfolding indexed_def by (metis option.exhaust)

lemma pk_name_in [simp]: "rh_pk_name h \<in> set (index_names h)"
  by (simp add: index_names_def)

lemma secondary_name_in: "(i, d) \<in> set (secondary_indexes h) \<Longrightarrow> ix_name d \<in> set (index_names h)"
  by (force simp: index_names_def)

lemma row_fresh_secondary:
  assumes "distinct (index_names h)" "good_row h row" "\<forall>row' \<in> R. good_row h row'"
    and pk: "\<And>row'. row' \<in> R \<Longrightarrow> row_key row' \<noteq> row_key row"
    and uniq: "\<And>i d k r row' r'. (i, d) \<in> set (secondary_indexes h) \<Longrightarrow> ix_nosame d \<Longrightarrow> entry_in h row d = Some (k, r) \<Longrightarrow>
      row' \<in> R \<Longrightarrow> row_entry h row' (ix_name d) \<noteq> Some (k, r')"
  shows "row_fresh h row R"
  unfolding row_fresh_def
proof (intro ballI allI impI)
  fix row' n k r r' assume row': "row' \<in> R" and e: "row_entry h row n = Some (k, r)"
  from e show "row_entry h row' n \<noteq> Some (k, r')"
  proof (cases rule: row_entry_cases)
    case 1
    then show ?thesis using pk [OF row'] by (cases "snd row'"; cases "snd row") auto
  next
    case (2 i d)
    then show ?thesis using uniq [OF 2(1) _ 2(3) row'] entry_key_pk [OF assms(2) _ 2(1) _ 2(3)] pk [OF row']
        row_entry_secondary [OF assms(1) 2(1)] assms(3) row' by metis
  qed
qed

text \<open>The insert does not look for the primary key when it may rely on a new one.\<close>

definition pk_check_skipped :: "row_handler \<Rightarrow> bool" where
  "pk_check_skipped h \<longleftrightarrow> \<not> rh_insert_semantic h \<or> has_hidden_pk h \<or>
     (rh_primary_key h = rh_next_number_index h \<and> rh_insert_id h \<noteq> 0)"

definition same_key :: "row_handler \<Rightarrow> table_row \<Rightarrow> table_row \<Rightarrow> bool" where
  "same_key h row row' \<longleftrightarrow> (\<exists>n k r r'. row_entry h row n = Some (k, r) \<and> row_entry h row' n = Some (k, r'))"

lemma same_key_pk: "row_key row = row_key row' \<Longrightarrow> same_key h row row'"
  unfolding same_key_def by (rule exI [of _ "rh_pk_name h"]) (simp add: prod_eq_iff)

lemma row_fresh_same_key: "row_fresh h row R \<Longrightarrow> row' \<in> R \<Longrightarrow> \<not> same_key h row row'"
  unfolding row_fresh_def same_key_def by blast

text \<open>The keys of a row do not depend on its record in the primary index.\<close>

lemma same_key_record:
  assumes "same_key h (rb, key, rec) row"
  shows "same_key h (rb, key, rec') row"
proof -
  obtain n k r r' where e: "row_entry h (rb, key, rec) n = Some (k, r)" "row_entry h row n = Some (k, r')"
    using assms unfolding same_key_def by blast
  have "row_entry h (rb, key, rec') n = (if n = rh_pk_name h then Some (key, rec') else row_entry h (rb, key, rec) n)"
    by (simp add: row_entry_def entry_in_def split: option.split)
  then have "\<exists>r. row_entry h (rb, key, rec') n = Some (k, r)" using e(1) by (cases "n = rh_pk_name h") simp_all
  then show ?thesis using e(2) unfolding same_key_def by blast
qed

lemma key_taken_same_key:
  assumes "distinct (index_names h)" "indexed h R st" "key_taken h row (secondary_indexes h) st"
  shows "\<exists>row' \<in> R. same_key h row row'"
proof -
  obtain i d k r where d: "(i, d) \<in> set (secondary_indexes h)" "entry_in h row d = Some (k, r)" "st (ix_name d, k) \<noteq> None"
    using assms(3) unfolding key_taken_def by blast
  obtain row' r' where "row' \<in> R" "row_entry h row' (ix_name d) = Some (k, r')"
    using indexed_present [OF assms(2) secondary_name_in [OF d(1)] d(3)] .
  then show ?thesis using d(2) row_entry_secondary [OF assms(1) d(1), of row] unfolding same_key_def by metis
qed

definition inserted :: "index_store \<Rightarrow> row_handler \<Rightarrow> table_row \<Rightarrow> table_row set \<Rightarrow> op_result \<Rightarrow> bool" where
  "inserted base h row R res \<longleftrightarrow>
     (or_rc res = 0 \<longrightarrow> indexed h (insert row R) (store_of base (or_log res)) \<and> row_fresh h row R) \<and>
     (or_rc res = HA_ERR_FOUND_DUPP_KEY \<longrightarrow> (\<exists>row' \<in> R. same_key h row row'))"

lemma inserted_error: "rc \<noteq> 0 \<Longrightarrow> rc \<noteq> HA_ERR_FOUND_DUPP_KEY \<Longrightarrow> inserted base h row R (op_error rc l)"
  by (simp add: inserted_def op_error_def)

lemma insert_pass:
  assumes names: "distinct (index_names h)" and good: "good_row h row" "\<forall>row \<in> R. good_row h row"
    and R: "indexed h R st" and pk: "\<And>row'. row' \<in> R \<Longrightarrow> row_key row' \<noteq> row_key row"
    and x: "insert_outcome base h row (secondary_indexes h) st (Inr l)"
  shows "inserted base h row R (op_ok (l @ [TxUpsert (rh_pk_name h) (row_key row) (Some (snd (snd row))) Op_Insert]))"
proof -
  let ?ds = "secondary_indexes h"
  have st: "store_of base l = put_entries (entries_of h row ?ds) st" "unique_free h row ?ds st"
    using x by (simp_all add: insert_outcome_def)
  have fresh: "row_fresh h row R"
  proof (rule row_fresh_secondary [OF names good pk])
    fix i d k r row' r'
    assume d: "(i, d) \<in> set ?ds" "ix_nosame d" "entry_in h row d = Some (k, r)" "row' \<in> R"
    then have "st (ix_name d, k) = None" using st(2) unfolding unique_free_def by blast
    then show "row_entry h row' (ix_name d) \<noteq> Some (k, r')" using indexed_absent [OF R secondary_name_in [OF d(1)] _ d(4)] by blast
  qed
  then have "indexed h (insert row R) ((put_entries (entries_of h row ?ds) st)((rh_pk_name h, row_key row) := Some (snd (snd row))))"
    by (rule indexed_insert [OF R]) (auto simp only: put_row(1) [OF names] option.distinct elim: good_row_named [OF names good(1)])
  then show ?thesis using fresh by (simp add: inserted_def op_ok_def st(1) HA_ERR_FOUND_DUPP_KEY_def)
qed

lemma insert_after_check:
  assumes names: "distinct (index_names h)" and good: "good_row h row" "\<forall>row \<in> R. good_row h row"
    and R: "indexed h R st" and pk: "\<And>row'. row' \<in> R \<Longrightarrow> row_key row' \<noteq> row_key row"
    and x: "insert_outcome base h row (secondary_indexes h) st x"
  shows "\<exists>res. (case x of Inl res \<Rightarrow> Some res
      | Inr l' \<Rightarrow> (case sv_upsert sv l' (rh_pk_name h) (row_key row) of
           NO_ERROR \<Rightarrow> Some (op_ok (l' @ [TxUpsert (rh_pk_name h) (row_key row) (Some (snd (snd row))) Op_Insert]))
         | _ \<Rightarrow> Some (op_error HA_ERR_OUT_OF_MEM l'))) = Some res \<and> inserted base h row R res"
proof (cases x)
  case (Inl res)
  then show ?thesis using x key_taken_same_key [OF names R] by (auto simp: insert_outcome_def inserted_def)
next
  case (Inr l')
  then show ?thesis
    using insert_pass [OF names good R pk, of base l'] x inserted_error [of HA_ERR_OUT_OF_MEM base h row R l']
    by (cases "sv_upsert sv l' (rh_pk_name h) (row_key row)") (auto simp: HA_ERR_OUT_OF_MEM_def HA_ERR_FOUND_DUPP_KEY_def)
qed

lemma insert_indexes_up:
  "service_up sv \<Longrightarrow> insert_indexes sv h rb hid ds l = Some (Inl res) \<Longrightarrow> or_rc res = HA_ERR_FOUND_DUPP_KEY"
proof (induction sv h rb hid ds l rule: insert_indexes.induct)
  case (2 sv h rb hid kid d ds l)
  obtain k r where e: "sk_entry h (ix_def d) (ix_nosame d) rb hid = Some (k, r)"
    using "2.prems"(2) by (auto split: option.splits)
  show ?case
    by (rule service_upE [OF "2.prems"(1), of l "ix_name d" k])
      (use "2.prems" "2.IH" e in \<open>auto simp: op_duplicate_def split: if_splits bool.splits\<close>)
qed simp

lemma row_Insert_up:
  assumes up: "service_up sv" and ins: "row_Insert sv h record key rec l = Some res"
  shows "or_rc res = 0 \<or> or_rc res = HA_ERR_FOUND_DUPP_KEY"
proof -
  define status where "status = (if pk_check_skipped h then Inr False else sv_read sv l (rh_pk_name h) key)"
  note eq = ins [unfolded row_Insert_def, folded pk_check_skipped_def, folded status_def, unfolded Let_def]
  have "\<exists>b. status = Inr b" using up unfolding status_def service_up_def by (cases "pk_check_skipped h") auto
  then obtain b where b: "status = Inr b" by blast
  have ups: "sv_upsert sv l' n k = NO_ERROR" for l' n k using up by (simp add: service_up_def)
  show ?thesis
  proof (cases b)
    case True
    then show ?thesis using eq b by (auto simp: op_duplicate_def)
  next
    case False
    then obtain x where x: "insert_indexes sv h record (hidden_pk_of h key) (secondary_indexes h) l = Some x"
      using eq b by (cases "insert_indexes sv h record (hidden_pk_of h key) (secondary_indexes h) l") simp_all
    show ?thesis
    proof (cases x)
      case (Inl r)
      then show ?thesis using eq b False insert_indexes_up [OF up x [unfolded Inl]] x by simp
    next
      case (Inr l')
      then show ?thesis using eq b False ups x by (simp add: op_ok_def) (metis op_result.select_convs(1))
    qed
  qed
qed

lemma row_Insert_correct:
  assumes names: "distinct (index_names h)" and sv: "reads_own_writes sv base"
    and good: "good_row h (record, key, rec)" "\<forall>row \<in> R. good_row h row"
    and R: "indexed h R (store_of base l)"
    and new: "pk_check_skipped h \<Longrightarrow> key \<notin> row_key ` R"
  shows "\<exists>res. row_Insert sv h record key rec l = Some res \<and> inserted base h (record, key, rec) R res"
proof -
  let ?row = "(record, key, rec)" and ?ds = "secondary_indexes h"
  define status where "status = (if pk_check_skipped h then Inr False else sv_read sv l (rh_pk_name h) key)"
  note ins = row_Insert_def [of sv h "record" key rec l, folded pk_check_skipped_def, folded status_def]
  obtain x where x: "insert_indexes sv h record (hidden_pk_of h key) ?ds l = Some x" "insert_outcome base h ?row ?ds (store_of base l) x"
    using insert_indexes_effect [OF sv good(1), of ?ds l] names by (auto simp: index_names_def)
  show ?thesis
  proof (cases status)
    case (Inl e)
    then have "e \<noteq> NO_ERROR" using read_failed [OF sv] by (auto simp: status_def split: if_splits)
    then show ?thesis using ins Inl inserted_error [OF _ convert_tx_error_codes(2)] by (simp add: Let_def convert_tx_error_codes(1))
  next
    case (Inr b)
    have pk: "row_key row' \<noteq> row_key ?row" if "\<not> b" "row' \<in> R" for row'
    proof (cases "pk_check_skipped h")
      case True
      then show ?thesis using new that by auto
    next
      case False
      then have "store_of base l (rh_pk_name h, key) = None" using read_found [OF sv, of l "rh_pk_name h" key b] Inr that by (auto simp: status_def)
      then show ?thesis using indexed_absent [OF R pk_name_in _ that(2)] by (cases "snd row'") auto
    qed
    show ?thesis
    proof (cases b)
      case True
      then have "store_of base l (rh_pk_name h, key) \<noteq> None" using read_found [OF sv, of l "rh_pk_name h" key b] Inr by (auto simp: status_def split: if_splits)
      then obtain row' r' where "row' \<in> R" "row_entry h row' (rh_pk_name h) = Some (key, r')"
        using indexed_present [OF R pk_name_in] by blast
      then have "\<exists>row' \<in> R. same_key h ?row row'" using same_key_pk [of ?row row' h] by auto
      then show ?thesis using ins Inr True by (simp add: Let_def inserted_def op_duplicate_def HA_ERR_FOUND_DUPP_KEY_def)
    next
      case False
      have "row_Insert sv h record key rec l = (case x of Inl res \<Rightarrow> Some res
          | Inr l' \<Rightarrow> (case sv_upsert sv l' (rh_pk_name h) key of
               NO_ERROR \<Rightarrow> Some (op_ok (l' @ [TxUpsert (rh_pk_name h) key (Some rec) Op_Insert]))
             | _ \<Rightarrow> Some (op_error HA_ERR_OUT_OF_MEM l')))"
        using ins Inr False x(1) by (cases x) (simp_all add: Let_def)
      then show ?thesis using insert_after_check [OF names good R pk [OF False] x(2), of sv] by (simp only: fst_conv snd_conv)
    qed
  qed
qed

text \<open>
  C3. Inserting a row keeps all indexes of the table in step: when the indexes hold
  exactly the entries of the rows, \<open>Insert\<close> returns; when it succeeds they hold
  exactly the entries of the old rows and the new one, with no key shared in any
  index. When the service answers every request, it succeeds unless a row of the
  table has the key of the new row in the primary or in some secondary index, and
  then it reports a duplicate key. Where the check of the primary key is skipped the
  key has to be new.
\<close>

theorem insert_keeps_indexes:
  assumes names: "distinct (index_names h)" and sv: "reads_own_writes sv base"
    and good: "good_row h (record, key, rec)" "\<forall>row \<in> R. good_row h row"
    and R: "indexed h R (store_of base l)"
    and new: "pk_check_skipped h \<Longrightarrow> key \<notin> row_key ` R"
  shows "\<exists>res. row_Insert sv h record key rec l = Some res \<and>
    (or_rc res = 0 \<longrightarrow> indexed h (insert (record, key, rec) R) (store_of base (or_log res))) \<and>
    (service_up sv \<longrightarrow> or_rc res = (if \<exists>row \<in> R. same_key h (record, key, rec) row then HA_ERR_FOUND_DUPP_KEY else 0))"
proof -
  obtain res where res: "row_Insert sv h record key rec l = Some res" "inserted base h (record, key, rec) R res"
    using row_Insert_correct [OF assms] by blast
  define taken where "taken \<longleftrightarrow> (\<exists>row \<in> R. same_key h (record, key, rec) row)"
  have ins: "or_rc res = 0 \<Longrightarrow> indexed h (insert (record, key, rec) R) (store_of base (or_log res))"
    and codes: "or_rc res = 0 \<Longrightarrow> \<not> taken" "or_rc res = HA_ERR_FOUND_DUPP_KEY \<Longrightarrow> taken"
    using res(2) by (auto simp: inserted_def taken_def row_fresh_same_key)
  have "or_rc res = (if taken then HA_ERR_FOUND_DUPP_KEY else 0)" if "service_up sv"
    using row_Insert_up [OF that res(1)] codes by (elim disjE) simp_all
  then show ?thesis unfolding taken_def [symmetric] using res(1) ins by (intro exI [of _ res] conjI impI)
qed

text \<open>Deleting a row removes its entry from every index.\<close>

lemma delete_indexes_effect:
  assumes "good_row h row" "set ds \<subseteq> set (secondary_indexes h)"
  shows "\<exists>x. delete_indexes sv h (fst row) (hidden_pk_of h (row_key row)) ds l = Some x \<and>
    (case x of Inr l' \<Rightarrow> store_of base l' = put_entries (removals_of h row ds) (store_of base l)
     | Inl res \<Rightarrow> or_rc res = HA_ERR_OUT_OF_MEM \<and> \<not> service_up sv)"
  using assms(2)
proof (induction ds arbitrary: l)
  case (Cons e ds)
  obtain i d where e: "e = (i, d)" "(i, d) \<in> set (secondary_indexes h)" using Cons.prems by (cases e) auto
  obtain k r where k: "entry_in h row d = Some (k, r)"
    "eloq_key_of_record (ix_def d) (rh_table h) (fst row) (hidden_pk_of h (row_key row)) (ix_nosame d) = Some (PackedKey k)"
    using good_row_entry [OF assms(1) e(2)] by blast
  show ?case
  proof (cases "sv_upsert sv l (ix_name d) k = NO_ERROR")
    case True
    let ?l = "l @ [TxUpsert (ix_name d) k None Op_Delete]"
    have put: "put_entries (removals_of h row (e # ds)) (store_of base l) = put_entries (removals_of h row ds) (store_of base ?l)"
      by (simp add: removals_of_def put_entries_Cons e(1) k(1))
    have del: "delete_indexes sv h (fst row) (hidden_pk_of h (row_key row)) (e # ds) l =
        delete_indexes sv h (fst row) (hidden_pk_of h (row_key row)) ds ?l"
      using True e(1) k(2) by simp
    show ?thesis unfolding put del using Cons.IH Cons.prems by simp
  next
    case False
    then have "\<not> service_up sv" by (auto simp: service_up_def)
    then show ?thesis using False e(1) k(2) by (cases "sv_upsert sv l (ix_name d) k") (simp_all add: op_error_def)
  qed
qed (simp add: removals_of_def put_entries_def)

text \<open>
  C5. Deleting a row keeps all indexes of the table in step: when the indexes hold
  exactly the entries of the rows, \<open>Delete\<close> of one of them returns, and when it
  succeeds the indexes hold exactly the entries of the other rows. It fails only when
  the service does not take a request.
\<close>

theorem delete_keeps_indexes:
  assumes names: "distinct (index_names h)" and good: "good_row h (record, key, rec)"
    and R: "indexed h R (store_of base l)" "(record, key, rec) \<in> R"
  shows "\<exists>res. row_Delete sv h record key l = Some res \<and>
    (or_rc res = 0 \<longrightarrow> indexed h (R - {(record, key, rec)}) (store_of base (or_log res))) \<and>
    (or_rc res \<noteq> 0 \<longrightarrow> or_rc res = HA_ERR_OUT_OF_MEM \<and> \<not> service_up sv)"
proof -
  let ?row = "(record, key, rec)" and ?ds = "secondary_indexes h"
  obtain x where x: "delete_indexes sv h record (hidden_pk_of h key) ?ds l = Some x"
    "case x of Inr l' \<Rightarrow> store_of base l' = put_entries (removals_of h ?row ?ds) (store_of base l)
     | Inl res \<Rightarrow> or_rc res = HA_ERR_OUT_OF_MEM \<and> \<not> service_up sv"
    using delete_indexes_effect [OF good, of ?ds sv l base] by auto
  show ?thesis
  proof (cases x)
    case (Inl res)
    then show ?thesis using x by (simp add: row_Delete_def HA_ERR_OUT_OF_MEM_def)
  next
    case (Inr l')
    have "indexed h (R - {?row}) ((put_entries (removals_of h ?row ?ds) (store_of base l))((rh_pk_name h, row_key ?row) := None))"
      by (rule indexed_remove [OF R]) (auto simp only: put_row(2) [OF names] option.distinct elim: good_row_named [OF names good])
    moreover have "\<not> service_up sv" if "sv_upsert sv l' (rh_pk_name h) key \<noteq> NO_ERROR" using that by (auto simp: service_up_def)
    ultimately show ?thesis using x Inr
      by (cases "sv_upsert sv l' (rh_pk_name h) key") (simp_all add: row_Delete_def op_ok_def op_error_def HA_ERR_OUT_OF_MEM_def)
  qed
qed

text \<open>
  Updating a row moves its entry in the indexes whose key changes; the other indexes
  are left alone.
\<close>

definition entry_key :: "row_handler \<Rightarrow> table_row \<Rightarrow> index_desc \<Rightarrow> bytes" where
  "entry_key h row d = fst (the (entry_in h row d))"

definition moved_entry :: "row_handler \<Rightarrow> table_row \<Rightarrow> table_row \<Rightarrow> index_desc \<Rightarrow> index_store \<Rightarrow> bytes \<Rightarrow> eloq_record option" where
  "moved_entry h old new d st k =
     (if entry_key h new d = entry_key h old d then st (ix_name d, k)
      else if k = entry_key h old d then None
      else if k = entry_key h new d then Some (snd (the (entry_in h new d))) else st (ix_name d, k))"

definition moved_to_taken :: "row_handler \<Rightarrow> table_row \<Rightarrow> table_row \<Rightarrow> (nat \<times> index_desc) list \<Rightarrow> index_store \<Rightarrow> bool" where
  "moved_to_taken h old new ds st \<longleftrightarrow> (\<exists>(i, d) \<in> set ds. ix_nosame d \<and> entry_key h new d \<noteq> entry_key h old d \<and>
     st (ix_name d, entry_key h new d) \<noteq> None)"

definition update_outcome ::
  "index_store \<Rightarrow> row_handler \<Rightarrow> table_row \<Rightarrow> table_row \<Rightarrow> (nat \<times> index_desc) list \<Rightarrow> index_store \<Rightarrow>
   op_result + tx_request list \<Rightarrow> bool" where
  "update_outcome base h old new ds st x = (case x of
     Inr l' \<Rightarrow> (\<forall>n k. n \<notin> (ix_name \<circ> snd) ` set ds \<longrightarrow> store_of base l' (n, k) = st (n, k)) \<and>
       (\<forall>(i, d) \<in> set ds. \<forall>k. store_of base l' (ix_name d, k) = moved_entry h old new d st k) \<and> \<not> moved_to_taken h old new ds st
   | Inl res \<Rightarrow> or_rc res \<noteq> 0 \<and> (or_rc res = HA_ERR_FOUND_DUPP_KEY \<longrightarrow> moved_to_taken h old new ds st))"

lemma update_outcome_step:
  assumes x: "update_outcome base h old new ds st1 x"
    and st1: "\<And>n k. n \<noteq> ix_name d \<Longrightarrow> st1 (n, k) = st (n, k)" "\<And>k. st1 (ix_name d, k) = moved_entry h old new d st k"
    and other: "ix_name d \<notin> (ix_name \<circ> snd) ` set ds"
    and free: "ix_nosame d \<Longrightarrow> entry_key h new d \<noteq> entry_key h old d \<Longrightarrow> st (ix_name d, entry_key h new d) = None"
  shows "update_outcome base h old new ((i, d) # ds) st x"
proof -
  have ne: "ix_name d' \<noteq> ix_name d" if "(j, d') \<in> set ds" for j d' using that other by force
  have m: "moved_entry h old new d' st1 k = moved_entry h old new d' st k" if "(j, d') \<in> set ds" for j d' k
    using st1(1) [OF ne [OF that]] by (simp add: moved_entry_def)
  have "moved_to_taken h old new ds st1 = moved_to_taken h old new ds st"
    unfolding moved_to_taken_def using ne st1(1) by (intro bex_cong) auto
  then have t: "moved_to_taken h old new ((i, d) # ds) st = moved_to_taken h old new ds st1"
    using free by (auto simp: moved_to_taken_def)
  show ?thesis
  proof (cases x)
    case (Inl res)
    then show ?thesis using x t by (simp add: update_outcome_def)
  next
    case (Inr l')
    have eq: "store_of base l' (n, k) = st1 (n, k)" if "n \<notin> (ix_name \<circ> snd) ` set ds" for n k
      using x that Inr by (simp add: update_outcome_def)
    have mv: "store_of base l' (ix_name d', k) = moved_entry h old new d' st k" if "(j, d') \<in> set ds" for j d' k
      using x that Inr m [OF that] by (auto simp: update_outcome_def)
    have nt: "\<not> moved_to_taken h old new ((i, d) # ds) st" using x Inr t by (simp add: update_outcome_def)
    show ?thesis unfolding update_outcome_def Inr sum.case
    proof (intro conjI allI impI ballI)
      fix n k assume "n \<notin> (ix_name \<circ> snd) ` set ((i, d) # ds)"
      then show "store_of base l' (n, k) = st (n, k)" using eq st1(1) by simp
    next
      fix p assume p: "p \<in> set ((i, d) # ds)"
      show "case p of (i, d) \<Rightarrow> \<forall>k. store_of base l' (ix_name d, k) = moved_entry h old new d st k"
      proof (cases "p = (i, d)")
        case True
        then show ?thesis using eq [OF other] st1(2) by simp
      next
        case False
        then show ?thesis using p mv by (cases p) auto
      qed
    next
      show "\<not> moved_to_taken h old new ((i, d) # ds) st" by (rule nt)
    qed
  qed
qed

lemma update_indexes_moved:
  fixes l d k r k'
  defines "l1 \<equiv> l @ [TxUpsert (ix_name d) k (Some r) Op_Insert]"
  defines "l2 \<equiv> l1 @ [TxUpsert (ix_name d) k' None Op_Delete]"
  assumes sv: "reads_own_writes sv base"
    and old: "entry_key h old d = k'" "sk_key h (ix_def d) (ix_nosame d) (fst old) hid = Some k'"
    and new: "entry_in h new d = Some (k, r)" "sk_entry h (ix_def d) (ix_nosame d) (fst new) hid = Some (k, r)"
    and neq: "k \<noteq> k'" and other: "ix_name d \<notin> (ix_name \<circ> snd) ` set ds"
    and x: "update_indexes sv h (fst new) (fst old) hid ds l2 = Some x" "update_outcome base h old new ds (store_of base l2) x"
  shows "\<exists>x. update_indexes sv h (fst new) (fst old) hid ((i, d) # ds) l = Some x \<and>
    update_outcome base h old new ((i, d) # ds) (store_of base l) x"
proof -
  let ?upd = "update_indexes sv h (fst new) (fst old) hid" and ?out = "update_outcome base h old new ((i, d) # ds)"
  have keys: "entry_key h old d = k'" "entry_key h new d = k" using old(1) new(1) by (simp_all add: entry_key_def)
  have st2: "store_of base l2 = (store_of base l)((ix_name d, k) := Some r, (ix_name d, k') := None)"
    by (simp only: l1_def l2_def store_of_snoc apply_request.simps)
  have step: "?out (store_of base l) x" if "ix_nosame d \<Longrightarrow> store_of base l (ix_name d, k) = None"
    by (rule update_outcome_step [OF x(2) [unfolded st2] _ _ other]) (use that neq in \<open>simp_all add: moved_entry_def keys new(1)\<close>)
  have err: "?out st (Inl (op_error HA_ERR_OUT_OF_MEM l'))" for l' st
    by (simp add: update_outcome_def op_error_def HA_ERR_OUT_OF_MEM_def HA_ERR_FOUND_DUPP_KEY_def)
  let ?wr = "case sv_upsert sv l (ix_name d) k of
      NO_ERROR \<Rightarrow> (case sv_upsert sv l1 (ix_name d) k' of NO_ERROR \<Rightarrow> ?upd ds l2 | _ \<Rightarrow> Some (Inl (op_error HA_ERR_OUT_OF_MEM l1)))
    | _ \<Rightarrow> Some (Inl (op_error HA_ERR_OUT_OF_MEM l))"
  have upd: "?upd ((i, d) # ds) l = (if ix_nosame d then (case sv_read sv l (ix_name d) k of
        Inl c \<Rightarrow> Some (Inl (op_error (convert_tx_error c) l))
      | Inr b \<Rightarrow> if b then Some (Inl (op_duplicate i l)) else ?wr) else ?wr)"
    using old(2) new(2) neq unfolding l1_def l2_def by (simp add: Let_def split: sum.split bool.split)
  have wr: "\<exists>x. ?wr = Some x \<and> ?out (store_of base l) x" if "ix_nosame d \<Longrightarrow> store_of base l (ix_name d, k) = None"
    using step [OF that] err x(1) by (auto split: tx_error_code.split)
  show ?thesis
  proof (cases "ix_nosame d \<and> sv_read sv l (ix_name d) k \<noteq> Inr False")
    case False
    then have "ix_nosame d \<Longrightarrow> store_of base l (ix_name d, k) = None" using read_found [OF sv, of l "ix_name d" k False] by simp
    then show ?thesis unfolding upd using wr False by (cases "ix_nosame d") simp_all
  next
    case True
    then consider c where "sv_read sv l (ix_name d) k = Inl c" | "sv_read sv l (ix_name d) k = Inr True"
      by (cases "sv_read sv l (ix_name d) k") auto
    then show ?thesis unfolding upd
      using True keys neq read_failed [OF sv, of l "ix_name d" k] read_found [OF sv, of l "ix_name d" k True]
      by cases (simp_all add: update_outcome_def op_error_def op_duplicate_def convert_tx_error_codes moved_to_taken_def
          convert_tx_error_codes(2) [unfolded HA_ERR_FOUND_DUPP_KEY_def] HA_ERR_FOUND_DUPP_KEY_def)
  qed
qed

lemma update_indexes_effect:
  assumes sv: "reads_own_writes sv base" and good: "good_row h old" "good_row h new" "row_key old = row_key new"
    and "set ds \<subseteq> set (secondary_indexes h)" "distinct (map (ix_name \<circ> snd) ds)"
  shows "\<exists>x. update_indexes sv h (fst new) (fst old) (hidden_pk_of h (row_key new)) ds l = Some x \<and>
    update_outcome base h old new ds (store_of base l) x"
  using assms(5,6)
proof (induction ds arbitrary: l)
  case (Cons e ds)
  let ?hid = "hidden_pk_of h (row_key new)"
  let ?upd = "update_indexes sv h (fst new) (fst old) ?hid"
  obtain i d where e: "e = (i, d)" "(i, d) \<in> set (secondary_indexes h)" using Cons.prems by (cases e) auto
  obtain k' r' where old: "entry_in h old d = Some (k', r')" "sk_key h (ix_def d) (ix_nosame d) (fst old) ?hid = Some k'"
    using good_row_entry [OF good(1) e(2)] good(3) by metis
  obtain k r where new: "entry_in h new d = Some (k, r)" using good_row_entry [OF good(2) e(2)] by blast
  then have sk: "sk_entry h (ix_def d) (ix_nosame d) (fst new) ?hid = Some (k, r)" by (simp add: entry_in_def)
  have other: "ix_name d \<notin> (ix_name \<circ> snd) ` set ds" using Cons.prems e(1) by force
  have keys: "entry_key h old d = k'" "entry_key h new d = k" using old(1) new by (simp_all add: entry_key_def)
  have ih: "\<exists>x. ?upd ds l1 = Some x \<and> update_outcome base h old new ds (store_of base l1) x" for l1
    using Cons.IH Cons.prems by simp
  show ?case
  proof (cases "k = k'")
    case True
    obtain x where x: "?upd ds l = Some x" "update_outcome base h old new ds (store_of base l) x" using ih by blast
    have "update_outcome base h old new (e # ds) (store_of base l) x"
      unfolding e(1) by (rule update_outcome_step [OF x(2) _ _ other]) (simp_all add: moved_entry_def keys True)
    then show ?thesis using old(2) sk x(1) True e(1) by simp
  next
    case False
    then show ?thesis using update_indexes_moved [OF sv keys(1) old(2) new sk False other] ih unfolding e(1) by blast
  qed
qed (simp add: update_outcome_def moved_to_taken_def)

lemma update_indexes_up:
  "service_up sv \<Longrightarrow> update_indexes sv h new old hid ds l = Some (Inl res) \<Longrightarrow> or_rc res = HA_ERR_FOUND_DUPP_KEY"
proof (induction sv h new old hid ds l rule: update_indexes.induct)
  case (2 sv h new old hid kid d ds l)
  obtain k' k r where e: "sk_key h (ix_def d) (ix_nosame d) old hid = Some k'" "sk_entry h (ix_def d) (ix_nosame d) new hid = Some (k, r)"
    using "2.prems"(2) by (auto split: option.splits)
  have ups: "sv_upsert sv l' n k = NO_ERROR" for l' n k using "2.prems"(1) by (simp add: service_up_def)
  obtain b where b: "sv_read sv l (ix_name d) k = Inr b" using "2.prems"(1) unfolding service_up_def by blast
  show ?case
  proof (cases "k = k'")
    case True
    then show ?thesis using "2.prems" "2.IH" e by simp
  next
    case False
    then show ?thesis using "2.prems" "2.IH" e ups b
      by (cases b; cases "ix_nosame d") (auto simp: Let_def op_duplicate_def)
  qed
qed simp

lemma indexed_replace:
  assumes R: "indexed h R st" "old \<in> R" and fresh: "row_fresh h new (R - {old})"
    and at: "\<And>n k' r' k r kk. n \<in> set (index_names h) \<Longrightarrow> row_entry h old n = Some (k', r') \<Longrightarrow> row_entry h new n = Some (k, r) \<Longrightarrow>
      st' (n, kk) = (if kk = k then Some r else if kk = k' then None else st (n, kk))"
    and named: "\<And>n. n \<in> set (index_names h) \<Longrightarrow> row_entry h old n \<noteq> None \<and> row_entry h new n \<noteq> None"
  shows "indexed h (insert new (R - {old})) st'"
proof -
  define mid where "mid = (\<lambda>(n, k). if \<exists>r. row_entry h old n = Some (k, r) then None else st (n, k))"
  have "indexed h (R - {old}) mid"
    by (rule indexed_remove [OF R]) (use named in \<open>auto simp: mid_def\<close>)
  then show ?thesis
  proof (rule indexed_insert [OF _ fresh])
    fix n k r kk assume n: "n \<in> set (index_names h)" and new: "row_entry h new n = Some (k, r)"
    obtain k' r' where "row_entry h old n = Some (k', r')" using named [OF n] by auto
    then show "st' (n, kk) = (if kk = k then Some r else mid (n, kk))" using at [OF n _ new, of k' r' kk] by (auto simp: mid_def)
  qed (use named in blast)
qed

lemma update_fresh:
  assumes names: "distinct (index_names h)" and good: "good_row h new" "\<forall>row \<in> R. good_row h row"
    and R: "indexed h R st" "old \<in> R" and pk: "row_key old = row_key new"
    and free: "\<not> moved_to_taken h old new (secondary_indexes h) st"
  shows "row_fresh h new (R - {old})"
proof (rule row_fresh_secondary [OF names good(1)])
  fix row' assume row': "row' \<in> R - {old}"
  then have "row_entry h row' (rh_pk_name h) = Some (row_key row', snd (snd row'))"
    "row_entry h old (rh_pk_name h) = Some (row_key old, snd (snd old))" by simp_all
  then show "row_key row' \<noteq> row_key new" using indexed_distinct [OF R(1) _ R(2)] pk row' by (metis DiffE singletonI)
next
  fix i d k r row' r'
  assume d: "(i, d) \<in> set (secondary_indexes h)" "ix_nosame d" "entry_in h new d = Some (k, r)" and row': "row' \<in> R - {old}"
  obtain k' r0 where old: "entry_in h old d = Some (k', r0)" using good_row_entry d(1) good(2) R(2) by metis
  then have e: "row_entry h old (ix_name d) = Some (k', r0)" using row_entry_secondary [OF names d(1)] by simp
  show "row_entry h row' (ix_name d) \<noteq> Some (k, r')"
  proof (cases "k = k'")
    case True
    then show ?thesis using indexed_distinct [OF R(1) _ R(2) _ e] row' by (metis DiffE singletonI)
  next
    case False
    then have "st (ix_name d, k) = None"
      using free d old unfolding moved_to_taken_def by (fastforce simp: entry_key_def)
    then show ?thesis using indexed_absent [OF R(1) secondary_name_in [OF d(1)]] row' by blast
  qed
qed (use good(2) in auto)

text \<open>The index entries of the row that may stay as they are when the key does not change.\<close>

definition entries_kept :: "row_handler \<Rightarrow> table_row \<Rightarrow> table_row \<Rightarrow> bool" where
  "entries_kept h old new \<longleftrightarrow>
     (\<forall>(i, d) \<in> set (secondary_indexes h). entry_key h new d = entry_key h old d \<longrightarrow> entry_in h new d = entry_in h old d)"

lemma update_pass:
  assumes names: "distinct (index_names h)" and good: "good_row h new" "\<forall>row \<in> R. good_row h row"
    and R: "indexed h R st" "old \<in> R" and pk: "row_key old = row_key new" and kept: "entries_kept h old new"
    and x: "update_outcome base h old new (secondary_indexes h) st (Inr l)"
  shows "indexed h (insert new (R - {old}))
    (store_of base (l @ [TxUpsert (rh_pk_name h) (row_key new) (Some (snd (snd new))) Op_Update]))"
proof (rule indexed_replace [OF R])
  show "row_fresh h new (R - {old})" using x by (intro update_fresh [OF names good R pk]) (simp add: update_outcome_def)
next
  fix n assume "n \<in> set (index_names h)"
  then show "row_entry h old n \<noteq> None \<and> row_entry h new n \<noteq> None"
    using good_row_named [OF names good(1)] good_row_named [OF names, of old] good(2) R(2) by (metis option.distinct(1))
next
  fix n k' r' k r kk
  assume n: "n \<in> set (index_names h)" and o: "row_entry h old n = Some (k', r')" and w: "row_entry h new n = Some (k, r)"
  have st: "st (n, k') = Some r'" using R n o unfolding indexed_def by blast
  have pk_other: "rh_pk_name h \<notin> (ix_name \<circ> snd) ` set (secondary_indexes h)" using names by (auto simp: index_names_def)
  from n show "store_of base (l @ [TxUpsert (rh_pk_name h) (row_key new) (Some (snd (snd new))) Op_Update]) (n, kk) =
      (if kk = k then Some r else if kk = k' then None else st (n, kk))"
  proof (cases rule: index_name_cases)
    case 1
    then have "snd new = (k, r)" "snd old = (k', r')" using w o by simp_all
    moreover have "store_of base l (n, kk) = st (n, kk)" using x pk_other 1 by (simp add: update_outcome_def)
    ultimately show ?thesis using pk 1 by auto
  next
    case (2 i d)
    have e: "entry_in h old d = Some (k', r')" "entry_in h new d = Some (k, r)"
      using o w 2 row_entry_secondary [OF names 2(1)] by simp_all
    have "store_of base l (n, kk) = moved_entry h old new d st kk" using x 2 by (auto simp: update_outcome_def)
    moreover have "n \<noteq> rh_pk_name h" using pk_other 2 by force
    moreover have "k = k' \<Longrightarrow> r = r'" using kept 2(1) e unfolding entries_kept_def by (fastforce simp: entry_key_def)
    ultimately show ?thesis using st e 2(2) by (auto simp: moved_entry_def entry_key_def)
  qed
qed

lemma moved_to_taken_same_key:
  assumes names: "distinct (index_names h)" and R: "indexed h R st" "old \<in> R" and good: "good_row h new" "good_row h old"
    and t: "moved_to_taken h old new (secondary_indexes h) st"
  shows "\<exists>row \<in> R - {old}. same_key h new row"
proof -
  obtain i d where d: "(i, d) \<in> set (secondary_indexes h)" "entry_key h new d \<noteq> entry_key h old d"
    "st (ix_name d, entry_key h new d) \<noteq> None" using t unfolding moved_to_taken_def by blast
  obtain row' r' where row': "row' \<in> R" "row_entry h row' (ix_name d) = Some (entry_key h new d, r')"
    using indexed_present [OF R(1) secondary_name_in [OF d(1)] d(3)] .
  obtain k r where "entry_in h new d = Some (k, r)" using good_row_entry [OF good(1) d(1)] by blast
  then have "row_entry h new (ix_name d) = Some (entry_key h new d, r)"
    using row_entry_secondary [OF names d(1)] by (simp add: entry_key_def)
  then have "same_key h new row'" using row'(2) unfolding same_key_def by blast
  moreover have "row' \<noteq> old" using row'(2) d(2) row_entry_secondary [OF names d(1), of old] by (auto simp: entry_key_def)
  ultimately show ?thesis using row'(1) by blast
qed

text \<open>
  C4. Updating a row keeps all indexes of the table in step: for a row of the table
  and a new version with the same primary key, \<open>Update\<close> returns; when it succeeds the
  indexes hold exactly the entries of the other rows and the new version. It reports a
  duplicate key only when another row has the key of the new version in some index,
  and when the service answers every request nothing else can happen. An index whose
  key does not change is left alone, so its entry has to be the same for both versions.
\<close>

theorem update_keeps_indexes:
  assumes names: "distinct (index_names h)" and sv: "reads_own_writes sv base"
    and good: "good_row h (new, key, rec)" "\<forall>row \<in> R. good_row h row"
    and R: "indexed h R (store_of base l)" "(old, key, rec') \<in> R"
    and kept: "entries_kept h (old, key, rec') (new, key, rec)"
  shows "\<exists>res. row_Update sv h new old key rec l = Some res \<and>
    (or_rc res = 0 \<longrightarrow> indexed h (insert (new, key, rec) (R - {(old, key, rec')})) (store_of base (or_log res))) \<and>
    (or_rc res = HA_ERR_FOUND_DUPP_KEY \<longrightarrow> (\<exists>row \<in> R - {(old, key, rec')}. same_key h (new, key, rec) row)) \<and>
    (service_up sv \<longrightarrow> or_rc res = 0 \<or> or_rc res = HA_ERR_FOUND_DUPP_KEY)"
proof -
  let ?new = "(new, key, rec)" and ?old = "(old, key, rec')" and ?ds = "secondary_indexes h"
  obtain x where x: "update_indexes sv h new old (hidden_pk_of h key) ?ds l = Some x"
    "update_outcome base h ?old ?new ?ds (store_of base l) x"
    using update_indexes_effect [OF sv, of h ?old ?new ?ds l] good R(2) names by (auto simp: index_names_def)
  show ?thesis
  proof (cases x)
    case (Inl res)
    have "\<exists>row \<in> R - {?old}. same_key h ?new row" if "or_rc res = HA_ERR_FOUND_DUPP_KEY"
      using moved_to_taken_same_key [OF names R good(1)] x(2) Inl that good(2) R(2) by (simp add: update_outcome_def)
    then show ?thesis using x Inl update_indexes_up [of sv] by (auto simp: row_Update_def update_outcome_def)
  next
    case (Inr l')
    have "indexed h (insert ?new (R - {?old})) (store_of base (l' @ [TxUpsert (rh_pk_name h) key (Some rec) Op_Update]))"
      using update_pass [OF names good R _ kept, of base l'] x(2) Inr by simp
    moreover have "\<not> service_up sv" if "sv_upsert sv l' (rh_pk_name h) key \<noteq> NO_ERROR" using that by (auto simp: service_up_def)
    ultimately show ?thesis using x(1) Inr
      by (cases "sv_upsert sv l' (rh_pk_name h) key")
        (simp_all add: row_Update_def op_ok_def op_error_def HA_ERR_OUT_OF_MEM_def HA_ERR_FOUND_DUPP_KEY_def)
  qed
qed

text \<open>
  C34. Changing the primary key of a row: \<open>update_row\<close> inserts the new version before
  it deletes the old one. When the table has a unique secondary index whose columns
  do not change, the old entry of the row itself is found there, and the update is
  refused with a duplicate key, although no other row need have that key.
\<close>

theorem update_pk_refused:
  assumes names: "distinct (index_names h)" and sv: "reads_own_writes sv base" "service_up sv"
    and good: "good_row h (new, new_key, rec)" "\<forall>row \<in> R. good_row h row"
    and R: "indexed h R (store_of base l)" "(old, old_key, rec') \<in> R"
    and keys: "\<not> has_hidden_pk h" "PackKeyRecord h new payload = Some (new_key, rec)"
      "eloq_key_of_record (rh_pk_def h) (rh_table h) old None False = Some (PackedKey old_key)" "new_key \<noteq> old_key"
    and skip: "pk_check_skipped h \<Longrightarrow> new_key \<notin> row_key ` R"
    and unique: "(i, d) \<in> set (secondary_indexes h)" "entry_key h (new, new_key, rec) d = entry_key h (old, old_key, rec') d"
  shows "\<exists>res. update_row sv h old new payload l = Some res \<and> or_rc res = HA_ERR_FOUND_DUPP_KEY"
proof -
  let ?new = "(new, new_key, rec)" and ?old = "(old, old_key, rec')"
  obtain res where res: "row_Insert sv h new new_key rec l = Some res" "inserted base h ?new R res"
    using row_Insert_correct [OF names sv(1) good R(1) skip] by blast
  obtain k r k' r' where "entry_in h ?new d = Some (k, r)" "entry_in h ?old d = Some (k', r')"
    using good_row_entry [OF good(1) unique(1)] good_row_entry [of h ?old, OF _ unique(1)] good(2) R(2) by metis
  then have "same_key h ?new ?old"
    using row_entry_secondary [OF names unique(1)] unique(2) unfolding same_key_def entry_key_def by (intro exI [of _ "ix_name d"]) simp
  then have "or_rc res \<noteq> 0" using res(2) R(2) row_fresh_same_key by (auto simp: inserted_def)
  then have "or_rc res = HA_ERR_FOUND_DUPP_KEY" using row_Insert_up [OF sv(2) res(1)] by simp
  then show ?thesis using keys res(1) by (simp add: update_row_def HA_ERR_FOUND_DUPP_KEY_def)
qed

section \<open>A sample table\<close>

text \<open>
  A service that keeps the requests, and the sample table with one secondary index,
  unique or not.
\<close>

definition sample_service :: "index_store \<Rightarrow> tx_service" where
  "sample_service base = \<lparr>sv_read = (\<lambda>l n k. Inr (store_of base l (n, k) \<noteq> None)), sv_upsert = (\<lambda>_ _ _. NO_ERROR)\<rparr>"

definition sample_index :: "bool \<Rightarrow> index_desc" where
  "sample_index nosame = \<lparr>ix_name = ''v'', ix_def = sample_sk, ix_nosame = nosame\<rparr>"

definition sample_handler :: "bool \<Rightarrow> row_handler" where
  "sample_handler nosame = \<lparr>rh_table = sample_table, rh_pk_name = ''t'', rh_pk_def = sample_pk,
     rh_keys = [\<lparr>ix_name = ''t'', ix_def = sample_pk, ix_nosame = True\<rparr>, sample_index nosame], rh_dirty = [],
     rh_insert_semantic = True, rh_next_number_index = MAX_INDEXES, rh_insert_id = 0, rh_last_read_key = []\<rparr>"

definition sample_pk_image :: "rec_buf \<Rightarrow> bytes" where
  "sample_pk_image record = concat (map2 enc_part [sample_parts ! 1] (key_row record [sample_parts ! 1]))"

lemma sample_service_ok [simp]: "reads_own_writes (sample_service base) base" "service_up (sample_service base)"
  by (simp_all add: reads_own_writes_def service_up_def sample_service_def)

lemma sample_secondary [simp]: "secondary_indexes (sample_handler nosame) = [(1, sample_index nosame)]"
  by (simp add: secondary_indexes_def sample_handler_def rh_primary_key_def sample_key_defs)

lemma sample_names [simp]: "distinct (index_names (sample_handler nosame))" "set (index_names (sample_handler nosame)) = {''t'', ''v''}"
  "rh_pk_name (sample_handler nosame) = ''t''"
  by (auto simp: index_names_def) (simp_all add: sample_handler_def sample_index_def)

lemma sample_visible [simp]: "\<not> has_hidden_pk (sample_handler nosame)" "hidden_pk_of (sample_handler nosame) key = None"
  "\<not> pk_check_skipped (sample_handler nosame)"
  by (simp_all add: has_hidden_pk_def hidden_pk_of_def pk_check_skipped_def rh_primary_key_def sample_handler_def
      sample_key_defs table_has_hidden_pk_def MAX_INDEXES_def)

lemma sample_fields [simp]: "ix_def (sample_index nosame) = sample_sk" "ix_nosame (sample_index nosame) = nosame"
  "ix_name (sample_index nosame) = ''v''" "rh_table (sample_handler nosame) = sample_table" "rh_pk_def (sample_handler nosame) = sample_pk"
  by (simp_all add: sample_index_def sample_handler_def)

lemma sample_pk_columns: "pk_columns sample_sk sample_parts [sample_parts ! 1]" "\<not> table_has_hidden_pk (tbl_s sample_table)"
  by (auto simp: pk_columns_def same_part_def sample_key_defs MAX_REF_PARTS_def table_has_hidden_pk_def MAX_INDEXES_def
      less_Suc_eq intro: exI [of _ 0])

lemma sample_row_bound:
  assumes "v = None \<or> v = Some [e, f, g, h]"
  shows "length (enc_row enc_part sample_parts (key_row (sample_record [a, b, c, d] v) sample_parts)) \<le> 9"
  using assms
  by (elim disjE) (simp_all add: enc_part_def part_image_def pack_part_def pack_with_make_sort_key_def sort_string_def
      sort_string_long_def key_row_def sample_key_defs)

lemma sample_good_row:
  assumes "v = None \<or> v = Some [e, f, g, h]"
  shows "good_row (sample_handler nosame) (sample_record [a, b, c, d] v, sample_pk_image (sample_record [a, b, c, d] v), rec)"
proof -
  let ?r = "sample_record [a, b, c, d] v"
  have "length (concat (key_images sample_table None sample_parts (key_row ?r sample_parts))) \<le> 9"
    using sample_row_bound [OF assms] by (simp add: concat_key_images hidden_tail_def)
  moreover have "row_ok sample_parts (key_row ?r sample_parts)" using assms by (intro sample_row_ok) auto
  moreover have "hidden_ok sample_table sample_sk None 2 (length sample_parts)" "m_key_parts sample_sk = 2" "m_maxlength sample_sk = 9"
    "m_unique_sk_only_key_parts sample_sk = 1" "length sample_parts = 2"
    using sample_hidden_ok [of True] sample_pk_columns(2) by (simp_all add: pack_n_key_parts_def sample_sk_def sample_parts_def)
  ultimately have "index_row (sample_handler nosame) (sample_index nosame) ?r (sample_pk_image ?r) sample_parts
      (map2 enc_part [sample_parts ! 1] (key_row ?r [sample_parts ! 1]))"
    using sample_parts_at pk_columns_inside [OF sample_pk_columns, of ?r] sample_pk_columns(2)
    by (simp add: index_row_def sample_index_def sample_handler_def sample_pk_image_def full_key_def size_noted_def
        hidden_pk_of_def has_hidden_pk_def)
  then show ?thesis by (auto simp: good_row_def)
qed

definition sample_row :: "byte \<Rightarrow> bytes option \<Rightarrow> table_row" where
  "sample_row x v = (sample_record [x, 0, 0, 0] v, sample_pk_image (sample_record [x, 0, 0, 0] v),
     \<lparr>encoded_blob = [x], unpack_info = []\<rparr>)"

lemma sample_row_good: "v = None \<or> v = Some [e, f, g, h] \<Longrightarrow> good_row (sample_handler nosame) (sample_row x v)"
  unfolding sample_row_def by (rule sample_good_row)

text \<open>The entry in the unique index depends on its column only.\<close>

lemma sample_unique_key:
  assumes "v = None \<or> v = Some [e, f, g, h]"
  shows "entry_key (sample_handler True) (sample_row x v) (sample_index True) =
    enc_row enc_part [hd sample_parts] [(if v = None then (example_cell [0, 0, 0, 0])\<lparr>c_null := True\<rparr> else example_cell (the v))]"
proof -
  let ?r = "sample_record [x, 0, 0, 0] v"
  have ok: "row_ok sample_parts (key_row ?r sample_parts)" using assms by (intro sample_row_ok) auto
  have u: "size_noted sample_table sample_sk None sample_parts" "m_unique_sk_only_key_parts sample_sk = 1" "m_maxlength sample_sk = 9"
    by (simp_all add: size_noted_def sample_key_defs)
  have len: "length (enc_row enc_part sample_parts (key_row ?r sample_parts) @ hidden_tail sample_table None) \<le> m_maxlength sample_sk"
    using sample_row_bound [OF assms, of x 0 0 0] u(3) by (simp add: hidden_tail_def)
  obtain k r where k: "entry_in (sample_handler True) (sample_row x v) (sample_index True) = Some (k, r)"
    "eloq_key_of_record sample_sk sample_table ?r None True = Some (PackedKey k)"
    by (rule good_row_entry [OF sample_row_good [OF assms], of 1 "sample_index True" True x]) (simp_all add: sample_row_def)
  have "k = enc_row enc_part (take 1 sample_parts) (key_row ?r (take 1 sample_parts))"
    using key_of_unique_record [OF sample_parts_at ok sample_hidden_ok u(1) len] k(2) u(2) by simp
  then show ?thesis using k(1) assms
    by (auto simp: entry_key_def sample_parts_def key_row_def sample_record_def sample_column_def example_field_def)
qed

text \<open>The requests of inserting the first row.\<close>

definition sample_log :: "bool \<Rightarrow> byte \<Rightarrow> bytes option \<Rightarrow> tx_request list" where
  "sample_log nosame x v = (case sample_row x v of (record, key, rec) \<Rightarrow>
     or_log (the (row_Insert (sample_service (\<lambda>_. None)) (sample_handler nosame) record key rec [])))"

lemma indexed_none: "indexed h {} (store_of (\<lambda>_. None) [])"
  by (simp add: indexed_def store_of_def)

lemma sample_indexed:
  assumes "v = None \<or> v = Some [e, f, g, h]"
  shows "indexed (sample_handler nosame) {sample_row x v} (store_of (\<lambda>_. None) (sample_log nosame x v))"
proof -
  let ?sv = "sample_service (\<lambda>_. None)" and ?h = "sample_handler nosame"
  obtain rb key rec where row: "sample_row x v = (rb, key, rec)" by (cases "sample_row x v") auto
  obtain res where res: "row_Insert ?sv ?h rb key rec [] = Some res" "inserted (\<lambda>_. None) ?h (rb, key, rec) {} res"
    using row_Insert_correct [of ?h ?sv "\<lambda>_. None" rb key rec "{}" "[]"] sample_row_good [OF assms, of nosame x] indexed_none
    by (auto simp: row)
  have "or_rc res \<noteq> HA_ERR_FOUND_DUPP_KEY" using res(2) by (simp add: inserted_def)
  then have "or_rc res = 0" using row_Insert_up [OF sample_service_ok(2) res(1)] by simp
  then show ?thesis using res by (simp add: inserted_def sample_log_def row)
qed

lemma sample_same_key:
  assumes "v = None \<or> v = Some [e, f, g, h]"
  shows "same_key (sample_handler True) (sample_row x v) (sample_row y v)"
proof -
  let ?h = "sample_handler True" and ?d = "sample_index True"
  have e: "row_entry ?h row ''v'' = entry_in ?h row ?d" for row
    using row_entry_secondary [of ?h 1 ?d row] by simp
  have "\<exists>r. entry_in ?h (sample_row z v) ?d = Some (entry_key ?h (sample_row z v) ?d, r)" for z
    by (rule good_row_entry [OF sample_row_good [OF assms], of 1 ?d True z]) (simp_all add: entry_key_def)
  then obtain r r' where "row_entry ?h (sample_row x v) ''v'' = Some (entry_key ?h (sample_row x v) ?d, r)"
    "row_entry ?h (sample_row y v) ''v'' = Some (entry_key ?h (sample_row y v) ?d, r')" unfolding e by metis
  then show ?thesis unfolding same_key_def sample_unique_key [OF assms] by blast
qed

text \<open>The first row goes in, and a second one with the same value in the unique column does not.\<close>

theorem insert_keeps_indexes_witness:
  "(case sample_row 7 (Some [5, 0, 0, 0]) of (record, key, rec) \<Rightarrow>
      \<exists>res. row_Insert (sample_service (\<lambda>_. None)) (sample_handler True) record key rec [] = Some res \<and> or_rc res = 0 \<and>
        indexed (sample_handler True) {sample_row 7 (Some [5, 0, 0, 0])} (store_of (\<lambda>_. None) (or_log res))) \<and>
   (case sample_row 3 (Some [5, 0, 0, 0]) of (record, key, rec) \<Rightarrow>
      \<exists>res. row_Insert (sample_service (\<lambda>_. None)) (sample_handler True) record key rec (sample_log True 7 (Some [5, 0, 0, 0])) = Some res \<and>
        or_rc res = HA_ERR_FOUND_DUPP_KEY)"
proof -
  let ?v = "Some [5, 0, 0, 0] :: bytes option" and ?h = "sample_handler True" and ?sv = "sample_service (\<lambda>_. None)"
  have v: "?v = None \<or> ?v = Some [5, 0, 0, 0]" by simp
  obtain a ka ra b kb rb where rows: "sample_row 7 ?v = (a, ka, ra)" "sample_row 3 ?v = (b, kb, rb)"
    by (cases "sample_row 7 ?v"; cases "sample_row 3 ?v") auto
  have good: "good_row ?h (a, ka, ra)" "good_row ?h (b, kb, rb)" using sample_row_good [OF v, of True] rows by metis+
  have same: "same_key ?h (b, kb, rb) (a, ka, ra)" using sample_same_key [OF v, of 3 7] rows by simp
  have "\<exists>res. row_Insert ?sv ?h a ka ra [] = Some res \<and> or_rc res = 0 \<and> indexed ?h {(a, ka, ra)} (store_of (\<lambda>_. None) (or_log res))"
    using insert_keeps_indexes [where R = "{}" and l = "[]", OF sample_names(1) sample_service_ok(1) good(1), of "\<lambda>_. None"] indexed_none by auto
  moreover have "\<exists>res. row_Insert ?sv ?h b kb rb (sample_log True 7 ?v) = Some res \<and> or_rc res = HA_ERR_FOUND_DUPP_KEY"
    using insert_keeps_indexes [where R = "{(a, ka, ra)}" and l = "sample_log True 7 ?v",
        OF sample_names(1) sample_service_ok(1) good(2), of "\<lambda>_. None"] sample_indexed [OF v, of True 7] good(1) same rows by auto
  ultimately show ?thesis unfolding rows by simp
qed

theorem delete_keeps_indexes_witness:
  "case sample_row 7 (Some [5, 0, 0, 0]) of (record, key, rec) \<Rightarrow>
     \<exists>res. row_Delete (sample_service (\<lambda>_. None)) (sample_handler False) record key (sample_log False 7 (Some [5, 0, 0, 0])) = Some res \<and>
       or_rc res = 0 \<and> indexed (sample_handler False) {} (store_of (\<lambda>_. None) (or_log res))"
proof -
  let ?v = "Some [5, 0, 0, 0] :: bytes option" and ?h = "sample_handler False"
  have v: "?v = None \<or> ?v = Some [5, 0, 0, 0]" by simp
  obtain a ka ra where row: "sample_row 7 ?v = (a, ka, ra)" by (cases "sample_row 7 ?v") auto
  have good: "good_row ?h (a, ka, ra)" using sample_row_good [OF v, of False 7] row by simp
  show ?thesis
    using delete_keeps_indexes [OF sample_names(1) good sample_indexed [OF v, of False 7, unfolded row], of "sample_service (\<lambda>_. None)"]
    by (auto simp: row)
qed

lemma sample_pk_packed:
  assumes "v = None \<or> v = Some [e, f, g, h]"
  shows "\<exists>st. pack_record sample_table sample_pk (sample_record [a, b, c, d] v) w False None 0 = Some st \<and>
    pk_tuple st = sample_pk_image (sample_record [a, b, c, d] v) \<and> length (pk_tuple st) = 4"
proof -
  let ?r = "sample_record [a, b, c, d] v" and ?q = "[sample_parts ! 1]"
  have "row_ok sample_parts (key_row ?r sample_parts)" using assms by (intro sample_row_ok) auto
  then have pk: "parts_at sample_table sample_pk 0 ?q" "row_ok ?q (key_row ?r ?q)"
    "hidden_ok sample_table sample_pk None (pack_n_key_parts sample_table sample_pk False None 0) (length ?q)"
    using sample_parts_at
    by (auto simp: parts_at_def sample_pk_def sample_parts_def sample_sk_def hidden_ok_def pack_n_key_parts_def
        sample_table_def sample_defs table_has_hidden_pk_def MAX_INDEXES_def All_less_Suc2)
  have "length (sample_pk_image ?r) = 4"
    by (simp add: sample_pk_image_def enc_part_def part_image_def pack_part_def pack_with_make_sort_key_def sort_string_def
        sort_string_long_def key_row_def sample_key_defs)
  moreover have "enc_row enc_part ?q (key_row ?r ?q) = sample_pk_image ?r" by (simp add: sample_pk_image_def key_row_def)
  ultimately show ?thesis using pack_record_image [OF pk, of w] by (auto simp: hidden_tail_def)
qed

theorem update_keeps_indexes_witness:
  "case sample_row 7 (Some [5, 0, 0, 0]) of (old, key, rec) \<Rightarrow>
     \<exists>res. row_Update (sample_service (\<lambda>_. None)) (sample_handler True) (sample_record [7, 0, 0, 0] (Some [9, 0, 0, 0])) old key rec
         (sample_log True 7 (Some [5, 0, 0, 0])) = Some res \<and> or_rc res = 0 \<and>
       indexed (sample_handler True) {sample_row 7 (Some [9, 0, 0, 0])} (store_of (\<lambda>_. None) (or_log res))"
proof -
  let ?v = "Some [5, 0, 0, 0] :: bytes option" and ?w = "Some [9, 0, 0, 0] :: bytes option" and ?h = "sample_handler True"
  have v: "?v = None \<or> ?v = Some [5, 0, 0, 0]" "?w = None \<or> ?w = Some [9, 0, 0, 0]" by simp_all
  obtain a ka ra where row: "sample_row 7 ?v = (a, ka, ra)" by (cases "sample_row 7 ?v") auto
  let ?n = "sample_record [7, 0, 0, 0] ?w"
  have new: "sample_row 7 ?w = (?n, ka, ra)"
    using row by (auto simp: sample_row_def sample_pk_image_def sample_parts_def key_row_def sample_record_def sample_column_def example_field_def)
  have "entry_key ?h (sample_row 7 ?w) (sample_index True) \<noteq> entry_key ?h (sample_row 7 ?v) (sample_index True)"
    by (simp only: sample_unique_key [OF v(1)] sample_unique_key [OF v(2)])
      (simp add: enc_part_def part_image_def pack_part_def pack_with_make_sort_key_def sort_string_def
        sort_string_long_def sample_key_defs)
  then have kept: "entries_kept ?h (a, ka, ra) (?n, ka, ra)" by (simp add: entries_kept_def row new)
  have good: "good_row ?h (?n, ka, ra)" "\<forall>row \<in> {(a, ka, ra)}. good_row ?h row"
    using sample_row_good [OF v(1), of True 7] sample_row_good [OF v(2), of True 7] row new by simp_all
  show ?thesis unfolding row new prod.case
    using update_keeps_indexes [OF sample_names(1) sample_service_ok(1) good sample_indexed [OF v(1), of True 7, unfolded row] _ kept]
    by auto
qed

theorem update_pk_refused_witness:
  "\<exists>res. update_row (sample_service (\<lambda>_. None)) (sample_handler True) (sample_record [7, 0, 0, 0] (Some [5, 0, 0, 0]))
     (sample_record [3, 0, 0, 0] (Some [5, 0, 0, 0])) [3] (sample_log True 7 (Some [5, 0, 0, 0])) = Some res \<and>
     or_rc res = HA_ERR_FOUND_DUPP_KEY"
proof -
  let ?v = "Some [5, 0, 0, 0] :: bytes option" and ?h = "sample_handler True"
  have v: "?v = None \<or> ?v = Some [5, 0, 0, 0]" by simp
  let ?o = "sample_record [7, 0, 0, 0] ?v" and ?n = "sample_record [3, 0, 0, 0] ?v"
  obtain rec where pack: "PackKeyRecord ?h ?n [3] = Some (sample_pk_image ?n, rec)"
    using sample_pk_packed [OF v, of 3 0 0 0 "Some \<lparr>wr_data = []\<rparr>"] by (auto simp: PackKeyRecord_def)
  have old: "eloq_key_of_record (rh_pk_def ?h) (rh_table ?h) ?o None False = Some (PackedKey (sample_pk_image ?o))"
    using sample_pk_packed [OF v, of 7 0 0 0 None] by (auto simp: eloq_key_of_record_def) (simp add: sample_pk_def)
  have good: "good_row ?h (?n, sample_pk_image ?n, rec)" "\<forall>row \<in> {sample_row 7 ?v}. good_row ?h row"
    using sample_good_row [OF v] sample_row_good [OF v] by simp_all
  have neq: "sample_pk_image ?n \<noteq> sample_pk_image ?o"
    by (simp add: sample_pk_image_def enc_part_def part_image_def pack_part_def pack_with_make_sort_key_def sort_string_def
        sort_string_long_def key_row_def sample_key_defs)
  have mem: "(?o, sample_pk_image ?o, \<lparr>encoded_blob = [7], unpack_info = []\<rparr>) \<in> {sample_row 7 ?v}" by (simp add: sample_row_def)
  have d: "(1, sample_index True) \<in> set (secondary_indexes ?h)" by simp
  have "entry_key ?h (?n, sample_pk_image ?n, rec) (sample_index True) = entry_key ?h (sample_row 3 ?v) (sample_index True)"
    by (simp add: entry_key_def entry_in_def sample_row_def)
  then have same: "entry_key ?h (?n, sample_pk_image ?n, rec) (sample_index True) =
      entry_key ?h (?o, sample_pk_image ?o, \<lparr>encoded_blob = [7], unpack_info = []\<rparr>) (sample_index True)"
    using sample_unique_key [OF v, of 3] sample_unique_key [OF v, of 7] by (simp add: sample_row_def)
  show ?thesis
    by (rule update_pk_refused [OF sample_names(1) sample_service_ok good sample_indexed [OF v] mem sample_visible(1) pack old neq _ d same]) simp
qed


end
